(* ===== verification/Prelude.thy ===== *)
theory Prelude
  imports Main "HOL-Library.Word" "HOL-Library.Sublist"
begin

text \<open>
  What every component of the development shares: the machine integers of the C++ sources, the
  outcome of a C++ expression that may have undefined behaviour, the operations of
  \<^verbatim>\<open>std::string\<close> and of the character classification the sources call, number formatting and
  \<^verbatim>\<open>std::from_chars\<close>, and the named collections of facts that the component proofs run on.
  A \<^verbatim>\<open>char\<close> of the sources is a \<^typ>\<open>char\<close>, a \<^verbatim>\<open>std::string\<close> or \<^verbatim>\<open>std::string_view\<close> a
  \<^typ>\<open>string\<close>.
\<close>

section \<open>Machine integers\<close>

type_synonym u8 = "8 word"
type_synonym u16 = "16 word"
type_synonym u32 = "32 word"
type_synonym u64 = "64 word"

text \<open>\<^verbatim>\<open>size_t\<close> has 64 bits on both platforms the README names.\<close>

type_synonym size_t = "64 word"

section \<open>Outcomes with undefined behaviour\<close>

text \<open>
  An operation of the C++ sources that reads outside an array, or reads an indeterminate index
  into one, has no defined result. The model makes it the value \<open>UB\<close>, so that its absence is
  something to prove.
\<close>

datatype 'a outcome = Val 'a | UB

primrec bind_outcome :: "'a outcome \<Rightarrow> ('a \<Rightarrow> 'b outcome) \<Rightarrow> 'b outcome" where
  "bind_outcome (Val x) f = f x"
| "bind_outcome UB f = UB"

named_theorems cpp_defs \<open>definitions of the small operations, unfolded by the component proofs\<close>
named_theorems inv_intro \<open>preservation of the components' invariants\<close>

lemma bind_outcome_Val [simp]:
  "bind_outcome m f = Val y \<longleftrightarrow> (\<exists>x. m = Val x \<and> f x = Val y)"
  by (cases m) auto

lemma bind_outcome_UB [simp]:
  "bind_outcome m f = UB \<longleftrightarrow> m = UB \<or> (\<exists>x. m = Val x \<and> f x = UB)"
  by (cases m) auto

lemma bind_outcome_assoc: "bind_outcome (bind_outcome m f) g = bind_outcome m (\<lambda>x. bind_outcome (f x) g)"
  by (cases m) auto

text \<open>An indexed read of a vector: out of range it is undefined.\<close>

definition read_at :: "'a list \<Rightarrow> nat \<Rightarrow> 'a outcome" where
  "read_at xs i = (if i < length xs then Val (xs ! i) else UB)"

lemma read_at_simps [simp]:
  "read_at xs i = Val x \<longleftrightarrow> i < length xs \<and> x = xs ! i"
  "read_at xs i = UB \<longleftrightarrow> length xs \<le> i"
  by (auto simp: read_at_def)

text \<open>
  What the program finds in memory that it has not written: the characters of a new array, and those at
  the place of a string that has been destroyed. The latter is undefined behaviour that shows no effect as
  long as the place still holds the string.
\<close>

record memory =
  fresh :: "nat \<Rightarrow> char"
  stale :: "string \<Rightarrow> nat \<Rightarrow> char"

definition after_destruction :: "memory \<Rightarrow> string \<Rightarrow> string" where
  "after_destruction mem s = map (stale mem s) [0..<length s]"

definition intact :: "memory \<Rightarrow> bool" where
  "intact mem \<longleftrightarrow> (\<forall>s. after_destruction mem s = s)"

text \<open>
  \<^verbatim>\<open>memcpy(dst + to, src + from, n)\<close> between two arrays, and the contents of a new array of \<open>n\<close>
  characters in the memory \<open>mem\<close>.
\<close>

definition memcpy :: "string \<Rightarrow> nat \<Rightarrow> string \<Rightarrow> nat \<Rightarrow> nat \<Rightarrow> string outcome" where
  "memcpy dst to src from n =
     (if to + n \<le> length dst \<and> from + n \<le> length src
      then Val (take to dst @ take n (drop from src) @ drop (to + n) dst) else UB)"

definition new_chars :: "memory \<Rightarrow> nat \<Rightarrow> string" where
  "new_chars mem n = map (fresh mem) [0..<n]"

lemma length_new_chars [simp]: "length (new_chars mem n) = n"
  by (simp add: new_chars_def)

lemma memcpy_behind:
  assumes "length a = to" "from + n \<le> length src" "n \<le> length b"
  shows "memcpy (a @ b) to src from n = Val (a @ take n (drop from src) @ drop n b)"
  using assms by (simp add: memcpy_def)

section \<open>Strings\<close>

text \<open>\<^verbatim>\<open>find(pat)\<close>: the least position at which \<open>pat\<close> occurs, \<open>None\<close> for \<^verbatim>\<open>npos\<close>.\<close>

fun str_find :: "string \<Rightarrow> string \<Rightarrow> nat option" where
  "str_find pat [] = (if pat = [] then Some 0 else None)"
| "str_find pat (c # cs) =
     (if prefix pat (c # cs) then Some 0 else map_option Suc (str_find pat cs))"

text \<open>\<^verbatim>\<open>find(c)\<close> for one character, and the last occurrence (\<^verbatim>\<open>find_last_of\<close>).\<close>

fun find_char :: "char \<Rightarrow> string \<Rightarrow> nat option" where
  "find_char c [] = None"
| "find_char c (x # xs) = (if x = c then Some 0 else map_option Suc (find_char c xs))"

fun find_last_char :: "char \<Rightarrow> string \<Rightarrow> nat option" where
  "find_last_char c [] = None"
| "find_last_char c (x # xs) =
     (case find_last_char c xs of
        Some n \<Rightarrow> Some (Suc n)
      | None \<Rightarrow> if x = c then Some 0 else None)"

text \<open>\<^verbatim>\<open>find(c, pos)\<close>: a search that starts at \<open>pos\<close>.\<close>

definition find_char_from :: "char \<Rightarrow> string \<Rightarrow> nat \<Rightarrow> nat option" where
  "find_char_from c s pos = map_option (\<lambda>n. n + pos) (find_char c (drop pos s))"

lemma str_find_Some:
  "str_find pat s = Some n \<Longrightarrow> n \<le> length s \<and> prefix pat (drop n s)"
  by (induction pat s arbitrary: n rule: str_find.induct) (auto split: if_splits)

lemma str_find_least:
  "str_find pat s = Some n \<Longrightarrow> i < n \<Longrightarrow> \<not> prefix pat (drop i s)"
proof (induction pat s arbitrary: n i rule: str_find.induct)
  case (2 pat c cs)
  then show ?case by (cases i) (auto split: if_splits)
qed (auto split: if_splits)

lemma str_find_None: "str_find pat s = None \<longleftrightarrow> (\<forall>i \<le> length s. \<not> prefix pat (drop i s))"
proof (induction pat s rule: str_find.induct)
  case (2 pat c cs)
  have split: "(\<forall>i \<le> length (c # cs). \<not> prefix pat (drop i (c # cs))) \<longleftrightarrow>
      \<not> prefix pat (c # cs) \<and> (\<forall>i \<le> length cs. \<not> prefix pat (drop i cs))"
    by (metis Suc_le_mono drop0 drop_Suc_Cons length_Cons not0_implies_Suc zero_le)
  show ?case unfolding split using 2 by auto
qed auto

lemma str_find_prefix: "prefix pat s \<Longrightarrow> str_find pat s = Some 0"
  by (cases s) auto

lemma find_char_Some:
  "find_char c s = Some n \<longleftrightarrow> n < length s \<and> s ! n = c \<and> c \<notin> set (take n s)"
proof (induction s arbitrary: n)
  case (Cons x xs)
  then show ?case by (cases n) auto
qed simp

lemma find_char_None [simp]: "find_char c s = None \<longleftrightarrow> c \<notin> set s"
  by (induction s) auto

lemma find_char_append:
  "find_char c (xs @ ys) = (if c \<in> set xs then find_char c xs else map_option ((+) (length xs)) (find_char c ys))"
  by (induction xs) (auto simp: option.map_comp comp_def option.map_id [unfolded id_def] plus_nat.add_0 [abs_def])

lemma find_last_char_None [simp]: "find_last_char c s = None \<longleftrightarrow> c \<notin> set s"
  by (induction s) (auto split: option.splits)

lemma find_last_char_Some:
  "find_last_char c s = Some n \<Longrightarrow> n < length s \<and> s ! n = c \<and> c \<notin> set (drop (Suc n) s)"
proof (induction s arbitrary: n)
  case (Cons x xs)
  show ?case
  proof (cases "find_last_char c xs")
    case None
    with Cons.prems show ?thesis by (auto split: if_splits)
  next
    case (Some m)
    with Cons show ?thesis by auto
  qed
qed simp

lemma find_last_char_append: "c \<notin> set e \<Longrightarrow> find_last_char c (s @ c # e) = Some (length s)"
  by (induction s) (auto split: option.splits)

section \<open>Characters\<close>

abbreviation code :: "char \<Rightarrow> nat" where
  "code c \<equiv> of_char c"

abbreviation CR :: char where "CR \<equiv> CHR 0x0D"
abbreviation LF :: char where "LF \<equiv> CHR 0x0A"
abbreviation HT :: char where "HT \<equiv> CHR 0x09"
abbreviation SP :: char where "SP \<equiv> CHR 0x20"

text \<open>\<^verbatim>\<open>tolower\<close> and \<^verbatim>\<open>isdigit\<close> of the C locale.\<close>

definition tolower :: "char \<Rightarrow> char" where
  "tolower c = (if 65 \<le> code c \<and> code c \<le> 90 then char_of (code c + 32) else c)"

definition is_digit :: "char \<Rightarrow> bool" where
  "is_digit c \<longleftrightarrow> 48 \<le> code c \<and> code c \<le> 57"

lemma code_char_of [simp]: "n < 256 \<Longrightarrow> code (char_of n) = n"
  by simp

lemma code_tolower: "code (tolower c) = (if 65 \<le> code c \<and> code c \<le> 90 then code c + 32 else code c)"
  by (simp add: tolower_def)

lemma tolower_idem [simp]: "tolower (tolower c) = tolower c"
  by (simp add: tolower_def)

section \<open>Numbers as text\<close>

text \<open>The digits of a number to a base, most significant first, and their value.\<close>

fun radix :: "nat \<Rightarrow> nat \<Rightarrow> nat list" where
  "radix b n = (if b < 2 \<or> n < b then [n] else radix b (n div b) @ [n mod b])"

declare radix.simps [simp del]

definition value_of :: "nat \<Rightarrow> nat list \<Rightarrow> nat" where
  "value_of b ds = foldl (\<lambda>v d. v * b + d) 0 ds"

lemma value_of_snoc [simp]: "value_of b (ds @ [d]) = value_of b ds * b + d"
  by (simp add: value_of_def)

lemma value_of_Nil [simp]: "value_of b [] = 0"
  by (simp add: value_of_def)

lemma value_of_radix [simp]: "value_of b (radix b n) = n"
proof (induction b n rule: radix.induct)
  case (1 b n)
  then show ?case
    by (cases "b < 2 \<or> n < b") (simp_all add: radix.simps [of b n] value_of_def)
qed

lemma radix_digits: "2 \<le> b \<Longrightarrow> d \<in> set (radix b n) \<Longrightarrow> d < b"
proof (induction b n rule: radix.induct)
  case (1 b n)
  then show ?case
    by (cases "b < 2 \<or> n < b") (auto simp: radix.simps [of b n])
qed

lemma radix_nonempty [simp]: "radix b n \<noteq> []"
  by (subst radix.simps) simp

text \<open>\<^verbatim>\<open>fmt::format\<close> of an unsigned number, as \<open>{}\<close> and as \<open>{:x}\<close>.\<close>

definition dec_digit :: "nat \<Rightarrow> char" where
  "dec_digit d = char_of (48 + d)"

definition hex_digit :: "nat \<Rightarrow> char" where
  "hex_digit d = (if d < 10 then char_of (48 + d) else char_of (87 + d))"

definition dec :: "nat \<Rightarrow> string" where
  "dec n = map dec_digit (radix 10 n)"

definition hex :: "nat \<Rightarrow> string" where
  "hex n = map hex_digit (radix 16 n)"

definition digit_val :: "char \<Rightarrow> nat" where
  "digit_val c = code c - 48"

lemma digit_val_dec_digit [simp]: "d < 10 \<Longrightarrow> digit_val (dec_digit d) = d"
  by (simp add: digit_val_def dec_digit_def)

lemma is_digit_dec_digit [simp]: "d < 10 \<Longrightarrow> is_digit (dec_digit d)"
  by (simp add: is_digit_def dec_digit_def)

lemma dec_digits [simp]: "c \<in> set (dec n) \<Longrightarrow> is_digit c"
  by (auto simp: dec_def dest: radix_digits [rotated])

lemma dec_nonempty [simp]: "dec n \<noteq> []"
  by (simp add: dec_def)

lemma map_digit_val_dec [simp]: "map digit_val (dec n) = radix 10 n"
proof -
  have "map digit_val (dec n) = map (\<lambda>d. d) (radix 10 n)"
    unfolding dec_def map_map by (rule map_cong) (auto dest: radix_digits [rotated])
  then show ?thesis by simp
qed

text \<open>
  \<^verbatim>\<open>std::from_chars\<close> into a \<^verbatim>\<open>size_t\<close>: the longest run of leading digits, an error when there is
  none or when its value does not fit. What follows the digits is left alone.
\<close>

datatype errc = invalid_argument | result_out_of_range

definition from_chars :: "string \<Rightarrow> errc + size_t" where
  "from_chars s =
     (let ds = takeWhile is_digit s; v = value_of 10 (map digit_val ds)
      in if ds = [] then Inl invalid_argument
         else if v < 2 ^ 64 then Inr (word_of_nat v)
         else Inl result_out_of_range)"

lemma from_chars_dec:
  assumes "n < 2 ^ 64" and "\<And>c. c \<in> set (take 1 s) \<Longrightarrow> \<not> is_digit c"
  shows "from_chars (dec n @ s) = Inr (word_of_nat n)"
proof -
  have "takeWhile is_digit (dec n @ s) = dec n"
    using assms(2) by (cases s) (auto simp: takeWhile_append)
  then show ?thesis
    using assms(1) by (simp add: from_chars_def)
qed

end
