(* ===== verification/Router.thy ===== *)
theory Router
  imports Prelude "HOL-Library.Multiset"
begin

text \<open>
  The router of \<^verbatim>\<open>core/include/router.h\<close> and \<^verbatim>\<open>core/src/router.cc\<close>: connection descriptions,
  the round-robin target list of a route, and the two global tables (exact and prefix routes)
  with the operations that fill and query them. The tables are the fields of \<open>router\<close>.
  A lookup advances the round-robin index of the route it uses, so it returns the new tables.
\<close>

section \<open>Connections\<close>

definition kProtocolTypeHttp :: string where [cpp_defs]: "kProtocolTypeHttp = ''http''"
definition kProtocolTypeTcp :: string where [cpp_defs]: "kProtocolTypeTcp = ''tcp''"
definition kProtocolTypeUdp :: string where [cpp_defs]: "kProtocolTypeUdp = ''udp''"
definition kProtocolTypeGrpc :: string where [cpp_defs]: "kProtocolTypeGrpc = ''grpc''"
definition kProtocolTypeWebSocket :: string where
  [cpp_defs]: "kProtocolTypeWebSocket = ''websocket''"
definition kProtocolTypeUnknown :: string where [cpp_defs]: "kProtocolTypeUnknown = []"

record ConnectionInfo =
  ctype :: string
  downstream_address :: string
  downstream_port :: u16
  http_url :: string
  is_remote :: bool

text \<open>
  A default-initialised \<^verbatim>\<open>ConnectionInfo\<close>: the strings are empty, the port has its initialiser,
  and \<open>is_remote\<close> holds whatever the memory held (\<open>undef_remote\<close>).
\<close>

definition new_connection :: "bool \<Rightarrow> ConnectionInfo" where
  "new_connection undef_remote =
     \<lparr>ctype = [], downstream_address = [], downstream_port = 0, http_url = [],
      is_remote = undef_remote\<rparr>"

text \<open>\<^verbatim>\<open>ConnectionInfo::operator==\<close>.\<close>

definition conn_eq :: "ConnectionInfo \<Rightarrow> ConnectionInfo \<Rightarrow> bool" where
  "conn_eq c d =
     (if ctype c \<noteq> ctype d then False
      else if ctype c = kProtocolTypeTcp then downstream_address c = downstream_address d
      else (ctype c = kProtocolTypeHttp \<or> ctype c = kProtocolTypeWebSocket) \<and>
           http_url c = http_url d)"

text \<open>
  \<^verbatim>\<open>std::hash<ConnectionInfo>\<close>, over the library's \<^verbatim>\<open>std::hash\<close> for strings.
\<close>

definition conn_hash :: "(string \<Rightarrow> size_t) \<Rightarrow> ConnectionInfo \<Rightarrow> size_t" where
  "conn_hash h c = xor (h (ctype c)) (push_bit 1 (h (http_url c)))"

section \<open>The targets of a route\<close>

record RouteAction =
  next_index :: size_t
  targets :: "ConnectionInfo list"

definition same_target :: "ConnectionInfo \<Rightarrow> ConnectionInfo \<Rightarrow> bool" where
  "same_target conn c \<longleftrightarrow> http_url conn = http_url c \<and> is_remote conn = is_remote c"

definition AddTarget :: "ConnectionInfo \<Rightarrow> RouteAction \<Rightarrow> RouteAction" where
  "AddTarget conn ra =
     (if find (same_target conn) (targets ra) = None
      then ra\<lparr>targets := targets ra @ [conn]\<rparr> else ra)"

definition RemoveTarget :: "ConnectionInfo \<Rightarrow> RouteAction \<Rightarrow> RouteAction" where
  "RemoveTarget conn ra =
     (let kept = filter (\<lambda>c. \<not> conn_eq c conn) (targets ra)
      in if length kept < length (targets ra)
         then if next_index ra \<ge> word_of_nat (length kept) \<and> kept \<noteq> []
              then \<lparr>next_index = next_index ra mod word_of_nat (length kept), targets = kept\<rparr>
              else ra\<lparr>targets := kept\<rparr>
         else ra)"

definition GetNextTarget :: "RouteAction \<Rightarrow> (ConnectionInfo option \<times> RouteAction) outcome" where
  "GetNextTarget ra =
     (if targets ra = [] then Val (None, ra)
      else bind_outcome (read_at (targets ra) (unat (next_index ra))) (\<lambda>result.
        Val (Some result,
             ra\<lparr>next_index := (next_index ra + 1) mod word_of_nat (length (targets ra))\<rparr>)))"

definition Contains :: "RouteAction \<Rightarrow> ConnectionInfo \<Rightarrow> bool" where
  "Contains ra conn \<longleftrightarrow> find (\<lambda>c. conn_eq c conn) (targets ra) \<noteq> None"

section \<open>The route tables\<close>

record router =
  g_exact_routes :: "string \<rightharpoonup> RouteAction"
  g_prefix_routes :: "(ConnectionInfo \<times> RouteAction) list"

definition empty_router :: router where
  "empty_router = \<lparr>g_exact_routes = Map.empty, g_prefix_routes = []\<rparr>"

definition matchPrefix :: "string \<Rightarrow> string \<Rightarrow> bool" where
  "matchPrefix source_url pre \<longleftrightarrow> prefix pre source_url"

definition http_target :: "string \<Rightarrow> bool \<Rightarrow> ConnectionInfo" where
  "http_target target_url is_local =
     \<lparr>ctype = kProtocolTypeHttp, downstream_address = [], downstream_port = 0,
      http_url = target_url, is_remote = (\<not> is_local)\<rparr>"

text \<open>
  The loop of \<^verbatim>\<open>AddPrefixMatchRoute\<close> over \<^verbatim>\<open>g_prefix_routes\<close>: the first route whose prefix starts
  \<open>source_url\<close> takes the target. \<open>None\<close> when the loop falls through.
\<close>

fun add_to_first_prefix ::
  "string \<Rightarrow> ConnectionInfo \<Rightarrow> (ConnectionInfo \<times> RouteAction) list \<Rightarrow>
   (ConnectionInfo \<times> RouteAction) list option" where
  "add_to_first_prefix source_url target [] = None"
| "add_to_first_prefix source_url target ((c, ra) # routes) =
     (if matchPrefix source_url (http_url c)
      then Some ((c, AddTarget target ra) # routes)
      else map_option ((#) (c, ra)) (add_to_first_prefix source_url target routes))"

text \<open>
  \<^verbatim>\<open>RouteAction router_entry{}\<close> is value-initialised, so its index is 0. The unset \<open>is_remote\<close>
  of the stored source is the argument \<open>undef_remote\<close>.
\<close>

definition AddPrefixMatchRoute ::
  "bool \<Rightarrow> string \<Rightarrow> string \<Rightarrow> bool \<Rightarrow> router \<Rightarrow> router" where
  "AddPrefixMatchRoute undef_remote source_url target_url is_local r =
     (let target = http_target target_url is_local
      in case add_to_first_prefix source_url target (g_prefix_routes r) of
           Some routes \<Rightarrow> r\<lparr>g_prefix_routes := routes\<rparr>
         | None \<Rightarrow>
             let router_entry = AddTarget target \<lparr>next_index = 0, targets = []\<rparr>;
                 source = (new_connection undef_remote)\<lparr>http_url := source_url\<rparr>
             in r\<lparr>g_prefix_routes := g_prefix_routes r @ [(source, router_entry)]\<rparr>)"

text \<open>
  \<^verbatim>\<open>RouteAction router_entry;\<close> is default-initialised: \<open>next_index\<close> has no initialiser, so it
  holds an indeterminate value, the argument \<open>undef_index\<close>.
\<close>

definition AddPathMatchRoute ::
  "size_t \<Rightarrow> string \<Rightarrow> string \<Rightarrow> bool \<Rightarrow> router \<Rightarrow> router" where
  "AddPathMatchRoute undef_index source_url target_url is_local r =
     (let target = http_target target_url is_local
      in case g_exact_routes r source_url of
           Some ra \<Rightarrow> r\<lparr>g_exact_routes := (g_exact_routes r)(source_url \<mapsto> AddTarget target ra)\<rparr>
         | None \<Rightarrow>
             let router_entry = AddTarget target \<lparr>next_index = undef_index, targets = []\<rparr>
             in r\<lparr>g_exact_routes := (g_exact_routes r)(source_url \<mapsto> router_entry)\<rparr>)"

text \<open>
  \<^verbatim>\<open>source_url[after]\<close>: reading the position one past the end gives the terminator, reading
  further is undefined. \<^verbatim>\<open>prefix.back()\<close> of an empty string is undefined.
\<close>

definition string_at :: "string \<Rightarrow> nat \<Rightarrow> char outcome" where
  "string_at s i = (if i = length s then Val (CHR 0x00) else read_at s i)"

definition string_back :: "string \<Rightarrow> char outcome" where
  "string_back s = (if s = [] then UB else Val (last s))"

definition boundary_test :: "string \<Rightarrow> string \<Rightarrow> bool outcome" where
  "boundary_test source_url pre =
     (let after = length pre
      in if after = length source_url then Val True
         else bind_outcome (string_at source_url after) (\<lambda>c.
           if c = CHR ''/'' then Val True
           else bind_outcome (string_back pre) (\<lambda>b. Val (b = CHR ''/''))))"

text \<open>
  The loop of \<^verbatim>\<open>GetRouteTarget\<close> over the prefix routes from index \<open>i\<close>, with the loop's two
  variables; the result is the index of \<^verbatim>\<open>longest_match\<close>.
\<close>

fun scan_prefix_routes ::
  "string \<Rightarrow> (ConnectionInfo \<times> RouteAction) list \<Rightarrow> nat \<Rightarrow> nat option \<Rightarrow> nat \<Rightarrow>
   nat option outcome" where
  "scan_prefix_routes source_url [] i longest_match longest_len = Val longest_match"
| "scan_prefix_routes source_url (route # routes) i longest_match longest_len =
     (let pre = http_url (fst route)
      in if matchPrefix source_url pre
         then scan_prefix_routes source_url routes (Suc i) longest_match longest_len
         else bind_outcome (boundary_test source_url pre) (\<lambda>skip.
           if skip \<or> length pre \<le> longest_len
           then scan_prefix_routes source_url routes (Suc i) longest_match longest_len
           else scan_prefix_routes source_url routes (Suc i) (Some i) (length pre)))"

definition GetRouteTarget :: "string \<Rightarrow> router \<Rightarrow> (ConnectionInfo option \<times> router) outcome" where
  "GetRouteTarget source_url r =
     (case g_exact_routes r source_url of
        Some ra \<Rightarrow>
          bind_outcome (GetNextTarget ra) (\<lambda>(t, ra').
            Val (t, r\<lparr>g_exact_routes := (g_exact_routes r)(source_url \<mapsto> ra')\<rparr>))
      | None \<Rightarrow>
          bind_outcome (scan_prefix_routes source_url (g_prefix_routes r) 0 None 0) (\<lambda>m.
            case m of
              None \<Rightarrow> Val (None, r)
            | Some i \<Rightarrow>
                bind_outcome (GetNextTarget (snd (g_prefix_routes r ! i))) (\<lambda>(t, ra').
                  Val (t, r\<lparr>g_prefix_routes :=
                         (g_prefix_routes r)[i := (fst (g_prefix_routes r ! i), ra')]\<rparr>))))"

section \<open>Round-robin service\<close>

text \<open>\<open>n\<close> successive calls of a pool's \<open>pop\<close>, threading the pool.\<close>

primrec serve :: "('p \<Rightarrow> ('t option \<times> 'p) outcome) \<Rightarrow> nat \<Rightarrow> 'p \<Rightarrow> ('t option list \<times> 'p) outcome" where
  "serve pop 0 p = Val ([], p)"
| "serve pop (Suc n) p =
     bind_outcome (serve pop n p) (\<lambda>(ts, p').
       bind_outcome (pop p') (\<lambda>(t, p''). Val (ts @ [t], p'')))"

text \<open>
  What a client of a target list may rely on: \<open>view\<close> is the targets in the order they will be
  served; \<open>pop\<close> serves the first and moves it to the back.
\<close>

locale rotation_pool =
  fixes pop :: "'p \<Rightarrow> ('t option \<times> 'p) outcome"
    and view :: "'p \<Rightarrow> 't list"
    and ok :: "'p \<Rightarrow> bool"
  assumes pop_empty: "ok p \<Longrightarrow> view p = [] \<Longrightarrow> pop p = Val (None, p)"
    and pop_cons: "ok p \<Longrightarrow> view p = t # ts \<Longrightarrow>
      \<exists>p'. pop p = Val (Some t, p') \<and> ok p' \<and> view p' = ts @ [t]"
begin

lemma pop_rotate:
  assumes "ok p" and "view p \<noteq> []"
  shows "\<exists>p'. pop p = Val (Some (hd (view p)), p') \<and> ok p' \<and> view p' = rotate1 (view p)"
  using assms pop_cons [of p] by (cases "view p") auto

lemma serve_rotates:
  assumes "ok p" and "view p \<noteq> []"
  shows "\<exists>p'. serve pop n p = Val (map (\<lambda>i. Some (view p ! (i mod length (view p)))) [0..<n], p')
    \<and> ok p' \<and> view p' = rotate n (view p)"
proof (induction n)
  case (Suc n)
  then obtain p' where p': "serve pop n p =
      Val (map (\<lambda>i. Some (view p ! (i mod length (view p)))) [0..<n], p')"
    "ok p'" "view p' = rotate n (view p)" by blast
  with assms obtain p'' where "pop p' = Val (Some (hd (view p')), p'')"
    "ok p''" "view p'' = rotate1 (view p')"
    using pop_rotate [of p'] by auto
  with p' assms(2) show ?case
    by (auto simp: hd_rotate_conv_nth)
qed (use assms in simp)

lemma serve_round:
  assumes "ok p" and "view p \<noteq> []"
  shows "\<exists>p'. serve pop (length (view p)) p = Val (map Some (view p), p') \<and> view p' = view p"
proof -
  have "map (\<lambda>i. Some (view p ! (i mod length (view p)))) [0..<length (view p)] = map Some (view p)"
    by (rule nth_equalityI) auto
  then show ?thesis
    using serve_rotates [OF assms, of "length (view p)"] by auto
qed

end

definition target_key :: "ConnectionInfo \<Rightarrow> string \<times> bool" where
  "target_key c = (http_url c, is_remote c)"

definition action_ok :: "RouteAction \<Rightarrow> bool" where
  "action_ok ra \<longleftrightarrow> unat (next_index ra) < length (targets ra) \<and> length (targets ra) < 2 ^ 64 \<and>
     distinct (map target_key (targets ra))"

definition serving_order :: "RouteAction \<Rightarrow> ConnectionInfo list" where
  "serving_order ra = rotate (unat (next_index ra)) (targets ra)"

definition advance :: "RouteAction \<Rightarrow> RouteAction" where
  "advance ra = ra\<lparr>next_index := (next_index ra + 1) mod word_of_nat (length (targets ra))\<rparr>"

lemma unat_advance:
  assumes "unat k < n" and "n < 2 ^ 64"
  shows "unat ((k + 1) mod word_of_nat n :: size_t) = Suc (unat k) mod n"
proof -
  have "unat (k + 1) = Suc (unat k)"
    using assms by (simp add: unat_word_ariths)
  then show ?thesis
    using assms by (simp add: unat_mod_distrib unat_of_nat take_bit_nat_eq_self)
qed

lemma advance_simps [simp]:
  "targets (advance ra) = targets ra"
  "action_ok ra \<Longrightarrow> unat (next_index (advance ra)) = Suc (unat (next_index ra)) mod length (targets ra)"
  by (simp_all add: advance_def action_ok_def unat_advance)

lemma action_ok_advance [inv_intro]: "action_ok ra \<Longrightarrow> action_ok (advance ra)"
  using advance_simps(2) [of ra] by (auto simp: action_ok_def intro!: mod_less_divisor)

lemma GetNextTarget_ok:
  "action_ok ra \<Longrightarrow> GetNextTarget ra = Val (Some (targets ra ! unat (next_index ra)), advance ra)"
  by (auto simp: GetNextTarget_def action_ok_def read_at_def advance_def)

lemma GetNextTarget_UB:
  "GetNextTarget ra = UB \<longleftrightarrow> targets ra \<noteq> [] \<and> length (targets ra) \<le> unat (next_index ra)"
  by (auto simp: GetNextTarget_def)

lemma rotate_mod_Suc: "xs \<noteq> [] \<Longrightarrow> rotate (Suc k mod length xs) xs = rotate1 (rotate k xs)"
  by (simp flip: rotate_conv_mod)

lemma serving_order_advance: "action_ok ra \<Longrightarrow> serving_order (advance ra) = rotate1 (serving_order ra)"
  by (simp add: serving_order_def rotate_mod_Suc action_ok_def advance_simps(2) flip: length_greater_0_conv)

interpretation rr: rotation_pool GetNextTarget serving_order action_ok
proof unfold_locales
  show "GetNextTarget p = Val (None, p)" if "serving_order p = []" for p
    using that by (simp add: GetNextTarget_def serving_order_def)
  show "\<exists>p'. GetNextTarget p = Val (Some t, p') \<and> action_ok p' \<and> serving_order p' = ts @ [t]"
    if ok: "action_ok p" and view: "serving_order p = t # ts" for p t ts
  proof -
    have "targets p \<noteq> []" using ok by (auto simp: action_ok_def)
    then have "targets p ! unat (next_index p) = hd (serving_order p)"
      using ok by (simp add: serving_order_def hd_rotate_conv_nth action_ok_def)
    then show ?thesis
      using ok view by (auto simp: GetNextTarget_ok serving_order_advance intro: inv_intro)
  qed
qed

lemma length_serving_order [simp]: "length (serving_order ra) = length (targets ra)"
  by (simp add: serving_order_def)

lemma serving_order_nonempty [simp]: "serving_order ra = [] \<longleftrightarrow> targets ra = []"
  by (simp add: serving_order_def)

lemma mset_rotate: "mset (rotate n xs) = mset xs"
  unfolding rotate_drop_take mset_append by (metis add.commute append_take_drop_id mset_append)

lemma mset_serving_order [simp]: "mset (serving_order ra) = mset (targets ra)"
  by (simp add: serving_order_def mset_rotate)

text \<open>A path with an exact route is such a pool as well, inside the table.\<close>

definition exact_order :: "string \<Rightarrow> router \<Rightarrow> ConnectionInfo list" where
  "exact_order u r = (case g_exact_routes r u of None \<Rightarrow> [] | Some ra \<Rightarrow> serving_order ra)"

definition exact_ok :: "string \<Rightarrow> router \<Rightarrow> bool" where
  "exact_ok u r \<longleftrightarrow> (\<exists>ra. g_exact_routes r u = Some ra \<and> action_ok ra)"

interpretation exact: rotation_pool "GetRouteTarget u" "exact_order u" "exact_ok u" for u
proof unfold_locales
  fix r :: router
  assume "exact_ok u r"
  then obtain ra where ra: "g_exact_routes r u = Some ra" "action_ok ra" by (auto simp: exact_ok_def)
  have "targets ra \<noteq> []" using ra(2) by (auto simp: action_ok_def)
  then show "GetRouteTarget u r = Val (None, r)" if "exact_order u r = []" using that ra(1) by (simp add: exact_order_def)
  show "\<exists>r'. GetRouteTarget u r = Val (Some t, r') \<and> exact_ok u r' \<and> exact_order u r' = ts @ [t]"
    if "exact_order u r = t # ts" for t ts
    using rr.pop_cons [OF ra(2), of t ts] that ra(1)
    by (auto simp: exact_order_def exact_ok_def GetRouteTarget_def)
qed

section \<open>Filling a route\<close>

lemma same_target_key: "same_target c d \<longleftrightarrow> target_key c = target_key d"
  by (auto simp: same_target_def target_key_def)

lemma AddTarget_cases:
  "AddTarget c ra = (if target_key c \<in> target_key ` set (targets ra) then ra
     else ra\<lparr>targets := targets ra @ [c]\<rparr>)"
  by (auto simp: AddTarget_def find_None_iff same_target_key)

lemma next_index_AddTarget [simp]: "next_index (AddTarget c ra) = next_index ra"
  by (simp add: AddTarget_cases)

lemma AddTarget_nonempty [simp]: "targets (AddTarget c ra) \<noteq> []"
  by (auto simp: AddTarget_cases)

lemma AddTarget_keys: "target_key ` set (targets (AddTarget c ra)) = insert (target_key c) (target_key ` set (targets ra))"
  by (auto simp: AddTarget_cases)

lemma AddTarget_idem: "AddTarget c (AddTarget c ra) = AddTarget c ra"
  by (simp add: AddTarget_cases [of c "AddTarget c ra"] AddTarget_keys)

text \<open>A vector never grows beyond the address space: there is room for one more target.\<close>

definition has_room :: "RouteAction \<Rightarrow> bool" where
  "has_room ra \<longleftrightarrow> Suc (length (targets ra)) < 2 ^ 64"

lemma action_ok_AddTarget [inv_intro]:
  "action_ok ra \<Longrightarrow> has_room ra \<Longrightarrow> action_ok (AddTarget c ra)"
  by (auto simp: action_ok_def AddTarget_cases has_room_def)

lemma action_ok_new [inv_intro]: "action_ok (AddTarget c \<lparr>next_index = 0, targets = []\<rparr>)"
  by (simp add: action_ok_def AddTarget_cases)

section \<open>Emptying a route\<close>

lemma targets_RemoveTarget [simp]:
  "targets (RemoveTarget c ra) = filter (\<lambda>d. \<not> conn_eq d c) (targets ra)"
proof (cases "length (filter (\<lambda>d. \<not> conn_eq d c) (targets ra)) < length (targets ra)")
  case False
  then have "filter (\<lambda>d. \<not> conn_eq d c) (targets ra) = targets ra"
    by (metis filter_id_conv length_filter_less)
  with False show ?thesis by (simp add: RemoveTarget_def Let_def)
qed (simp add: RemoveTarget_def Let_def)

lemma RemoveTarget_not_Contains: "\<not> Contains (RemoveTarget c ra) c"
  by (simp add: Contains_def find_None_iff)

lemma RemoveTarget_fits: "action_ok ra \<Longrightarrow> length (targets (RemoveTarget c ra)) < 2 ^ 64"
  unfolding targets_RemoveTarget action_ok_def by (blast intro: le_less_trans [OF length_filter_le])

lemma RemoveTarget_index:
  assumes "action_ok ra" and "targets (RemoveTarget c ra) \<noteq> []"
  shows "unat (next_index (RemoveTarget c ra)) < length (targets (RemoveTarget c ra))"
proof -
  define kept where "kept = filter (\<lambda>d. \<not> conn_eq d c) (targets ra)"
  have fit: "length kept < 2 ^ 64"
    using RemoveTarget_fits [OF assms(1)] by (simp add: kept_def)
  then have n: "unat (word_of_nat (length kept) :: size_t) = length kept"
    by (simp add: unat_of_nat take_bit_nat_eq_self)
  have "kept \<noteq> []" using assms(2) by (simp add: kept_def)
  then show ?thesis
    using assms(1) n unfolding targets_RemoveTarget
    by (auto simp: RemoveTarget_def Let_def unat_mod_distrib word_le_nat_alt action_ok_def simp flip: kept_def)
qed

lemma action_ok_RemoveTarget [inv_intro]:
  assumes "action_ok ra" and "targets (RemoveTarget c ra) \<noteq> []"
  shows "action_ok (RemoveTarget c ra)"
  unfolding action_ok_def
proof (intro conjI)
  show "unat (next_index (RemoveTarget c ra)) < length (targets (RemoveTarget c ra))"
    using assms by (rule RemoveTarget_index)
  show "length (targets (RemoveTarget c ra)) < 2 ^ 64"
    using assms(1) by (rule RemoveTarget_fits)
  show "distinct (map target_key (targets (RemoveTarget c ra)))"
    using assms(1) by (simp add: action_ok_def distinct_map_filter)
qed

section \<open>The table invariant\<close>

text \<open>
  What holds of a target list whatever its index: it has targets, and no two of them alike. The
  index of a prefix route is value-initialised, so it is in range from the start; the index of an
  exact route is indeterminate until its first lookup (\<open>router_shaped\<close>). In \<open>router_ok\<close> every index
  is in range.
\<close>

definition action_shaped :: "RouteAction \<Rightarrow> bool" where
  "action_shaped ra \<longleftrightarrow> targets ra \<noteq> [] \<and> length (targets ra) < 2 ^ 64 \<and>
     distinct (map target_key (targets ra))"

definition router_shaped :: "router \<Rightarrow> bool" where
  "router_shaped r \<longleftrightarrow> (\<forall>u ra. g_exact_routes r u = Some ra \<longrightarrow> action_shaped ra) \<and>
     (\<forall>(c, ra) \<in> set (g_prefix_routes r). action_ok ra)"

lemma action_ok_shaped: "action_ok ra \<longleftrightarrow> action_shaped ra \<and> unat (next_index ra) < length (targets ra)"
  by (auto simp: action_ok_def action_shaped_def)

lemma action_shaped_AddTarget [inv_intro]:
  "action_shaped ra \<Longrightarrow> has_room ra \<Longrightarrow> action_shaped (AddTarget c ra)"
  by (auto simp: action_shaped_def AddTarget_cases has_room_def)

lemma action_shaped_new [inv_intro]: "action_shaped (AddTarget c \<lparr>next_index = k, targets = []\<rparr>)"
  by (simp add: action_shaped_def AddTarget_cases)

definition router_ok :: "router \<Rightarrow> bool" where
  "router_ok r \<longleftrightarrow> (\<forall>u ra. g_exact_routes r u = Some ra \<longrightarrow> action_ok ra) \<and>
     (\<forall>(c, ra) \<in> set (g_prefix_routes r). action_ok ra)"

text \<open>Every target list of the table has room for one more entry.\<close>

definition router_room :: "router \<Rightarrow> bool" where
  "router_room r \<longleftrightarrow> (\<forall>u ra. g_exact_routes r u = Some ra \<longrightarrow> has_room ra) \<and>
     (\<forall>(c, ra) \<in> set (g_prefix_routes r). has_room ra)"

lemma router_ok_empty [inv_intro]: "router_ok empty_router" "router_shaped empty_router"
  by (simp_all add: router_ok_def router_shaped_def empty_router_def)

lemma router_ok_shaped: "router_ok r \<Longrightarrow> router_shaped r"
  by (auto simp: router_ok_def router_shaped_def action_ok_shaped)

lemma add_to_first_prefix_ok:
  "add_to_first_prefix u t routes = Some routes' \<Longrightarrow> \<forall>(c, ra) \<in> set routes. action_ok ra \<Longrightarrow>
   \<forall>(c, ra) \<in> set routes. has_room ra \<Longrightarrow> \<forall>(c, ra) \<in> set routes'. action_ok ra"
  by (induction u t routes arbitrary: routes' rule: add_to_first_prefix.induct)
    (fastforce split: if_splits intro: inv_intro)+

lemma AddPrefixMatchRoute_ok [inv_intro]:
  "router_ok r \<Longrightarrow> router_room r \<Longrightarrow> router_ok (AddPrefixMatchRoute undef_remote u t l r)"
  using add_to_first_prefix_ok [of u "http_target t l" "g_prefix_routes r"]
  by (auto simp: router_ok_def router_room_def AddPrefixMatchRoute_def Let_def
      split: option.splits intro: inv_intro)

lemma AddPrefixMatchRoute_shaped [inv_intro]:
  "router_shaped r \<Longrightarrow> router_room r \<Longrightarrow> router_shaped (AddPrefixMatchRoute undef_remote u t l r)"
  using add_to_first_prefix_ok [of u "http_target t l" "g_prefix_routes r"]
  by (auto simp: router_shaped_def router_room_def AddPrefixMatchRoute_def Let_def
      split: option.splits intro: inv_intro)

lemma AddPathMatchRoute_shaped [inv_intro]:
  "router_shaped r \<Longrightarrow> router_room r \<Longrightarrow> router_shaped (AddPathMatchRoute k u t l r)"
  by (auto simp: router_shaped_def router_room_def AddPathMatchRoute_def Let_def
      split: option.splits if_splits intro: inv_intro)

lemma AddPathMatchRoute_ok [inv_intro]:
  "router_ok r \<Longrightarrow> router_room r \<Longrightarrow> router_ok (AddPathMatchRoute 0 u t l r)"
  by (auto simp: router_ok_def router_room_def AddPathMatchRoute_def Let_def
      split: option.splits if_splits intro: inv_intro)

section \<open>The prefix scan\<close>

text \<open>
  What the loop of \<^verbatim>\<open>GetRouteTarget\<close> accepts: a route whose prefix is \<^emph>\<open>not\<close> a prefix of the
  request path, is shorter than it, and is not followed by a path boundary.
\<close>

definition candidate :: "string \<Rightarrow> string \<Rightarrow> bool" where
  "candidate u pre \<longleftrightarrow> \<not> prefix pre u \<and> length pre < length u \<and>
     u ! length pre \<noteq> CHR ''/'' \<and> last pre \<noteq> CHR ''/''"

lemma boundary_test_value:
  assumes "\<not> prefix pre u"
  shows "boundary_test u pre =
    (if length u < length pre then UB else Val (\<not> candidate u pre))"
proof -
  have "pre \<noteq> []" using assms by auto
  then show ?thesis
    using assms by (auto simp: boundary_test_def candidate_def string_at_def string_back_def read_at_def Let_def)
qed

lemma scan_defined:
  "scan_prefix_routes u routes i m n = UB \<longleftrightarrow> (\<exists>route \<in> set routes. length u < length (http_url (fst route)))"
proof (induction u routes i m n rule: scan_prefix_routes.induct)
  case (2 u route routes i m n)
  show ?case
  proof (cases "prefix (http_url (fst route)) u")
    case True
    then have "\<not> length u < length (http_url (fst route))"
      by (simp add: prefix_length_le not_less)
    with True 2 show ?thesis by (simp add: matchPrefix_def Let_def)
  next
    case False
    with 2 show ?thesis
      by (auto simp: matchPrefix_def Let_def boundary_test_value split: if_splits)
  qed
qed simp

abbreviation prefix_at :: "(ConnectionInfo \<times> RouteAction) list \<Rightarrow> nat \<Rightarrow> string" where
  "prefix_at routes j \<equiv> http_url (fst (routes ! j))"

text \<open>Route \<open>j\<close> is the first of the longest candidates, and longer than \<open>n\<close>.\<close>

definition best_route :: "string \<Rightarrow> (ConnectionInfo \<times> RouteAction) list \<Rightarrow> nat \<Rightarrow> nat \<Rightarrow> bool" where
  "best_route u routes n j \<longleftrightarrow> j < length routes \<and> candidate u (prefix_at routes j) \<and>
     n < length (prefix_at routes j) \<and>
     (\<forall>k < length routes. candidate u (prefix_at routes k) \<longrightarrow>
        length (prefix_at routes k) \<le> length (prefix_at routes j)) \<and>
     (\<forall>k < j. candidate u (prefix_at routes k) \<longrightarrow>
        length (prefix_at routes k) < length (prefix_at routes j))"

definition no_candidate :: "string \<Rightarrow> (ConnectionInfo \<times> RouteAction) list \<Rightarrow> nat \<Rightarrow> bool" where
  "no_candidate u routes n \<longleftrightarrow>
     (\<forall>route \<in> set routes. candidate u (http_url (fst route)) \<longrightarrow> length (http_url (fst route)) \<le> n)"

lemma best_route_skip:
  assumes "\<not> candidate u (http_url (fst route)) \<or> length (http_url (fst route)) \<le> n"
  shows "best_route u routes n j \<Longrightarrow> best_route u (route # routes) n (Suc j)"
    and "no_candidate u routes n \<Longrightarrow> no_candidate u (route # routes) n"
  using assms by (auto simp: best_route_def no_candidate_def nth_Cons less_Suc_eq_0_disj split: nat.splits)

lemma best_route_take:
  assumes "candidate u (http_url (fst route))" and "n < length (http_url (fst route))"
  shows "best_route u routes (length (http_url (fst route))) j \<Longrightarrow> best_route u (route # routes) n (Suc j)"
    and "no_candidate u routes (length (http_url (fst route))) \<Longrightarrow> best_route u (route # routes) n 0"
  using assms by (auto simp: best_route_def no_candidate_def nth_Cons less_Suc_eq_0_disj split: nat.splits)

lemma scan_prefix_routes_value:
  assumes "scan_prefix_routes u routes i m n = Val m'"
  shows "m' = m \<and> no_candidate u routes n \<or> (\<exists>j. m' = Some (i + j) \<and> best_route u routes n j)"
  using assms
proof (induction u routes i m n rule: scan_prefix_routes.induct)
  case (1 u i m n)
  then show ?case by (simp add: no_candidate_def)
next
  case (2 u route routes i m n)
  let ?pre = "http_url (fst route)"
  show ?case
  proof (cases "candidate u ?pre \<and> n < length ?pre")
    case True
    then have "\<not> prefix ?pre u" "\<not> length u < length ?pre" by (auto simp: candidate_def)
    with True "2.prems" have "scan_prefix_routes u routes (Suc i) (Some i) (length ?pre) = Val m'"
      by (simp add: Let_def matchPrefix_def boundary_test_value)
    with 2 True have "m' = Some i \<and> no_candidate u routes (length ?pre) \<or>
        (\<exists>j. m' = Some (Suc i + j) \<and> best_route u routes (length ?pre) j)"
      by (metis \<open>\<not> prefix ?pre u\<close> leD matchPrefix_def)
    with True show ?thesis by (metis add_Suc_shift add_cancel_right_right best_route_take)
  next
    case False
    then have skip: "\<not> candidate u ?pre \<or> length ?pre \<le> n" by auto
    have step: "scan_prefix_routes u routes (Suc i) m n = Val m'"
      using "2.prems" skip
      by (auto simp: Let_def matchPrefix_def boundary_test_value split: if_splits)
    then have "m' = m \<and> no_candidate u routes n \<or> (\<exists>j. m' = Some (Suc i + j) \<and> best_route u routes n j)"
      using 2 skip by metis
    with skip show ?thesis by (metis add_Suc_shift best_route_skip)
  qed
qed

section \<open>Lookups\<close>

lemma GetRouteTarget_exact:
  assumes "router_ok r" and "g_exact_routes r u = Some ra"
  shows "GetRouteTarget u r = Val (Some (targets ra ! unat (next_index ra)),
    r\<lparr>g_exact_routes := (g_exact_routes r)(u \<mapsto> advance ra)\<rparr>)"
  using assms by (auto simp: GetRouteTarget_def router_ok_def GetNextTarget_ok)

lemma GetRouteTarget_exact_UB:
  assumes "router_shaped r" and "g_exact_routes r u = Some ra"
  shows "GetRouteTarget u r = UB \<longleftrightarrow> length (targets ra) \<le> unat (next_index ra)"
proof -
  have "targets ra \<noteq> []" using assms by (auto simp: router_shaped_def action_shaped_def)
  with assms(2) show ?thesis by (auto simp: GetRouteTarget_def GetNextTarget_def)
qed

lemma GetRouteTarget_prefix:
  assumes "router_shaped r" and "g_exact_routes r u = None"
    and "scan_prefix_routes u (g_prefix_routes r) 0 None 0 = Val (Some i)"
    and "i < length (g_prefix_routes r)"
  shows "GetRouteTarget u r =
    (let (c, ra) = g_prefix_routes r ! i
     in Val (Some (targets ra ! unat (next_index ra)),
             r\<lparr>g_prefix_routes := (g_prefix_routes r)[i := (c, advance ra)]\<rparr>))"
proof -
  obtain c ra where ra: "g_prefix_routes r ! i = (c, ra)" by fastforce
  with assms(1,4) have "action_ok ra" by (auto simp: router_shaped_def dest!: nth_mem [of i])
  with assms(2,3) ra show ?thesis by (simp add: GetRouteTarget_def GetNextTarget_ok)
qed

text \<open>The three ways a defined lookup can go.\<close>

lemma GetRouteTarget_cases:
  assumes "router_shaped r" and "GetRouteTarget u r = Val (t, r')"
  obtains (exact) ra where "g_exact_routes r u = Some ra" "action_ok ra"
      "t = Some (targets ra ! unat (next_index ra))"
      "r' = r\<lparr>g_exact_routes := (g_exact_routes r)(u \<mapsto> advance ra)\<rparr>"
  | (prefix) i c ra where "g_exact_routes r u = None" "best_route u (g_prefix_routes r) 0 i"
      "g_prefix_routes r ! i = (c, ra)" "t = Some (targets ra ! unat (next_index ra))"
      "r' = r\<lparr>g_prefix_routes := (g_prefix_routes r)[i := (c, advance ra)]\<rparr>"
  | (none) "g_exact_routes r u = None" "no_candidate u (g_prefix_routes r) 0" "t = None" "r' = r"
proof (cases "g_exact_routes r u")
  case (Some ra)
  with assms have ok: "action_ok ra"
    using GetRouteTarget_exact_UB [OF assms(1) Some] by (auto simp: action_ok_shaped router_shaped_def)
  with assms(2) Some exact show ?thesis by (auto simp: GetRouteTarget_def GetNextTarget_ok)
next
  case None
  with assms(2) obtain m where m: "scan_prefix_routes u (g_prefix_routes r) 0 None 0 = Val m"
    by (auto simp: GetRouteTarget_def)
  show ?thesis
  proof (cases m)
    case m_None: None
    have "no_candidate u (g_prefix_routes r) 0"
      using scan_prefix_routes_value [OF m] m_None by simp
    moreover have "t = None" "r' = r"
      using None m m_None assms(2) by (simp_all add: GetRouteTarget_def)
    ultimately show ?thesis using None none by blast
  next
    case (Some i)
    then have best: "best_route u (g_prefix_routes r) 0 i"
      using scan_prefix_routes_value [OF m] by simp
    then have len: "i < length (g_prefix_routes r)" by (simp add: best_route_def)
    obtain c ra where ra: "g_prefix_routes r ! i = (c, ra)" by fastforce
    have "t = Some (targets ra ! unat (next_index ra))"
      "r' = r\<lparr>g_prefix_routes := (g_prefix_routes r)[i := (c, advance ra)]\<rparr>"
      using GetRouteTarget_prefix [OF assms(1) None m [unfolded Some] len] assms(2) ra by simp_all
    then show ?thesis by (rule prefix [OF None best ra])
  qed
qed

lemma router_ok_exact [inv_intro]:
  "router_ok r \<Longrightarrow> action_ok ra \<Longrightarrow> router_ok (r\<lparr>g_exact_routes := (g_exact_routes r)(u \<mapsto> ra)\<rparr>)"
  by (auto simp: router_ok_def)

lemma router_ok_prefix [inv_intro]:
  "router_ok r \<Longrightarrow> action_ok ra \<Longrightarrow> router_ok (r\<lparr>g_prefix_routes := (g_prefix_routes r)[i := (c, ra)]\<rparr>)"
  using set_update_subset_insert [of "g_prefix_routes r" i "(c, ra)"]
  unfolding router_ok_def by fastforce

lemma router_shaped_exact [inv_intro]:
  "router_shaped r \<Longrightarrow> action_ok ra \<Longrightarrow> router_shaped (r\<lparr>g_exact_routes := (g_exact_routes r)(u \<mapsto> ra)\<rparr>)"
  by (auto simp: router_shaped_def action_ok_shaped)

lemma router_shaped_prefix [inv_intro]:
  "router_shaped r \<Longrightarrow> action_ok ra \<Longrightarrow> router_shaped (r\<lparr>g_prefix_routes := (g_prefix_routes r)[i := (c, ra)]\<rparr>)"
  using set_update_subset_insert [of "g_prefix_routes r" i "(c, ra)"]
  unfolding router_shaped_def by fastforce

lemma GetRouteTarget_keeps_shaped [inv_intro]:
  assumes "router_shaped r" and "GetRouteTarget u r = Val (t, r')"
  shows "router_shaped r'"
  using assms
proof (cases rule: GetRouteTarget_cases)
  case (exact ra)
  with assms(1) show ?thesis by (auto intro: inv_intro)
next
  case (prefix i c ra)
  with assms(1) have "action_ok ra"
    by (auto simp: router_shaped_def best_route_def dest!: nth_mem [of i])
  with assms(1) prefix show ?thesis by (auto intro: inv_intro)
qed (use assms in simp)

lemma looked_up_in_range:
  assumes "router_shaped r" and "GetRouteTarget u r = Val (t, r')" and "g_exact_routes r' u = Some ra"
  shows "action_ok ra"
  using assms(1,2)
proof (cases rule: GetRouteTarget_cases)
  case (exact ra')
  with assms(3) show ?thesis by (auto intro: inv_intro)
qed (use assms(3) in auto)

lemma GetRouteTarget_keeps_ok [inv_intro]:
  assumes "router_ok r" and "GetRouteTarget u r = Val (t, r')"
  shows "router_ok r'"
  using router_ok_shaped [OF assms(1)] assms(2)
proof (cases rule: GetRouteTarget_cases)
  case (exact ra)
  with assms(1) show ?thesis by (auto intro: inv_intro)
next
  case (prefix i c ra)
  with assms(1) have "action_ok ra"
    by (auto simp: router_ok_def best_route_def dest!: nth_mem [of i])
  with assms(1) prefix show ?thesis by (auto intro: inv_intro)
qed (use assms in simp)

text \<open>
  A gateway's life: routes are added while lookups are served. The index of a new exact route is
  whatever the memory held, so every addition may bring another \<open>undef_index\<close>.
\<close>

inductive reachable_router :: "router \<Rightarrow> bool" where
  start: "reachable_router empty_router"
| add_prefix: "reachable_router r \<Longrightarrow> router_room r \<Longrightarrow>
    reachable_router (AddPrefixMatchRoute undef_remote u t l r)"
| add_path: "reachable_router r \<Longrightarrow> router_room r \<Longrightarrow>
    reachable_router (AddPathMatchRoute undef_index u t l r)"
| lookup: "reachable_router r \<Longrightarrow> GetRouteTarget u r = Val (t, r') \<Longrightarrow> reachable_router r'"

lemma reachable_router_shaped: "reachable_router r \<Longrightarrow> router_shaped r"
proof (induction rule: reachable_router.induct)
  case start
  show ?case by (rule router_ok_empty)
next
  case (add_prefix r undef_remote u t l)
  then show ?case by (simp add: AddPrefixMatchRoute_shaped)
next
  case (add_path r undef_index u t l)
  then show ?case by (simp add: AddPathMatchRoute_shaped)
next
  case (lookup r u t r')
  then show ?case by (blast intro: GetRouteTarget_keeps_shaped)
qed

text \<open>Without an exact route, a lookup is undefined exactly when a prefix is longer than the path.\<close>

lemma GetRouteTarget_prefix_UB:
  assumes "router_shaped r" and "g_exact_routes r u = None"
  shows "GetRouteTarget u r = UB \<longleftrightarrow>
    (\<exists>(c, ra) \<in> set (g_prefix_routes r). length u < length (http_url c))"
proof -
  have "GetRouteTarget u r = UB \<longleftrightarrow> scan_prefix_routes u (g_prefix_routes r) 0 None 0 = UB"
  proof (cases "scan_prefix_routes u (g_prefix_routes r) 0 None 0")
    case UB
    with assms(2) show ?thesis by (simp add: GetRouteTarget_def)
  next
    case (Val m)
    show ?thesis
    proof (cases m)
      case (Some i)
      with Val have "i < length (g_prefix_routes r)"
        using scan_prefix_routes_value [OF Val] by (simp add: best_route_def)
      with GetRouteTarget_prefix [OF assms] Val Some show ?thesis by (simp split: prod.splits)
    qed (use assms(2) Val in \<open>simp add: GetRouteTarget_def\<close>)
  qed
  then show ?thesis by (simp add: scan_defined case_prod_beta)
qed

section \<open>Properties of the router\<close>

text \<open>Round robin is fair. From a well-formed target list, a full round of \<^verbatim>\<open>GetNextTarget\<close>
  calls returns every target exactly once, in order from the current index, and leaves the list
  serving in the same order again.\<close>

theorem round_robin_fair:
  assumes "action_ok ra"
  shows "\<exists>ra'. serve GetNextTarget (length (targets ra)) ra = Val (map Some (serving_order ra), ra') \<and>
    serving_order ra' = serving_order ra \<and> mset (serving_order ra) = mset (targets ra)"
proof -
  have "serving_order ra \<noteq> []" using assms by (auto simp: action_ok_def)
  then show ?thesis using rr.serve_round [OF assms] by simp
qed

definition two_targets :: RouteAction where
  "two_targets = \<lparr>next_index = 1, targets = [http_target ''/a'' True, http_target ''/b'' False]\<rparr>"

theorem round_robin_fair_witness:
  "action_ok two_targets \<and>
   (\<exists>ra'. serve GetNextTarget (length (targets two_targets)) two_targets =
      Val (map Some (serving_order two_targets), ra') \<and> serving_order ra' = serving_order two_targets)"
proof -
  have ok: "action_ok two_targets"
    by (simp add: two_targets_def action_ok_def target_key_def http_target_def)
  from ok round_robin_fair [OF ok] show ?thesis by blast
qed

text \<open>Lookups of exact routes. In a well-formed table a request path with an exact route is
  answered with that route's current target, the route's index moves on by one (cyclically), no
  other route changes and the table stays well formed.\<close>

theorem exact_route_lookup:
  assumes "router_ok r" and "g_exact_routes r u = Some ra"
  shows "\<exists>r'. GetRouteTarget u r = Val (Some (hd (serving_order ra)), r') \<and> router_ok r' \<and>
    (\<exists>ra'. g_exact_routes r' = (g_exact_routes r)(u \<mapsto> ra') \<and> targets ra' = targets ra \<and>
       unat (next_index ra') = Suc (unat (next_index ra)) mod length (targets ra)) \<and>
    g_prefix_routes r' = g_prefix_routes r"
proof -
  have ok: "action_ok ra" using assms by (auto simp: router_ok_def)
  then have "hd (serving_order ra) = targets ra ! unat (next_index ra)"
    unfolding serving_order_def action_ok_def by (subst hd_rotate_conv_nth) auto
  moreover have "router_ok (r\<lparr>g_exact_routes := (g_exact_routes r)(u \<mapsto> advance ra)\<rparr>)"
    using assms(1) ok by (blast intro: inv_intro)
  ultimately show ?thesis
    using GetRouteTarget_exact [OF assms] ok by (auto intro!: exI [of _ "advance ra"])
qed

definition root_router :: router where
  "root_router = AddPathMatchRoute 0 [] [] False empty_router"

lemma root_router_eq:
  "root_router = \<lparr>g_exact_routes = [[] \<mapsto> \<lparr>next_index = 0, targets = [http_target [] False]\<rparr>],
     g_prefix_routes = []\<rparr>"
  by (simp add: root_router_def AddPathMatchRoute_def empty_router_def AddTarget_def Let_def)

theorem exact_route_lookup_witness:
  "router_ok root_router \<and>
   (\<exists>r'. GetRouteTarget [] root_router = Val (Some (http_target [] False), r') \<and> router_ok r')"
proof -
  have ok: "router_ok root_router"
    unfolding root_router_def by (rule AddPathMatchRoute_ok [OF router_ok_empty(1)]) (simp add: router_room_def empty_router_def)
  have route: "g_exact_routes root_router [] = Some \<lparr>next_index = 0, targets = [http_target [] False]\<rparr>"
    by (simp add: root_router_eq)
  from ok exact_route_lookup [OF ok route] show ?thesis by (auto simp: serving_order_def)
qed

text \<open>C11: the table invariant and when a lookup is undefined. Take any sequence of route additions
  and lookups, with any value in the uninitialised index of every new exact route. Every target list
  of the table is non-empty with distinct targets, and the round-robin index of every prefix route
  is in range. A lookup is undefined behaviour exactly when either the path has an exact route whose
  index is out of range (\<^verbatim>\<open>targets_[next_index_]\<close>), or it has none and some configured prefix is
  longer than the path (\<^verbatim>\<open>source_url[after]\<close>). After a defined lookup the exact route of the path,
  if there is one, has its index in range, so its later lookups are defined.\<close>

theorem reachable_router_lookup_safe:
  assumes "reachable_router r"
  shows "router_shaped r \<and>
    (GetRouteTarget u r = UB \<longleftrightarrow>
      (case g_exact_routes r u of
         Some ra \<Rightarrow> length (targets ra) \<le> unat (next_index ra)
       | None \<Rightarrow> \<exists>(c, ra) \<in> set (g_prefix_routes r). length u < length (http_url c))) \<and>
    (\<forall>t r' ra. GetRouteTarget u r = Val (t, r') \<and> g_exact_routes r' u = Some ra \<longrightarrow>
      unat (next_index ra) < length (targets ra) \<and> GetRouteTarget u r' \<noteq> UB)"
proof -
  have shaped: "router_shaped r" using assms by (rule reachable_router_shaped)
  moreover have "unat (next_index ra) < length (targets ra) \<and> GetRouteTarget u r' \<noteq> UB"
    if "GetRouteTarget u r = Val (t, r')" "g_exact_routes r' u = Some ra" for t r' ra
    using looked_up_in_range [OF shaped that] GetRouteTarget_exact_UB [OF _ that(2)]
      GetRouteTarget_keeps_shaped [OF shaped that(1)] by (simp add: action_ok_def)
  ultimately show ?thesis
    by (auto simp: GetRouteTarget_exact_UB GetRouteTarget_prefix_UB split: option.splits)
qed

definition api_router :: router where
  "api_router = AddPrefixMatchRoute False ''/api'' ''/srv'' False empty_router"

lemma reachable_api_router: "reachable_router api_router"
  unfolding api_router_def
  by (rule reachable_router.add_prefix [OF reachable_router.start])
    (simp add: router_room_def empty_router_def)

lemma api_router_eq:
  "api_router = \<lparr>g_exact_routes = Map.empty,
     g_prefix_routes = [((new_connection False)\<lparr>http_url := ''/api''\<rparr>,
       \<lparr>next_index = 0, targets = [http_target ''/srv'' False]\<rparr>)]\<rparr>"
  by (simp add: api_router_def AddPrefixMatchRoute_def empty_router_def AddTarget_def Let_def)

lemma api_router_ok: "router_ok api_router"
  unfolding api_router_def
  by (rule AddPrefixMatchRoute_ok [OF router_ok_empty(1)]) (simp add: router_room_def empty_router_def)

text \<open>The same table with an exact route whose index was left at 7.\<close>

definition stray_router :: router where
  "stray_router = AddPathMatchRoute 7 ''/a'' ''/b'' True api_router"

lemma reachable_stray_router: "reachable_router stray_router"
  unfolding stray_router_def
  by (rule reachable_router.add_path [OF reachable_api_router])
    (simp add: router_room_def api_router_eq has_room_def)

theorem reachable_router_lookup_safe_witness:
  "router_shaped stray_router \<and> GetRouteTarget ''/a'' stray_router = UB \<and>
   GetRouteTarget ''/x'' stray_router = UB \<and> GetRouteTarget ''/api'' stray_router \<noteq> UB"
  using reachable_router_lookup_safe [OF reachable_stray_router]
  by (simp add: stray_router_def AddPathMatchRoute_def AddTarget_def api_router_eq new_connection_def)

text \<open>C30: what a lookup through the prefix routes selects. When the path has no exact route and the
  lookup returns a target, it is the current target of the first among the longest routes whose
  prefix is \<^emph>\<open>not\<close> a prefix of the path and is not at a path boundary: both tests of the loop are
  the reverse of what its comments say.\<close>

theorem prefix_lookup_inverted:
  assumes "router_ok r" and "g_exact_routes r u = None" and "GetRouteTarget u r = Val (Some t, r')"
  shows "\<exists>i c ra. best_route u (g_prefix_routes r) 0 i \<and> g_prefix_routes r ! i = (c, ra) \<and>
    t = hd (serving_order ra) \<and> \<not> matchPrefix u (http_url c) \<and> length (http_url c) < length u \<and>
    u ! length (http_url c) \<noteq> CHR ''/''"
  using router_ok_shaped [OF assms(1)] assms(3)
proof (cases rule: GetRouteTarget_cases)
  case (prefix i c ra)
  then have "action_ok ra"
    using assms(1) by (auto simp: router_ok_def best_route_def dest!: nth_mem [of i])
  then have "hd (serving_order ra) = targets ra ! unat (next_index ra)"
    unfolding serving_order_def action_ok_def by (subst hd_rotate_conv_nth) auto
  with prefix show ?thesis by (auto simp: best_route_def candidate_def matchPrefix_def)
qed (use assms(2) in auto)

theorem prefix_lookup_inverted_witness:
  "router_ok api_router \<and> g_exact_routes api_router ''/xyz9'' = None \<and>
   (\<exists>r' i c ra. GetRouteTarget ''/xyz9'' api_router = Val (Some (http_target ''/srv'' False), r') \<and>
      g_prefix_routes api_router ! i = (c, ra) \<and> \<not> matchPrefix ''/xyz9'' (http_url c))"
proof -
  have ok: "router_ok api_router" by (rule api_router_ok)
  have exact: "g_exact_routes api_router ''/xyz9'' = None" by (simp add: api_router_eq)
  obtain r' where r': "GetRouteTarget ''/xyz9'' api_router = Val (Some (http_target ''/srv'' False), r')"
    by (simp add: api_router_eq GetRouteTarget_def matchPrefix_def boundary_test_def string_at_def
        string_back_def read_at_def new_connection_def GetNextTarget_def)
  from prefix_lookup_inverted [OF ok exact r'] ok exact r' show ?thesis by blast
qed

text \<open>A path below configured prefixes is not found. If every configured prefix is a prefix of
  the request path and there is no exact route, the lookup returns no target, so the gateway
  answers 404 for exactly the paths the prefix routes were configured for.\<close>

theorem prefix_route_never_matches:
  assumes "g_exact_routes r u = None"
    and "\<forall>(c, ra) \<in> set (g_prefix_routes r). matchPrefix u (http_url c)"
  shows "GetRouteTarget u r = Val (None, r)"
proof -
  have "scan_prefix_routes u routes i m n = Val m"
    if "\<forall>(c, ra) \<in> set routes. matchPrefix u (http_url c)" for routes i m n
    using that by (induction routes arbitrary: i) auto
  with assms show ?thesis by (simp add: GetRouteTarget_def)
qed

theorem prefix_route_never_matches_witness:
  "GetRouteTarget ''/api/users'' api_router = Val (None, api_router) \<and>
   matchPrefix ''/api/users'' ''/api''"
proof -
  have exact: "g_exact_routes api_router ''/api/users'' = None" by (simp add: api_router_eq)
  have all: "\<forall>(c, ra) \<in> set (g_prefix_routes api_router). matchPrefix ''/api/users'' (http_url c)"
    by (simp add: api_router_eq matchPrefix_def new_connection_def)
  show ?thesis using prefix_route_never_matches [OF exact all] by (simp add: matchPrefix_def)
qed

text \<open>A new exact route works only when the indeterminate \<^verbatim>\<open>next_index\<close> of its
  default-initialised \<^verbatim>\<open>RouteAction\<close> happens to be 0: then the first lookup returns the new target,
  and for every other value the first lookup reads out of range.\<close>

theorem new_path_route_first_lookup:
  assumes "g_exact_routes r u = None"
  shows "GetRouteTarget u (AddPathMatchRoute undef_index u t l r) =
    (if undef_index = 0
     then Val (Some (http_target t l), AddPathMatchRoute undef_index u t l r) else UB)"
proof (cases "undef_index = 0")
  case False
  then have "0 < unat undef_index" by (simp add: unat_gt_0)
  with assms False show ?thesis
    by (simp add: AddPathMatchRoute_def GetRouteTarget_def GetNextTarget_def AddTarget_def Let_def read_at_def)
qed (use assms in \<open>simp add: AddPathMatchRoute_def GetRouteTarget_def GetNextTarget_def AddTarget_def Let_def read_at_def\<close>)

theorem new_path_route_first_lookup_witness:
  "g_exact_routes empty_router ''/a'' = None \<and>
   GetRouteTarget ''/a'' (AddPathMatchRoute 7 ''/a'' ''/b'' True empty_router) = UB"
proof -
  have h: "g_exact_routes empty_router ''/a'' = None" by (simp add: empty_router_def)
  show ?thesis using h new_path_route_first_lookup [OF h, of 7] by simp
qed

text \<open>removing a target keeps the list well formed as long as a target is left, and the removed
  connection is no longer contained; but when the removal empties a list whose index is not 0, the
  index is kept, and after the next \<^verbatim>\<open>AddTarget\<close> the first \<^verbatim>\<open>GetNextTarget\<close> reads out of range.\<close>

theorem remove_target_index:
  assumes "action_ok ra"
  shows "\<not> Contains (RemoveTarget c ra) c \<and>
    (if \<exists>d \<in> set (targets ra). \<not> conn_eq d c then action_ok (RemoveTarget c ra)
     else next_index ra \<noteq> 0 \<longrightarrow> GetNextTarget (AddTarget e (RemoveTarget c ra)) = UB)"
proof (cases "\<exists>d \<in> set (targets ra). \<not> conn_eq d c")
  case True
  then have "targets (RemoveTarget c ra) \<noteq> []" by (simp add: filter_empty_conv)
  with True assms show ?thesis
    by (simp add: RemoveTarget_not_Contains action_ok_RemoveTarget)
next
  case False
  then have gone: "targets (RemoveTarget c ra) = []" by (simp add: filter_empty_conv)
  have "next_index (RemoveTarget c ra) = next_index ra"
    using gone unfolding targets_RemoveTarget by (simp add: RemoveTarget_def Let_def)
  with gone False show ?thesis
    by (auto simp: RemoveTarget_not_Contains GetNextTarget_UB AddTarget_cases unat_gt_0 Suc_le_eq)
qed

definition both_ways :: RouteAction where
  "both_ways = \<lparr>next_index = 1, targets = [http_target ''/a'' True, http_target ''/a'' False]\<rparr>"

theorem remove_target_index_witness:
  "action_ok both_ways \<and>
   GetNextTarget (AddTarget (http_target ''/b'' True) (RemoveTarget (http_target ''/a'' True) both_ways)) = UB"
proof -
  have ok: "action_ok both_ways"
    by (simp add: both_ways_def action_ok_def target_key_def http_target_def)
  show ?thesis
    using ok remove_target_index [OF ok, of "http_target ''/a'' True" "http_target ''/b'' True"]
    by (simp add: both_ways_def http_target_def conn_eq_def cpp_defs)
qed

end
