(* ===== verification/Config.thy ===== *)
theory Config
  imports Prelude
begin

text \<open>
  The runtime configuration of \<^verbatim>\<open>core/include/config.h\<close> and \<^verbatim>\<open>core/src/config.cc\<close>: the constants
  the handlers use, the global variables as the record \<open>config\<close>, and the functions that read and
  write them. A setter takes the configuration and returns the new one. The invariant says that
  the rate limiter's settings are never 0, and every way to change the configuration keeps it. The
  disposition of signals and the set-up of the logger are here as well.
\<close>

section \<open>Constants\<close>

definition AZUGATE_VERSION_STRING :: string where "AZUGATE_VERSION_STRING = ''azugate/1.0''"
definition kNumMaxListen :: nat where "kNumMaxListen = 5"
definition kDefaultBufSize :: nat where [cpp_defs]: "kDefaultBufSize = 1024 * 4"
definition kMaxFdSize :: nat where "kMaxFdSize = 1024 div 2"
definition kMaxHttpHeaderSize :: nat where [cpp_defs]: "kMaxHttpHeaderSize = 1024 * 8"
definition kMaxHeadersNum :: nat where [cpp_defs]: "kMaxHeadersNum = 256"
definition kDftConfigFile :: string where "kDftConfigFile = ''config.default.yaml''"
definition kYamlFieldPort :: string where "kYamlFieldPort = ''port''"
definition kYamlFieldCrt :: string where "kYamlFieldCrt = ''crt''"
definition kYamlFieldKey :: string where "kYamlFieldKey = ''key''"
definition kYamlFieldAdminPort :: string where "kYamlFieldAdminPort = ''admin_port''"
definition kYamlFieldExternalHTTPAuthentication :: string where
  "kYamlFieldExternalHTTPAuthentication = ''external_http_authentication''"
definition kYamlFieldExternalAuthDomain :: string where "kYamlFieldExternalAuthDomain = ''auth_domain''"
definition kYamlFieldExternalAuthClientID :: string where "kYamlFieldExternalAuthClientID = ''auth_client_id''"
definition kYamlFieldExternalAuthClientSecret :: string where
  "kYamlFieldExternalAuthClientSecret = ''auth_client_secret''"
definition kYamlFieldExternalAuthCallbackUrl :: string where "kYamlFieldExternalAuthCallbackUrl = ''callback_url''"
definition kDftHttpPort :: string where "kDftHttpPort = ''80''"
definition kDftHttpsPort :: string where "kDftHttpsPort = ''443''"
definition kDftStringReservedBytes :: nat where "kDftStringReservedBytes = 256"
definition kDftHealthCheckGapSecond :: nat where [cpp_defs]: "kDftHealthCheckGapSecond = 3"
definition kMaxBodyBufferSize :: nat where [cpp_defs]: "kMaxBodyBufferSize = 1024 * 1024 * 100"

definition kLoggerQueueSize :: nat where "kLoggerQueueSize = 8192"
definition kLoggerThreadsCount :: nat where "kLoggerThreadsCount = 1"
definition kDefaultLoggerName :: string where "kDefaultLoggerName = ''azugate logger''"

section \<open>Signals and logging\<close>

text \<open>The disposition of each signal of the process, by its number.\<close>

datatype sig_handler = SIG_DFL | SIG_IGN

type_synonym signals = "nat \<Rightarrow> sig_handler"

abbreviation SIGPIPE :: nat where "SIGPIPE \<equiv> 13"

definition IgnoreSignalPipe :: "signals \<Rightarrow> signals" where
  "IgnoreSignalPipe sigs = sigs(SIGPIPE := SIG_IGN)"

text \<open>The state of the logging library after \<^verbatim>\<open>InitLogger\<close> (\<^verbatim>\<open>core/src/log.cc\<close>).\<close>

datatype log_level = level_trace | level_debug | level_info | level_warn | level_err | level_critical | level_off

record logging =
  log_queue_size :: nat
  log_threads :: nat
  log_default_logger :: string
  log_pattern :: string
  log_level_of :: log_level

definition InitLogger :: "logging \<Rightarrow> logging" where
  "InitLogger lg =
     (let lg = lg\<lparr>log_queue_size := kLoggerQueueSize, log_threads := kLoggerThreadsCount\<rparr>;
          lg = lg\<lparr>log_default_logger := kDefaultLoggerName\<rparr>;
          lg = lg\<lparr>log_pattern := ''[%^%l%$] %t | %D %H:%M:%S | %s:%# | %v''\<rparr>
      in lg\<lparr>log_level_of := level_debug\<rparr>)"

section \<open>The global variables\<close>

record config =
  g_port :: u16
  g_azugate_admin_port :: u16
  g_path_config_file :: string
  g_ip_blacklist :: "string set"
  g_enable_http_compression :: bool
  g_enable_https :: bool
  g_ssl_crt :: string
  g_ssl_key :: string
  g_enable_rate_limiter :: bool
  g_num_token_per_sec :: size_t
  g_num_token_max :: size_t
  g_num_threads :: size_t
  g_healthz_list :: "string list"
  g_http_external_authorization :: bool
  g_jwt_public_key_pem :: string

definition initial_config :: config where
  "initial_config =
     \<lparr>g_port = 443, g_azugate_admin_port = 50051, g_path_config_file = [], g_ip_blacklist = {},
      g_enable_http_compression = False, g_enable_https = False, g_ssl_crt = [], g_ssl_key = [],
      g_enable_rate_limiter = False, g_num_token_per_sec = 100, g_num_token_max = 1000,
      g_num_threads = 4, g_healthz_list = [], g_http_external_authorization = False,
      g_jwt_public_key_pem = []\<rparr>"

record ServerConfig =
  port :: u16
  jwt_public_key_pem :: string

section \<open>Operations\<close>

definition GetConfigPath :: "config \<Rightarrow> string" where
  "GetConfigPath cfg = g_path_config_file cfg"

definition SetConfigFilePath :: "string \<Rightarrow> config \<Rightarrow> config" where
  "SetConfigFilePath path cfg = cfg\<lparr>g_path_config_file := path\<rparr>"

definition GetIpBlackList :: "config \<Rightarrow> string set" where
  "GetIpBlackList cfg = g_ip_blacklist cfg"

definition AddBlacklistIp :: "string \<Rightarrow> config \<Rightarrow> config" where
  "AddBlacklistIp ip cfg = cfg\<lparr>g_ip_blacklist := insert ip (g_ip_blacklist cfg)\<rparr>"

definition RemoveBlacklistIp :: "string \<Rightarrow> config \<Rightarrow> config" where
  "RemoveBlacklistIp ip cfg = cfg\<lparr>g_ip_blacklist := g_ip_blacklist cfg - {ip}\<rparr>"

definition GetHttpCompression :: "config \<Rightarrow> bool" where
  "GetHttpCompression cfg = g_enable_http_compression cfg"

definition SetHttpCompression :: "bool \<Rightarrow> config \<Rightarrow> config" where
  "SetHttpCompression http_compression cfg = cfg\<lparr>g_enable_http_compression := http_compression\<rparr>"

definition SetHttps :: "bool \<Rightarrow> config \<Rightarrow> config" where
  "SetHttps https cfg = cfg\<lparr>g_enable_https := https\<rparr>"

definition GetHttps :: "config \<Rightarrow> bool" where
  "GetHttps cfg = g_enable_https cfg"

definition SetEnableRateLimitor :: "bool \<Rightarrow> config \<Rightarrow> config" where
  "SetEnableRateLimitor enable cfg = cfg\<lparr>g_enable_rate_limiter := enable\<rparr>"

definition GetEnableRateLimitor :: "config \<Rightarrow> bool" where
  "GetEnableRateLimitor cfg = g_enable_rate_limiter cfg"

definition ConfigRateLimitor :: "size_t \<Rightarrow> size_t \<Rightarrow> config \<Rightarrow> config" where
  "ConfigRateLimitor num_token_max num_token_per_sec cfg =
     (let cfg1 = (if num_token_max > 0 then cfg\<lparr>g_num_token_max := num_token_max\<rparr> else cfg)
      in if num_token_per_sec > 0 then cfg1\<lparr>g_num_token_per_sec := num_token_per_sec\<rparr> else cfg1)"

definition GetRateLimitorConfig :: "config \<Rightarrow> size_t \<times> size_t" where
  "GetRateLimitorConfig cfg = (g_num_token_max cfg, g_num_token_per_sec cfg)"

definition AddHealthzList :: "string \<Rightarrow> config \<Rightarrow> config" where
  "AddHealthzList addr cfg = cfg\<lparr>g_healthz_list := g_healthz_list cfg @ [addr]\<rparr>"

definition GetHealthzList :: "config \<Rightarrow> string list" where
  "GetHealthzList cfg = g_healthz_list cfg"

definition LoadConfig :: "ServerConfig \<Rightarrow> config \<Rightarrow> config" where
  "LoadConfig sc cfg = cfg\<lparr>g_port := port sc, g_jwt_public_key_pem := jwt_public_key_pem sc\<rparr>"

lemmas [cpp_defs] =
  GetConfigPath_def SetConfigFilePath_def GetIpBlackList_def AddBlacklistIp_def
  RemoveBlacklistIp_def GetHttpCompression_def SetHttpCompression_def SetHttps_def GetHttps_def
  SetEnableRateLimitor_def GetEnableRateLimitor_def ConfigRateLimitor_def
  GetRateLimitorConfig_def AddHealthzList_def GetHealthzList_def LoadConfig_def

section \<open>Reconfiguration\<close>

text \<open>The calls by which the gateway's configuration changes at run time.\<close>

datatype config_call =
    CallSetConfigFilePath string
  | CallAddBlacklistIp string
  | CallRemoveBlacklistIp string
  | CallSetHttpCompression bool
  | CallSetHttps bool
  | CallSetEnableRateLimitor bool
  | CallConfigRateLimitor size_t size_t
  | CallAddHealthzList string
  | CallLoadConfig ServerConfig

fun config_step :: "config_call \<Rightarrow> config \<Rightarrow> config" where
  "config_step (CallSetConfigFilePath path) = SetConfigFilePath path"
| "config_step (CallAddBlacklistIp ip) = AddBlacklistIp ip"
| "config_step (CallRemoveBlacklistIp ip) = RemoveBlacklistIp ip"
| "config_step (CallSetHttpCompression b) = SetHttpCompression b"
| "config_step (CallSetHttps b) = SetHttps b"
| "config_step (CallSetEnableRateLimitor b) = SetEnableRateLimitor b"
| "config_step (CallConfigRateLimitor m p) = ConfigRateLimitor m p"
| "config_step (CallAddHealthzList addr) = AddHealthzList addr"
| "config_step (CallLoadConfig sc) = LoadConfig sc"

definition config_run :: "config_call list \<Rightarrow> config \<Rightarrow> config" where
  "config_run calls cfg = fold config_step calls cfg"

definition config_ok :: "config \<Rightarrow> bool" where
  "config_ok cfg \<longleftrightarrow> 0 < g_num_token_max cfg \<and> 0 < g_num_token_per_sec cfg"

lemma config_step_ok [inv_intro]: "config_ok cfg \<Longrightarrow> config_ok (config_step call cfg)"
  by (cases call) (auto simp: config_ok_def cpp_defs Let_def)

lemma config_run_ok [inv_intro]: "config_ok cfg \<Longrightarrow> config_ok (config_run calls cfg)"
  unfolding config_run_def by (induction calls arbitrary: cfg) (auto intro: inv_intro)

lemma initial_config_ok [inv_intro]: "config_ok initial_config"
  by (simp add: config_ok_def initial_config_def)

text \<open>Addresses are only ever added to the list of health checks.\<close>

lemma config_step_healthz: "set (g_healthz_list cfg) \<subseteq> set (g_healthz_list (config_step call cfg))"
  by (cases call) (auto simp: cpp_defs Let_def)

lemma config_run_healthz: "set (g_healthz_list cfg) \<subseteq> set (g_healthz_list (config_run calls cfg))"
  unfolding config_run_def
proof (induction calls arbitrary: cfg)
  case (Cons call calls)
  then show ?case using config_step_healthz [of cfg call] by force
qed simp

text \<open>The last call about an address decides whether it is on the blacklist.\<close>

fun listed_after :: "string \<Rightarrow> config_call list \<Rightarrow> bool \<Rightarrow> bool" where
  "listed_after ip [] b = b"
| "listed_after ip (CallAddBlacklistIp a # calls) b = listed_after ip calls (ip = a \<or> b)"
| "listed_after ip (CallRemoveBlacklistIp a # calls) b = listed_after ip calls (b \<and> ip \<noteq> a)"
| "listed_after ip (call # calls) b = listed_after ip calls b"

lemma blacklist_after_run:
  "ip \<in> g_ip_blacklist (config_run calls cfg) \<longleftrightarrow> listed_after ip calls (ip \<in> g_ip_blacklist cfg)"
proof (induction calls arbitrary: cfg)
  case (Cons call calls)
  then show ?case by (cases call) (simp_all add: config_run_def cpp_defs Let_def)
qed (simp add: config_run_def)

end
