(* ===== verification/Rate_Limiter.thy ===== *)
theory Rate_Limiter
  imports Config
begin

text \<open>
  The token bucket of \<^verbatim>\<open>core/include/rate_limiter.h\<close> and \<^verbatim>\<open>core/src/rate_limitor.cc\<close>. The first
  part is the sequential meaning of its operations on the 64-bit counter and their refinement of an
  abstract bucket over the natural numbers. The second part splits \<^verbatim>\<open>GetToken\<close> and
  \<^verbatim>\<open>performTask\<close> into their atomic accesses and lets any number of threads interleave them: the
  step relation \<open>limiter_step\<close>.
\<close>

section \<open>The operations\<close>

definition kDftTokenGenIntervalSec :: nat where [cpp_defs]: "kDftTokenGenIntervalSec = 1"

text \<open>The counter, the expiry of the timer in seconds, and whether a wait on it is pending.\<close>

record TokenBucketRateLimiter =
  n_token :: size_t
  timer_expiry :: nat
  timer_armed :: bool

definition new_limiter :: "config \<Rightarrow> nat \<Rightarrow> TokenBucketRateLimiter" where
  "new_limiter cfg now =
     (let (num_token_max, _) = GetRateLimitorConfig cfg
      in \<lparr>n_token = num_token_max, timer_expiry = now + kDftTokenGenIntervalSec, timer_armed = False\<rparr>)"

definition GetToken :: "TokenBucketRateLimiter \<Rightarrow> bool \<times> TokenBucketRateLimiter" where
  "GetToken l =
     (let current_tokens = n_token l; l1 = l\<lparr>n_token := current_tokens - 1\<rparr>
      in if current_tokens > 0 then (True, l1)
         else (False, l1\<lparr>n_token := n_token l1 + 1\<rparr>))"

definition refilled :: "size_t \<Rightarrow> size_t \<Rightarrow> size_t \<Rightarrow> size_t" where
  "refilled n num_token_max num_token_per_sec =
     (let new_token_num = n + num_token_per_sec
      in if new_token_num > num_token_max then num_token_max else new_token_num)"

definition performTask :: "config \<Rightarrow> TokenBucketRateLimiter \<Rightarrow> TokenBucketRateLimiter" where
  "performTask cfg l =
     (let (num_token_max, num_token_per_sec) = GetRateLimitorConfig cfg
      in l\<lparr>n_token := refilled (n_token l) num_token_max num_token_per_sec\<rparr>)"

definition tick :: "config \<Rightarrow> TokenBucketRateLimiter \<Rightarrow> TokenBucketRateLimiter" where
  "tick cfg l =
     (let l1 = performTask cfg l
      in l1\<lparr>timer_expiry := timer_expiry l1 + kDftTokenGenIntervalSec, timer_armed := True\<rparr>)"

text \<open>
  The second half of \<^verbatim>\<open>tick\<close>, from the \<^verbatim>\<open>store\<close> of \<^verbatim>\<open>performTask\<close> on: the new number of tokens was computed
  from an earlier \<^verbatim>\<open>load\<close>.
\<close>

definition tick_store :: "size_t \<Rightarrow> TokenBucketRateLimiter \<Rightarrow> TokenBucketRateLimiter" where
  "tick_store new_token_num l =
     l\<lparr>n_token := new_token_num, timer_expiry := timer_expiry l + kDftTokenGenIntervalSec, timer_armed := True\<rparr>"

lemma tick_split:
  "tick cfg l = tick_store (refilled (n_token l) (g_num_token_max cfg) (g_num_token_per_sec cfg)) l"
  by (simp add: tick_def tick_store_def performTask_def GetRateLimitorConfig_def Let_def)

definition Start :: "TokenBucketRateLimiter \<Rightarrow> TokenBucketRateLimiter" where
  "Start l = l\<lparr>timer_armed := True\<rparr>"

section \<open>The abstract bucket\<close>

text \<open>A bucket of \<open>n\<close> tokens: a request takes one if there is one, a refill adds \<open>p\<close> up to \<open>m\<close>.\<close>

definition bucket_take :: "nat \<Rightarrow> bool \<times> nat" where
  "bucket_take n = (0 < n, n - 1)"

definition bucket_refill :: "nat \<Rightarrow> nat \<Rightarrow> nat \<Rightarrow> nat" where
  "bucket_refill m p n = min m (n + p)"

abbreviation tokens :: "TokenBucketRateLimiter \<Rightarrow> nat" where
  "tokens l \<equiv> unat (n_token l)"

lemma GetToken_refines:
  "fst (GetToken l) = fst (bucket_take (tokens l))"
  "tokens (snd (GetToken l)) = snd (bucket_take (tokens l))"
proof -
  show "fst (GetToken l) = fst (bucket_take (tokens l))"
    by (simp add: GetToken_def bucket_take_def Let_def word_gt_0 unat_gt_0)
  show "tokens (snd (GetToken l)) = snd (bucket_take (tokens l))"
    by (auto simp: GetToken_def bucket_take_def Let_def word_gt_0 unat_minus_one)
qed

lemma unat_refilled:
  assumes "unat n + unat p < 2 ^ 64"
  shows "unat (refilled n m p) = bucket_refill (unat m) (unat p) (unat n)"
proof -
  have "unat (n + p) = unat n + unat p"
    using assms by (simp add: unat_word_ariths)
  then show ?thesis
    by (auto simp: refilled_def bucket_refill_def Let_def word_less_nat_alt min_def)
qed

lemma performTask_refines:
  assumes "tokens l + unat (g_num_token_per_sec cfg) < 2 ^ 64"
  shows "tokens (performTask cfg l) =
    bucket_refill (unat (g_num_token_max cfg)) (unat (g_num_token_per_sec cfg)) (tokens l)"
  using assms by (simp add: performTask_def GetRateLimitorConfig_def unat_refilled)

section \<open>Sequences of requests and ticks\<close>

datatype limiter_call = Request | Tick

text \<open>A run of the limiter, with the number of granted requests.\<close>

fun limiter_run :: "config \<Rightarrow> limiter_call list \<Rightarrow> TokenBucketRateLimiter \<Rightarrow> nat \<times> TokenBucketRateLimiter" where
  "limiter_run cfg [] l = (0, l)"
| "limiter_run cfg (Request # cs) l =
     (let (ok, l1) = GetToken l; (k, l2) = limiter_run cfg cs l1
      in ((if ok then Suc k else k), l2))"
| "limiter_run cfg (Tick # cs) l = limiter_run cfg cs (tick cfg l)"

text \<open>Refilling a full bucket does not wrap around.\<close>

definition settings_fit :: "size_t \<times> size_t \<Rightarrow> bool" where
  "settings_fit mp \<longleftrightarrow> unat (fst mp) + unat (snd mp) < 2 ^ 64"

text \<open>What the limiter needs from its settings: a positive burst size and refill rate.\<close>

locale limiter_settings =
  fixes settings :: "'c \<Rightarrow> size_t \<times> size_t"
    and valid :: "'c \<Rightarrow> bool"
  assumes positive: "valid c \<Longrightarrow> settings c = (m, p) \<Longrightarrow> 0 < unat m \<and> 0 < unat p"
begin

lemma refill_within:
  assumes "valid c" and "settings_fit (settings c)" and "settings c = (m, p)" and "unat n \<le> unat m"
  shows "unat (refilled n m p) \<le> unat m" and "0 < unat (refilled n m p)"
    and "unat (refilled n m p) \<le> unat n + unat p"
proof -
  have "unat n + unat p < 2 ^ 64"
    using assms by (simp add: settings_fit_def)
  then have eq: "unat (refilled n m p) = bucket_refill (unat m) (unat p) (unat n)"
    by (rule unat_refilled)
  show "unat (refilled n m p) \<le> unat m" "0 < unat (refilled n m p)"
    "unat (refilled n m p) \<le> unat n + unat p"
    using positive [OF assms(1,3)] unfolding eq by (auto simp: bucket_refill_def)
qed

end

interpretation lim: limiter_settings GetRateLimitorConfig config_ok
  by unfold_locales (simp add: GetRateLimitorConfig_def config_ok_def word_less_nat_alt)

definition limiter_ok :: "config \<Rightarrow> TokenBucketRateLimiter \<Rightarrow> bool" where
  "limiter_ok cfg l \<longleftrightarrow> n_token l \<le> g_num_token_max cfg"

lemma limiter_ok_new [inv_intro]: "limiter_ok cfg (new_limiter cfg now)"
  by (simp add: limiter_ok_def new_limiter_def GetRateLimitorConfig_def)

lemma limiter_ok_GetToken [inv_intro]:
  "limiter_ok cfg l \<Longrightarrow> limiter_ok cfg (snd (GetToken l))"
  using GetToken_refines(2) [of l] by (auto simp: limiter_ok_def word_le_nat_alt bucket_take_def)

lemma tick_refill:
  assumes "config_ok cfg" and "settings_fit (GetRateLimitorConfig cfg)" and "limiter_ok cfg l"
  shows "limiter_ok cfg (tick cfg l)" and "0 < tokens (tick cfg l)"
    and "tokens (tick cfg l) \<le> tokens l + unat (g_num_token_per_sec cfg)"
  using lim.refill_within [OF assms(1,2), of "g_num_token_max cfg" "g_num_token_per_sec cfg" "n_token l"] assms(3)
  by (simp_all add: limiter_ok_def tick_def performTask_def GetRateLimitorConfig_def Let_def word_le_nat_alt)

lemma limiter_run_bound:
  assumes "config_ok cfg" and "settings_fit (GetRateLimitorConfig cfg)"
  shows "limiter_ok cfg l \<Longrightarrow> limiter_ok cfg (snd (limiter_run cfg cs l)) \<and>
    fst (limiter_run cfg cs l) + tokens (snd (limiter_run cfg cs l)) \<le>
    tokens l + count_list cs Tick * unat (g_num_token_per_sec cfg)"
proof (induction cs arbitrary: l)
  case (Cons call cs)
  show ?case
  proof (cases call)
    case Request
    have "limiter_ok cfg (snd (GetToken l))"
      using Cons.prems by (rule limiter_ok_GetToken)
    note IH = Cons.IH [OF this]
    have "(if fst (GetToken l) then 1 else 0) + tokens (snd (GetToken l)) = tokens l"
      by (auto simp: GetToken_refines bucket_take_def)
    with IH Request show ?thesis
      by (auto simp: case_prod_beta Let_def split: if_splits)
  next
    case Tick
    note refill = tick_refill [OF assms Cons.prems]
    with Cons.IH [OF refill(1)] Tick show ?thesis by simp
  qed
qed simp

section \<open>Interleaved threads\<close>

text \<open>
  The I/O context runs on several threads (\<^verbatim>\<open>Server::Run\<close>), so calls of \<^verbatim>\<open>GetToken\<close> overlap.
  Its accesses are a \<^verbatim>\<open>fetch_sub\<close>, which decides the answer, and, after a refusal, a
  \<^verbatim>\<open>fetch_add\<close>; the refill is a \<^verbatim>\<open>load\<close> and a later \<^verbatim>\<open>store\<close>. A thread that was refused and
  has not yet put its token back is in \<open>PutBack\<close>.
\<close>

datatype thread_pc = Ready | PutBack

record limiter_sys =
  counter :: size_t
  pcs :: "thread_pc list"
  loaded :: "size_t option"
  granted :: nat
  refused :: nat

definition limiter_start :: "size_t \<Rightarrow> nat \<Rightarrow> limiter_sys" where
  "limiter_start n k = \<lparr>counter = n, pcs = replicate k Ready, loaded = None, granted = 0, refused = 0\<rparr>"

inductive limiter_step :: "config \<Rightarrow> limiter_sys \<Rightarrow> limiter_sys \<Rightarrow> bool" for cfg where
  fetch_sub_granted: "i < length (pcs s) \<Longrightarrow> pcs s ! i = Ready \<Longrightarrow> counter s > 0 \<Longrightarrow>
    limiter_step cfg s (s\<lparr>counter := counter s - 1, granted := Suc (granted s)\<rparr>)"
| fetch_sub_refused: "i < length (pcs s) \<Longrightarrow> pcs s ! i = Ready \<Longrightarrow> \<not> counter s > 0 \<Longrightarrow>
    limiter_step cfg s (s\<lparr>counter := counter s - 1, pcs := (pcs s)[i := PutBack]\<rparr>)"
| fetch_add: "i < length (pcs s) \<Longrightarrow> pcs s ! i = PutBack \<Longrightarrow>
    limiter_step cfg s (s\<lparr>counter := counter s + 1, pcs := (pcs s)[i := Ready], refused := Suc (refused s)\<rparr>)"
| refill_load: "loaded s = None \<Longrightarrow>
    limiter_step cfg s (s\<lparr>loaded := Some (refilled (counter s) (g_num_token_max cfg) (g_num_token_per_sec cfg))\<rparr>)"
| refill_store: "loaded s = Some v \<Longrightarrow> limiter_step cfg s (s\<lparr>counter := v, loaded := None\<rparr>)"

text \<open>Between two refills.\<close>

inductive request_reach :: "config \<Rightarrow> limiter_sys \<Rightarrow> limiter_sys \<Rightarrow> bool" for cfg where
  start: "loaded s = None \<Longrightarrow> request_reach cfg s s"
| request: "request_reach cfg s t \<Longrightarrow> limiter_step cfg t u \<Longrightarrow> loaded u = None \<Longrightarrow> request_reach cfg s u"

section \<open>The race\<close>

text \<open>The state in which one refused thread has put its token back after another was granted.\<close>

definition drained_start :: limiter_sys where
  "drained_start = limiter_start 0 2"

definition after_race :: "nat \<Rightarrow> limiter_sys" where
  "after_race m = \<lparr>counter = - 1 - word_of_nat m, pcs = [Ready, Ready], loaded = None,
     granted = Suc m, refused = 1\<rparr>"

lemma race: "request_reach cfg drained_start (after_race 0)"
proof -
  let ?s0 = "drained_start"
  let ?s1 = "?s0\<lparr>counter := counter ?s0 - 1, pcs := (pcs ?s0)[0 := PutBack]\<rparr>"
  let ?s2 = "?s1\<lparr>counter := counter ?s1 - 1, granted := Suc (granted ?s1)\<rparr>"
  let ?s3 = "?s2\<lparr>counter := counter ?s2 + 1, pcs := (pcs ?s2)[0 := Ready], refused := Suc (refused ?s2)\<rparr>"
  have s0: "pcs ?s0 = [Ready, Ready]" "counter ?s0 = 0" "loaded ?s0 = None"
    by (simp_all add: drained_start_def limiter_start_def numeral_2_eq_2)
  have "request_reach cfg ?s0 ?s0" using s0 by (intro request_reach.start)
  then have "request_reach cfg ?s0 ?s1"
    by (rule request_reach.request) (rule fetch_sub_refused, simp_all add: s0)
  then have "request_reach cfg ?s0 ?s2"
    by (rule request_reach.request) (rule fetch_sub_granted [of 1], simp_all add: s0 word_gt_0)
  then have "request_reach cfg ?s0 ?s3"
    by (rule request_reach.request) (rule fetch_add, simp_all add: s0)
  moreover have "?s3 = after_race 0"
    by (simp add: after_race_def drained_start_def limiter_start_def numeral_2_eq_2)
  ultimately show ?thesis by simp
qed

lemma race_continues:
  assumes "Suc m < 2 ^ 64"
  shows "limiter_step cfg (after_race m) (after_race (Suc m))"
proof -
  have "(word_of_nat (Suc m) :: size_t) \<noteq> 0"
    using assms nat_dvd_not_less [of "Suc m" "2 ^ 64"] by (simp add: word_of_nat_eq_0_iff del: of_nat_Suc)
  then have "counter (after_race m) > 0"
    by (simp add: after_race_def word_gt_0 algebra_simps)
      (metis add.commute eq_neg_iff_add_eq_0)
  then have "limiter_step cfg (after_race m)
    ((after_race m)\<lparr>counter := counter (after_race m) - 1, granted := Suc (granted (after_race m))\<rparr>)"
    by (intro fetch_sub_granted [of 0]) (simp_all add: after_race_def)
  then show ?thesis by (simp add: after_race_def algebra_simps)
qed

lemma race_unbounded: "m < 2 ^ 64 \<Longrightarrow> request_reach cfg drained_start (after_race m)"
proof (induction m)
  case 0
  show ?case by (rule race)
next
  case (Suc m)
  then have "request_reach cfg drained_start (after_race m)" by simp
  moreover have "limiter_step cfg (after_race m) (after_race (Suc m))"
    using Suc.prems by (rule race_continues)
  ultimately show ?case
    by (rule request_reach.request) (simp add: after_race_def)
qed

section \<open>Properties of the rate limiter\<close>

text \<open>C14: refinement. On the 64-bit counter \<^verbatim>\<open>GetToken\<close> and \<^verbatim>\<open>performTask\<close> compute what the abstract
  token bucket does: a request is granted exactly when a token is left and then takes one, a refused
  request leaves the counter as it was despite the wrap-around of \<^verbatim>\<open>fetch_sub\<close>, and a refill adds the
  configured rate up to the configured maximum, as long as the sum fits in the counter.\<close>

theorem limiter_refines_bucket:
  assumes "tokens l + unat (g_num_token_per_sec cfg) < 2 ^ 64"
  shows "map_prod id n_token (GetToken l) =
      (case bucket_take (tokens l) of (ok, n) \<Rightarrow> (ok, word_of_nat n)) \<and>
    tokens (performTask cfg l) =
      bucket_refill (unat (g_num_token_max cfg)) (unat (g_num_token_per_sec cfg)) (tokens l)"
proof -
  have "n_token (snd (GetToken l)) = word_of_nat (snd (bucket_take (tokens l)))"
    using GetToken_refines(2) [of l] by (metis of_nat_unat ucast_id)
  then show ?thesis
    using GetToken_refines(1) [of l] performTask_refines [OF assms]
    by (simp add: prod_eq_iff case_prod_beta)
qed

theorem limiter_refines_bucket_witness:
  "fst (GetToken \<lparr>n_token = 0, timer_expiry = 1, timer_armed = True\<rparr>) = False \<and>
   tokens (performTask initial_config \<lparr>n_token = 0, timer_expiry = 1, timer_armed = True\<rparr>) = 100"
  using limiter_refines_bucket [of "\<lparr>n_token = 0, timer_expiry = 1, timer_armed = True\<rparr>" initial_config]
  by (simp add: initial_config_def bucket_take_def bucket_refill_def prod_eq_iff)

text \<open>The rate bound. Started with at most the maximum number of tokens, any sequence of
  non-overlapping requests and ticks grants at most the tokens at hand plus the refill rate for each
  tick, and the counter never exceeds the configured maximum.\<close>

theorem limiter_rate_bound:
  assumes "config_ok cfg" and "settings_fit (GetRateLimitorConfig cfg)" and "limiter_ok cfg l"
  shows "fst (limiter_run cfg cs l) \<le> tokens l + count_list cs Tick * unat (g_num_token_per_sec cfg) \<and>
    n_token (snd (limiter_run cfg cs l)) \<le> g_num_token_max cfg"
  using limiter_run_bound [OF assms(1,2,3), of cs] by (simp add: limiter_ok_def)

theorem limiter_rate_bound_witness:
  "fst (limiter_run initial_config [Request, Tick, Request] (new_limiter initial_config 0)) \<le> 1000 + 1 * 100"
proof -
  have fit: "settings_fit (GetRateLimitorConfig initial_config)"
    by (simp add: settings_fit_def GetRateLimitorConfig_def initial_config_def)
  show ?thesis
    using limiter_rate_bound [OF initial_config_ok fit limiter_ok_new, of "[Request, Tick, Request]" 0]
    by (simp add: new_limiter_def GetRateLimitorConfig_def initial_config_def)
qed

text \<open>No starvation. After every tick of the timer the next request is granted and the timer is
  armed again, one interval later.\<close>

theorem tick_serves_next_request:
  assumes "config_ok cfg" and "settings_fit (GetRateLimitorConfig cfg)" and "limiter_ok cfg l"
  shows "fst (GetToken (tick cfg l)) \<and> timer_armed (tick cfg l) \<and>
    timer_expiry (tick cfg l) = timer_expiry l + 1"
  using tick_refill(2) [OF assms] GetToken_refines(1) [of "tick cfg l"]
  by (simp add: bucket_take_def tick_def performTask_def GetRateLimitorConfig_def cpp_defs Let_def)

theorem tick_serves_next_request_witness:
  "fst (GetToken (tick initial_config \<lparr>n_token = 0, timer_expiry = 1, timer_armed = True\<rparr>))"
proof -
  have fit: "settings_fit (GetRateLimitorConfig initial_config)"
    by (simp add: settings_fit_def GetRateLimitorConfig_def initial_config_def)
  have ok: "limiter_ok initial_config \<lparr>n_token = 0, timer_expiry = 1, timer_armed = True\<rparr>"
    by (simp add: limiter_ok_def)
  show ?thesis using tick_serves_next_request [OF initial_config_ok fit ok] by simp
qed

text \<open>C32: the race. With two threads and an empty bucket, a request that overlaps the window
  between another's \<^verbatim>\<open>fetch_sub\<close> and \<^verbatim>\<open>fetch_add\<close> is granted, and from then on every request
  is: any number of requests up to \<open>2^64\<close> can be granted before the next refill.\<close>

theorem limiter_race_unbounded:
  assumes "0 < m" and "m \<le> 2 ^ 64"
  shows "\<exists>s. request_reach cfg (limiter_start 0 2) s \<and> granted s = m \<and> refused s = 1 \<and>
    set (pcs s) = {Ready}"
proof -
  obtain j where "m = Suc j" using assms(1) by (cases m) auto
  then show ?thesis
    using race_unbounded [of j cfg] assms(2)
    by (intro exI [of _ "after_race j"]) (simp add: drained_start_def after_race_def)
qed

theorem limiter_race_unbounded_witness:
  "\<exists>s. request_reach initial_config (limiter_start 0 2) s \<and> granted s = 1000000"
  using limiter_race_unbounded [of 1000000 initial_config] by auto

end
