(* ===== verification/Utils.thy ===== *)
theory Utils
  imports Prelude
begin

text \<open>
  The string utilities of \<^verbatim>\<open>core/include/common.hpp\<close> and \<^verbatim>\<open>core/src/string_op.cc\<close>: URL encoding,
  file extensions, the constant hash that the switch statements dispatch on, the query parameters of
  a URL, and the check of an IPv4 address against a regular expression.
\<close>

section \<open>URL encoding\<close>

definition unreserved :: "char \<Rightarrow> bool" where
  "unreserved c \<longleftrightarrow>
     97 \<le> code c \<and> code c \<le> 122 \<or> 65 \<le> code c \<and> code c \<le> 90 \<or> 48 \<le> code c \<and> code c \<le> 57 \<or>
     c = CHR ''-'' \<or> c = CHR ''_'' \<or> c = CHR ''.'' \<or> c = CHR ''~''"

text \<open>\<^verbatim>\<open>std::setw(2) << std::setfill('0')\<close> before a number: at least two characters.\<close>

definition setw2 :: "string \<Rightarrow> string" where
  "setw2 s = replicate (2 - length s) (CHR ''0'') @ s"

definition encode_char :: "char \<Rightarrow> string" where
  "encode_char c = (if unreserved c then [c] else CHR ''%'' # setw2 (dec (code c)))"

definition UrlEncode :: "string \<Rightarrow> string" where
  "UrlEncode str = concat (map encode_char str)"

section \<open>File extensions\<close>

definition FindFileExtension :: "string \<Rightarrow> string" where
  "FindFileExtension path =
     (case find_last_char (CHR ''.'') path of
        Some pos \<Rightarrow> if pos + 2 \<le> length path then drop (pos + 1) path else []
      | None \<Rightarrow> [])"

section \<open>The constant hash\<close>

text \<open>\<^verbatim>\<open>static_cast<uint32_t>(c)\<close> of a \<^verbatim>\<open>char\<close>, which is signed on x86-64: the sign is extended.\<close>

definition char_u32 :: "char \<Rightarrow> u32" where
  "char_u32 c = scast (of_char c :: u8)"

definition HashConstantString :: "string \<Rightarrow> u32" where
  "HashConstantString str = foldl (\<lambda>hash c. hash * 31 + char_u32 c) 0 str"

section \<open>Query parameters\<close>

text \<open>One \<^verbatim>\<open>key=value\<close> pair is stored in the map; a piece without \<^verbatim>\<open>=\<close> is dropped.\<close>

definition store_param :: "string \<Rightarrow> (string \<rightharpoonup> string) \<Rightarrow> (string \<rightharpoonup> string)" where
  "store_param param params =
     (case find_char (CHR ''='') param of
        Some eq_pos \<Rightarrow> params(take eq_pos param \<mapsto> drop (eq_pos + 1) param)
      | None \<Rightarrow> params)"

lemma find_char_less: "find_char c s = Some n \<Longrightarrow> n < length s"
  by (simp add: find_char_Some)

function split_params :: "string \<Rightarrow> (string \<rightharpoonup> string) \<Rightarrow> (string \<rightharpoonup> string)" where
  "split_params query params =
     (case find_char (CHR ''&'') query of
        Some pos \<Rightarrow> split_params (drop (pos + 1) query) (store_param (take pos query) params)
      | None \<Rightarrow> store_param query params)"
  by pat_completeness auto
termination
  by (relation "measure (\<lambda>(query, params). length query)") (auto dest: find_char_less)

declare split_params.simps [simp del]

definition ExtractParamFromUrl :: "string \<Rightarrow> string \<Rightarrow> string" where
  "ExtractParamFromUrl url key =
     (case find_char (CHR ''?'') url of
        None \<Rightarrow> []
      | Some query_start \<Rightarrow>
          (case split_params (drop (query_start + 1) url) Map.empty key of
             Some v \<Rightarrow> v
           | None \<Rightarrow> []))"

section \<open>IPv4 addresses\<close>

text \<open>
  The regular expressions that the pattern uses, and \<^verbatim>\<open>std::regex_match\<close>: \<open>rmatches\<close> lists what may be
  left after a match at the front, and the whole string matches when nothing is left in one of them.
\<close>

datatype regex =
    Cls nat nat
  | Lit char
  | Cat regex regex
  | Alt regex regex
  | Rep regex nat

fun rmatches :: "regex \<Rightarrow> string \<Rightarrow> string list" where
  "rmatches (Cls lo hi) s = (case s of c # cs \<Rightarrow> if lo \<le> code c \<and> code c \<le> hi then [cs] else [] | [] \<Rightarrow> [])"
| "rmatches (Lit x) s = (case s of c # cs \<Rightarrow> if c = x then [cs] else [] | [] \<Rightarrow> [])"
| "rmatches (Cat a b) s = concat (map (rmatches b) (rmatches a s))"
| "rmatches (Alt a b) s = rmatches a s @ rmatches b s"
| "rmatches (Rep a n) s = ((\<lambda>ss. concat (map (rmatches a) ss)) ^^ n) [s]"

definition regex_match :: "regex \<Rightarrow> string \<Rightarrow> bool" where
  "regex_match r s \<longleftrightarrow> [] \<in> set (rmatches r s)"

definition digit_re :: regex where
  "digit_re = Cls 48 57"

text \<open>\<^verbatim>\<open>25[0-5]|2[0-4][0-9]|1[0-9][0-9]|[0-9][0-9]|[0-9]\<close>.\<close>

definition octet_re :: regex where
  "octet_re =
     Alt (Cat (Lit (CHR ''2'')) (Cat (Lit (CHR ''5'')) (Cls 48 53)))
    (Alt (Cat (Lit (CHR ''2'')) (Cat (Cls 48 52) digit_re))
    (Alt (Cat (Lit (CHR ''1'')) (Cat digit_re digit_re))
    (Alt (Cat digit_re digit_re) digit_re)))"

definition ipv4Pattern :: regex where
  "ipv4Pattern = Cat octet_re (Rep (Cat (Lit (CHR ''.'')) octet_re) 3)"

definition isValidIpv4 :: "string \<Rightarrow> bool" where
  "isValidIpv4 ipv4_address = regex_match ipv4Pattern ipv4_address"

definition toLower :: "string \<Rightarrow> string" where
  "toLower input = map tolower input"

section \<open>Laws\<close>

lemma toLower_idem [simp]: "toLower (toLower s) = toLower s"
  by (simp add: toLower_def comp_def)

lemma UrlEncode_append [simp]: "UrlEncode (a @ b) = UrlEncode a @ UrlEncode b"
  by (simp add: UrlEncode_def)

lemma split_params_one: "CHR ''&'' \<notin> set q \<Longrightarrow> split_params q params = store_param q params"
proof -
  assume "CHR ''&'' \<notin> set q"
  then have "find_char (CHR ''&'') q = None" by simp
  then show ?thesis by (simp only: split_params.simps [of q] option.case)
qed

lemma split_params_more:
  assumes "CHR ''&'' \<notin> set p"
  shows "split_params (p @ CHR ''&'' # q) params = split_params q (store_param p params)"
proof -
  have "find_char (CHR ''&'') (p @ CHR ''&'' # q) = Some (length p)"
    using assms by (simp add: find_char_append)
  then show ?thesis by (simp add: split_params.simps [of "p @ CHR ''&'' # q"])
qed

text \<open>The query string of a list of pairs.\<close>

definition param_text :: "string \<times> string \<Rightarrow> string" where
  "param_text p = fst p @ ''='' @ snd p"

fun query_text :: "(string \<times> string) list \<Rightarrow> string" where
  "query_text [] = []"
| "query_text [p] = param_text p"
| "query_text (p # ps) = param_text p @ ''&'' @ query_text ps"

definition plain_param :: "string \<times> string \<Rightarrow> bool" where
  "plain_param p \<longleftrightarrow> CHR ''='' \<notin> set (fst p) \<and> CHR ''&'' \<notin> set (fst p) \<and> CHR ''&'' \<notin> set (snd p)"

lemma store_param_text:
  "plain_param p \<Longrightarrow> store_param (param_text p) params = params(fst p \<mapsto> snd p)"
  by (simp add: store_param_def param_text_def plain_param_def find_char_append)

lemma upd_add_map_of: "params(k \<mapsto> v) ++ map_of xs = params ++ map_of (xs @ [(k, v)])"
  by (auto simp: fun_eq_iff map_add_def split: option.splits)

lemma split_params_text:
  "list_all plain_param ps \<Longrightarrow> ps \<noteq> [] \<Longrightarrow>
   split_params (query_text ps) params = params ++ map_of (rev ps)"
proof (induction ps arbitrary: params rule: query_text.induct)
  case (2 p)
  then have "CHR ''&'' \<notin> set (param_text p)" by (simp add: param_text_def plain_param_def)
  with 2 show ?case
    by (auto simp: split_params_one store_param_text fun_eq_iff map_add_def)
next
  case (3 p q ps)
  have "CHR ''&'' \<notin> set (param_text p)" using "3.prems" by (simp add: param_text_def plain_param_def)
  with 3 upd_add_map_of [of params "fst p" "snd p" "rev ps @ [q]"] show ?case
    by (simp add: split_params_more store_param_text)
qed simp

text \<open>An octet as the pattern accepts it.\<close>

definition octet :: "string \<Rightarrow> bool" where
  "octet s \<longleftrightarrow> list_all is_digit s \<and>
     (length s = 1 \<or> length s = 2 \<or>
      length s = 3 \<and> 100 \<le> value_of 10 (map digit_val s) \<and> value_of 10 (map digit_val s) \<le> 255)"

lemma is_digit_code: "c = CHR ''2'' \<longleftrightarrow> code c = 50" "c = CHR ''5'' \<longleftrightarrow> code c = 53" "c = CHR ''1'' \<longleftrightarrow> code c = 49"
  using of_char_eq_iff [of c "CHR ''2''", where ?'a = nat] of_char_eq_iff [of c "CHR ''5''", where ?'a = nat]
    of_char_eq_iff [of c "CHR ''1''", where ?'a = nat] by simp_all

lemma octet_short:
  "octet [] = False" "octet [a] = is_digit a" "octet [a, b] = (is_digit a \<and> is_digit b)"
  "octet [a, b, c] = (is_digit a \<and> is_digit b \<and> is_digit c \<and>
     100 \<le> digit_val a * 100 + digit_val b * 10 + digit_val c \<and>
     digit_val a * 100 + digit_val b * 10 + digit_val c \<le> 255)"
  "octet (a # b # c # d # s) = False"
  by (auto simp: octet_def value_of_def)

lemma three_digits:
  fixes x y z :: nat
  assumes "x \<le> 9" "y \<le> 9" "z \<le> 9"
  shows "100 \<le> x * 100 + y * 10 + z \<and> x * 100 + y * 10 + z \<le> 255 \<longleftrightarrow>
    x = 2 \<and> y = 5 \<and> z \<le> 5 \<or> x = 2 \<and> y \<le> 4 \<or> x = 1"
proof -
  consider "x = 0" | "x = 1" | "x = 2" | "3 \<le> x" by linarith
  then show ?thesis using assms by cases (auto, (presburger+)?)
qed

lemma digit_cases:
  assumes "is_digit c"
  obtains x where "code c = 48 + x" "digit_val c = x" "x \<le> 9"
  using assms that [of "code c - 48"] by (auto simp: is_digit_def digit_val_def)

lemma octet_three:
  "octet [a, b, c] \<longleftrightarrow>
     code a = 50 \<and> code b = 53 \<and> 48 \<le> code c \<and> code c \<le> 53 \<or>
     code a = 50 \<and> 48 \<le> code b \<and> code b \<le> 52 \<and> is_digit c \<or>
     code a = 49 \<and> is_digit b \<and> is_digit c"
proof (cases "is_digit a \<and> is_digit b \<and> is_digit c")
  case True
  then obtain x y z where "code a = 48 + x" "digit_val a = x" "x \<le> 9" "code b = 48 + y" "digit_val b = y"
    "y \<le> 9" "code c = 48 + z" "digit_val c = z" "z \<le> 9"
    by (metis digit_cases)
  with True three_digits [of x y z] show ?thesis by (auto simp: octet_short)
next
  case False
  then show ?thesis by (auto simp: octet_short is_digit_def)
qed

lemma rmatches_octet: "r \<in> set (rmatches octet_re s) \<longleftrightarrow> (\<exists>p. s = p @ r \<and> octet p)"
proof -
  have "(\<exists>p. s = p @ r \<and> octet p) \<longleftrightarrow>
      (\<exists>a b c. s = a # b # c # r \<and> octet [a, b, c]) \<or>
      (\<exists>a b. s = a # b # r \<and> octet [a, b]) \<or> (\<exists>a. s = a # r \<and> octet [a])"
  proof
    assume "\<exists>p. s = p @ r \<and> octet p"
    then obtain p where p: "s = p @ r" "octet p" by blast
    then have "length p = 1 \<or> length p = 2 \<or> length p = 3" by (auto simp: octet_def)
    with p show "(\<exists>a b c. s = a # b # c # r \<and> octet [a, b, c]) \<or>
      (\<exists>a b. s = a # b # r \<and> octet [a, b]) \<or> (\<exists>a. s = a # r \<and> octet [a])"
      by (auto simp: length_Suc_conv numeral_eq_Suc)
  qed fastforce
  also have "\<dots> \<longleftrightarrow> r \<in> set (rmatches octet_re s)"
    by (auto simp: octet_re_def digit_re_def octet_three octet_short(2,3) is_digit_code is_digit_def
        split: list.splits if_splits)
  finally show ?thesis ..
qed

lemma rmatches_dot_octet:
  "r \<in> set (rmatches (Cat (Lit (CHR ''.'')) octet_re) s) \<longleftrightarrow> (\<exists>p. s = CHR ''.'' # p @ r \<and> octet p)"
  by (cases s) (auto simp: rmatches_octet)

lemma rmatches_Cat: "r \<in> set (rmatches (Cat a b) s) \<longleftrightarrow> (\<exists>t \<in> set (rmatches a s). r \<in> set (rmatches b t))"
  by auto

lemma rmatches_Rep3:
  "r \<in> set (rmatches (Rep a 3) s) \<longleftrightarrow>
   (\<exists>t \<in> set (rmatches a s). \<exists>u \<in> set (rmatches a t). r \<in> set (rmatches a u))"
  by (simp add: numeral_eq_Suc)

lemma rmatches_ipv4:
  "r \<in> set (rmatches ipv4Pattern s) \<longleftrightarrow> (\<exists>a b c d. octet a \<and> octet b \<and> octet c \<and> octet d \<and>
     s = a @ CHR ''.'' # b @ CHR ''.'' # c @ CHR ''.'' # d @ r)" (is "_ \<longleftrightarrow> ?rhs")
proof
  assume "r \<in> set (rmatches ipv4Pattern s)"
  then obtain t u v where "t \<in> set (rmatches octet_re s)" and
    "u \<in> set (rmatches (Cat (Lit (CHR ''.'')) octet_re) t)"
    "v \<in> set (rmatches (Cat (Lit (CHR ''.'')) octet_re) u)"
    "r \<in> set (rmatches (Cat (Lit (CHR ''.'')) octet_re) v)"
    unfolding ipv4Pattern_def rmatches_Cat [of _ octet_re] rmatches_Rep3 by blast
  then show ?rhs unfolding rmatches_octet rmatches_dot_octet by blast
next
  assume ?rhs
  then obtain a b c d where o: "octet a" "octet b" "octet c" "octet d" and
    s: "s = a @ CHR ''.'' # b @ CHR ''.'' # c @ CHR ''.'' # d @ r" by blast
  have "CHR ''.'' # b @ CHR ''.'' # c @ CHR ''.'' # d @ r \<in> set (rmatches octet_re s)"
    using o s rmatches_octet by blast
  moreover have "w \<in> set (rmatches (Cat (Lit (CHR ''.'')) octet_re) (CHR ''.'' # p @ w))" if "octet p" for p w
    using that rmatches_dot_octet by blast
  ultimately show "r \<in> set (rmatches ipv4Pattern s)"
    unfolding ipv4Pattern_def rmatches_Cat [of _ octet_re] rmatches_Rep3 using o by blast
qed

lemma isValidIpv4_iff:
  "isValidIpv4 s \<longleftrightarrow> (\<exists>a b c d. octet a \<and> octet b \<and> octet c \<and> octet d \<and>
     s = a @ ''.'' @ b @ ''.'' @ c @ ''.'' @ d)"
  unfolding isValidIpv4_def regex_match_def rmatches_ipv4 by simp


section \<open>Theorems\<close>

lemma octet_dec:
  assumes "n \<le> 255"
  shows "octet (dec n)"
proof -
  have digits: "list_all is_digit (dec n)" by (simp add: list_all_iff)
  have val: "value_of 10 (map digit_val (dec n)) = n" by simp
  consider "n < 10" | "10 \<le> n" "n < 100" | "100 \<le> n" by linarith
  then show ?thesis
  proof cases
    case 1
    then show ?thesis using digits by (simp add: octet_def dec_def radix.simps [of 10 n])
  next
    case 2
    then have "n div 10 < 10" by simp
    with 2 show ?thesis
      using digits by (simp add: octet_def dec_def radix.simps [of 10 n] radix.simps [of 10 "n div 10"])
  next
    case 3
    have "n div 10 div 10 < 10" "\<not> n div 10 < 10" using 3 assms by (simp_all add: div_mult2_eq [symmetric])
    then have "length (dec n) = 3"
      using 3 assms by (simp add: dec_def radix.simps [of 10 n] radix.simps [of 10 "n div 10"]
          radix.simps [of 10 "n div 10 div 10"])
    then show ?thesis using digits val 3 assms by (simp add: octet_def)
  qed
qed

text \<open>C40: The pattern for IPv4 addresses accepts exactly four octets with dots between them, where an
  octet is one digit, two digits, or three digits with a value from 100 to 255; in particular it
  accepts the dotted decimal form of every four bytes.\<close>

theorem ipv4_pattern_exact:
  "(isValidIpv4 s \<longleftrightarrow> (\<exists>a b c d. octet a \<and> octet b \<and> octet c \<and> octet d \<and>
      s = a @ ''.'' @ b @ ''.'' @ c @ ''.'' @ d)) \<and>
   (w \<le> 255 \<and> x \<le> 255 \<and> y \<le> 255 \<and> z \<le> 255 \<longrightarrow>
      isValidIpv4 (dec w @ ''.'' @ dec x @ ''.'' @ dec y @ ''.'' @ dec z))"
  using isValidIpv4_iff octet_dec by blast

theorem ipv4_pattern_exact_witness:
  "isValidIpv4 (dec 192 @ ''.'' @ dec 168 @ ''.'' @ dec 0 @ ''.'' @ dec 255)"
  using ipv4_pattern_exact [of "[]" 192 168 0 255] by simp

text \<open>For a URL whose query is a list of pairs, a parameter is the value of the last pair with that
  key, and the empty string when there is none.\<close>

theorem url_param_last_value:
  assumes "CHR ''?'' \<notin> set path" and "list_all plain_param ps"
  shows "ExtractParamFromUrl (path @ ''?'' @ query_text ps) key =
    (case map_of (rev ps) key of Some v \<Rightarrow> v | None \<Rightarrow> [])"
proof (cases "ps = []")
  case True
  then show ?thesis
    using assms split_params_one [of "[]" Map.empty]
    by (simp add: ExtractParamFromUrl_def find_char_append store_param_def)
next
  case False
  then show ?thesis
    using assms split_params_text [OF assms(2) False, of Map.empty]
    by (simp add: ExtractParamFromUrl_def find_char_append)
qed

theorem url_param_last_value_witness:
  "ExtractParamFromUrl (''/login'' @ ''?'' @ query_text [(''code'', ''a''), (''state'', ''x=y''), (''code'', ''b'')]) ''code'' =
    (case map_of (rev [(''code'', ''a''), (''state'', ''x=y''), (''code'', ''b'')]) ''code'' of Some v \<Rightarrow> v | None \<Rightarrow> [])"
  by (rule url_param_last_value) (simp_all add: plain_param_def)

lemma encode_char_alphabet: "x \<in> set (encode_char c) \<Longrightarrow> unreserved x \<or> x = CHR ''%''"
proof (cases "unreserved c")
  case False
  assume "x \<in> set (encode_char c)"
  with False have "x = CHR ''%'' \<or> x = CHR ''0'' \<or> x \<in> set (dec (code c))"
    by (auto simp: encode_char_def setw2_def)
  moreover have "unreserved x" if "is_digit x" using that by (simp add: unreserved_def is_digit_def)
  moreover have "is_digit x" if "x \<in> set (dec (code c))" using that by (rule dec_digits)
  moreover have "unreserved (CHR ''0'')" by (simp add: unreserved_def)
  ultimately show ?thesis by blast
qed (simp add: encode_char_def)

text \<open>URL encoding leaves unreserved text alone and its output holds only unreserved characters and
  percent signs; but it is not injective, because it writes a byte in decimal and with two or three
  digits, so that different inputs have the same code.\<close>

theorem url_encode_alphabet_and_ambiguity:
  "(list_all unreserved s \<longrightarrow> UrlEncode s = s) \<and>
   list_all (\<lambda>c. unreserved c \<or> c = CHR ''%'') (UrlEncode s) \<and>
   UrlEncode [CHR 0x0C, CHR ''8'', CHR ''0''] = UrlEncode [CHR 0x80, CHR ''0''] \<and>
   UrlEncode [SP] = ''%32''"
proof (intro conjI impI)
  show "list_all unreserved s \<Longrightarrow> UrlEncode s = s"
    by (induction s) (simp_all add: UrlEncode_def encode_char_def)
  show "list_all (\<lambda>c. unreserved c \<or> c = CHR ''%'') (UrlEncode s)"
    using encode_char_alphabet by (auto simp: UrlEncode_def list_all_iff)
  show "UrlEncode [CHR 0x0C, CHR ''8'', CHR ''0''] = UrlEncode [CHR 0x80, CHR ''0'']" by code_simp
  show "UrlEncode [SP] = ''%32''" by code_simp
qed

theorem url_encode_alphabet_and_ambiguity_witness:
  "UrlEncode ''a-b_9.~'' = ''a-b_9.~''"
  using url_encode_alphabet_and_ambiguity [of "''a-b_9.~''"] by (simp add: unreserved_def)

lemma FindFileExtension_dot:
  "CHR ''.'' \<notin> set e \<Longrightarrow> FindFileExtension (s @ CHR ''.'' # e) = e"
  by (cases e) (simp_all add: FindFileExtension_def find_last_char_append)

lemma FindFileExtension_none: "CHR ''.'' \<notin> set s \<Longrightarrow> FindFileExtension s = []"
proof -
  assume "CHR ''.'' \<notin> set s"
  then have "find_last_char (CHR ''.'') s = None" by simp
  then show ?thesis unfolding FindFileExtension_def by (simp only: option.case)
qed

end
