(* ===== verification/Pico.thy ===== *)
theory Pico
  imports Prelude
begin

text \<open>
  The HTTP request and response parser of \<^verbatim>\<open>core/third_party/picohttpparser.c\<close>, which
  \<^verbatim>\<open>HttpProxyHandler::onRead\<close> calls on the bytes read so far. A pointer into the buffer is the
  suffix of the buffer that starts there, so \<^verbatim>\<open>buf == buf_end\<close> is \<open>buf = []\<close> and a token between
  two pointers is the text in between. A parsing function returns the new pointer with its result,
  or one of the two error codes, or \<open>PFault\<close> for a read at or past the end of the buffer.
  The argument \<open>sse\<close> tells whether \<^verbatim>\<open>__SSE4_2__\<close> is defined: both variants of the source are
  modelled. This theory holds the definitions only; their theory is in \<^verbatim>\<open>Pico_Laws\<close>.
\<close>

section \<open>Results\<close>

datatype 'a pres = POk 'a string | PErr | PPartial | PFault

primrec pbind :: "'a pres \<Rightarrow> ('a \<Rightarrow> string \<Rightarrow> 'b pres) \<Rightarrow> 'b pres" where
  "pbind (POk v buf) f = f v buf"
| "pbind PErr f = PErr"
| "pbind PPartial f = PPartial"
| "pbind PFault f = PFault"

text \<open>The result as the \<^verbatim>\<open>int\<close> that the public functions return.\<close>

definition phr_ret :: "string \<Rightarrow> 'a pres \<Rightarrow> int outcome" where
  "phr_ret buf_start r =
     (case r of
        POk v buf \<Rightarrow> Val (int (length buf_start) - int (length buf))
      | PErr \<Rightarrow> Val (- 1)
      | PPartial \<Rightarrow> Val (- 2)
      | PFault \<Rightarrow> UB)"

section \<open>Macros\<close>

definition IS_PRINTABLE_ASCII :: "char \<Rightarrow> bool" where
  "IS_PRINTABLE_ASCII c \<longleftrightarrow> (of_char c :: u32) - 32 < 95"

definition CHECK_EOF :: "string \<Rightarrow> 'a pres \<Rightarrow> 'a pres" where
  "CHECK_EOF buf k = (if buf = [] then PPartial else k)"

text \<open>\<^verbatim>\<open>*buf\<close>.\<close>

definition deref :: "string \<Rightarrow> (char \<Rightarrow> 'a pres) \<Rightarrow> 'a pres" where
  "deref buf f = (case buf of [] \<Rightarrow> PFault | c # _ \<Rightarrow> f c)"

definition EXPECT_CHAR_NO_CHECK :: "char \<Rightarrow> string \<Rightarrow> unit pres" where
  "EXPECT_CHAR_NO_CHECK ch buf = deref buf (\<lambda>c. if c \<noteq> ch then PErr else POk () (tl buf))"

definition EXPECT_CHAR :: "char \<Rightarrow> string \<Rightarrow> unit pres" where
  "EXPECT_CHAR ch buf = CHECK_EOF buf (EXPECT_CHAR_NO_CHECK ch buf)"

text \<open>The bytes from the pointer \<open>start\<close> up to the pointer \<open>buf\<close>.\<close>

definition between :: "string \<Rightarrow> string \<Rightarrow> string" where
  "between start buf = take (length start - length buf) start"

section \<open>Scanning\<close>

text \<open>
  \<^verbatim>\<open>_mm_cmpestri\<close> with \<^verbatim>\<open>_SIDD_CMP_RANGES | _SIDD_LEAST_SIGNIFICANT\<close> on a 16-byte block: the index
  of the first byte that lies in one of the ranges, 16 if there is none.
\<close>

definition in_ranges :: "(nat \<times> nat) list \<Rightarrow> char \<Rightarrow> bool" where
  "in_ranges ranges c \<longleftrightarrow> (\<exists>(lo, hi) \<in> set ranges. lo \<le> code c \<and> code c \<le> hi)"

definition mm_cmpestri :: "(nat \<times> nat) list \<Rightarrow> string \<Rightarrow> nat" where
  "mm_cmpestri ranges b16 = length (takeWhile (\<lambda>c. \<not> in_ranges ranges c) b16)"

text \<open>The loop of \<^verbatim>\<open>findchar_fast\<close> over the whole 16-byte blocks that are left.\<close>

fun findchar_blocks :: "(nat \<times> nat) list \<Rightarrow> nat \<Rightarrow> string \<Rightarrow> bool \<times> string" where
  "findchar_blocks ranges 0 buf = (False, buf)"
| "findchar_blocks ranges (Suc left) buf =
     (let r = mm_cmpestri ranges (take 16 buf)
      in if r \<noteq> 16 then (True, drop r buf)
         else findchar_blocks ranges left (drop 16 buf))"

definition findchar_fast :: "bool \<Rightarrow> (nat \<times> nat) list \<Rightarrow> string \<Rightarrow> bool \<times> string" where
  "findchar_fast sse ranges buf =
     (if sse \<and> length buf \<ge> 16 then findchar_blocks ranges (length buf div 16) buf
      else (False, buf))"

text \<open>\<^verbatim>\<open>ADVANCE_TOKEN\<close>.\<close>

definition ranges2 :: "(nat \<times> nat) list" where
  "ranges2 = [(0, 32), (127, 127)]"

fun advance_token_loop :: "string \<Rightarrow> unit pres" where
  "advance_token_loop [] = PFault"
| "advance_token_loop (c # cs) =
     (if c = SP then POk () (c # cs)
      else if \<not> IS_PRINTABLE_ASCII c \<and> (code c < 32 \<or> code c = 127) then PErr
      else CHECK_EOF cs (advance_token_loop cs))"

definition ADVANCE_TOKEN :: "bool \<Rightarrow> string \<Rightarrow> string pres" where
  "ADVANCE_TOKEN sse tok_start =
     (let (found2, buf) = findchar_fast sse ranges2 tok_start
      in pbind (if \<not> found2 then CHECK_EOF buf (advance_token_loop buf) else advance_token_loop buf)
           (\<lambda>_ buf. POk (between tok_start buf) buf))"

text \<open>\<^verbatim>\<open>token_char_map\<close>: the 256 entries, row by row.\<close>

definition token_char_map :: "nat list" where
  "token_char_map =
     [0,0,0,0,0,0,0,0,0,0,0,0,0,0,0,0,0,0,0,0,0,0,0,0,0,0,0,0,0,0,0,0,
      0,1,0,1,1,1,1,1,0,0,1,1,0,1,1,0,1,1,1,1,1,1,1,1,1,1,0,0,0,0,0,0,
      0,1,1,1,1,1,1,1,1,1,1,1,1,1,1,1,1,1,1,1,1,1,1,1,1,1,1,0,0,0,1,1,
      1,1,1,1,1,1,1,1,1,1,1,1,1,1,1,1,1,1,1,1,1,1,1,1,1,1,1,0,1,0,1,0] @
      replicate 128 0"

definition is_token_char :: "char \<Rightarrow> bool" where
  "is_token_char c \<longleftrightarrow> token_char_map ! code c \<noteq> 0"

definition parse_token_ranges :: "(nat \<times> nat) list" where
  "parse_token_ranges =
     [(0x00, 0x20), (0x22, 0x22), (0x28, 0x29), (0x2c, 0x2c), (0x2f, 0x2f), (0x3a, 0x40),
      (0x5b, 0x5d), (0x7b, 0xff)]"

fun parse_token_loop :: "char \<Rightarrow> string \<Rightarrow> unit pres" where
  "parse_token_loop next_char [] = PFault"
| "parse_token_loop next_char (c # cs) =
     (if c = next_char then POk () (c # cs)
      else if \<not> is_token_char c then PErr
      else CHECK_EOF cs (parse_token_loop next_char cs))"

definition parse_token :: "bool \<Rightarrow> char \<Rightarrow> string \<Rightarrow> string pres" where
  "parse_token sse next_char buf_start =
     (let (found, buf) = findchar_fast sse parse_token_ranges buf_start
      in pbind (if \<not> found then CHECK_EOF buf (parse_token_loop next_char buf)
                else parse_token_loop next_char buf)
           (\<lambda>_ buf. POk (between buf_start buf) buf))"

section \<open>Lines\<close>

definition ranges1 :: "(nat \<times> nat) list" where
  "ranges1 = [(0, 8), (10, 31), (127, 127)]"

text \<open>The test for a control character that ends a line: not HT, not a byte above DEL.\<close>

definition line_ctl :: "char \<Rightarrow> bool" where
  "line_ctl c \<longleftrightarrow> (code c < 32 \<and> c \<noteq> HT) \<or> code c = 127"

text \<open>
  \<^verbatim>\<open>DOIT()\<close>, \<open>n\<close> times: \<open>False\<close> is the jump to \<^verbatim>\<open>NonPrintable\<close>.
\<close>

fun DOIT :: "nat \<Rightarrow> string \<Rightarrow> bool pres" where
  "DOIT 0 buf = POk True buf"
| "DOIT (Suc n) [] = PFault"
| "DOIT (Suc n) (c # cs) = (if \<not> IS_PRINTABLE_ASCII c then POk False (c # cs) else DOIT n cs)"

lemma DOIT_length:
  "DOIT n buf = POk b buf' \<Longrightarrow> length buf' + (if b then n else 0) \<le> length buf"
  by (induction n buf rule: DOIT.induct) (auto split: if_splits)

text \<open>
  The unrolled loop of \<^verbatim>\<open>get_token_to_eol\<close>: \<open>True\<close> is the jump to \<^verbatim>\<open>FOUND_CTL\<close>, \<open>False\<close> the loop's
  end with fewer than eight bytes left.
\<close>

function eol_unrolled :: "string \<Rightarrow> bool pres" where
  "eol_unrolled buf =
     (if length buf \<ge> 8
      then case DOIT 8 buf of
             POk True buf1 \<Rightarrow> eol_unrolled buf1
           | POk False buf1 \<Rightarrow>
               (case buf1 of
                  [] \<Rightarrow> PFault
                | c # cs \<Rightarrow> if line_ctl c then POk True (c # cs) else eol_unrolled cs)
           | PErr \<Rightarrow> PErr | PPartial \<Rightarrow> PPartial | PFault \<Rightarrow> PFault
      else POk False buf)"
  by pat_completeness auto
termination
  by (relation "measure length") (auto dest: DOIT_length)

declare eol_unrolled.simps [simp del]

fun eol_slow :: "string \<Rightarrow> unit pres" where
  "eol_slow [] = PPartial"
| "eol_slow (c # cs) = (if \<not> IS_PRINTABLE_ASCII c \<and> line_ctl c then POk () (c # cs) else eol_slow cs)"

definition found_ctl :: "string \<Rightarrow> string \<Rightarrow> string pres" where
  "found_ctl token_start buf =
     deref buf (\<lambda>c.
       if c = CR then
         pbind (EXPECT_CHAR LF (tl buf)) (\<lambda>_ buf1.
           POk (take (length token_start - length buf1 - 2) token_start) buf1)
       else if c = LF then POk (between token_start buf) (tl buf)
       else PErr)"

definition get_token_to_eol :: "bool \<Rightarrow> string \<Rightarrow> string pres" where
  "get_token_to_eol sse token_start =
     (if sse
      then let (found, buf) = findchar_fast sse ranges1 token_start
           in pbind (if found then POk () buf else eol_slow buf) (\<lambda>_ buf1. found_ctl token_start buf1)
      else pbind (eol_unrolled token_start) (\<lambda>found buf.
             pbind (if found then POk () buf else eol_slow buf) (\<lambda>_ buf1. found_ctl token_start buf1)))"

section \<open>Completeness check\<close>

fun is_complete_loop :: "nat \<Rightarrow> string \<Rightarrow> unit pres" where
  "is_complete_loop ret_cnt [] = PPartial"
| "is_complete_loop ret_cnt (c # cs) =
     (if c = CR then
        (case cs of
           [] \<Rightarrow> PPartial
         | d # ds \<Rightarrow>
             if d \<noteq> LF then PErr
             else if Suc ret_cnt = 2 then POk () ds else is_complete_loop (Suc ret_cnt) ds)
      else if c = LF then
        (if Suc ret_cnt = 2 then POk () cs else is_complete_loop (Suc ret_cnt) cs)
      else is_complete_loop 0 cs)"

definition is_complete :: "string \<Rightarrow> nat \<Rightarrow> unit pres" where
  "is_complete buf last_len =
     (if last_len < 3 then is_complete_loop 0 buf
      else if last_len - 3 \<le> length buf then is_complete_loop 0 (drop (last_len - 3) buf)
      else PFault)"

section \<open>The request and status lines\<close>

definition PARSE_INT :: "nat \<Rightarrow> string \<Rightarrow> nat pres" where
  "PARSE_INT mul buf =
     deref buf (\<lambda>c. if code c < 48 \<or> 57 < code c then PErr else POk (mul * (code c - 48)) (tl buf))"

definition PARSE_INT_3 :: "string \<Rightarrow> nat pres" where
  "PARSE_INT_3 buf =
     pbind (PARSE_INT 100 buf) (\<lambda>a buf. pbind (PARSE_INT 10 buf) (\<lambda>b buf.
       pbind (PARSE_INT 1 buf) (\<lambda>c buf. POk (a + b + c) buf)))"

fun expect_chars :: "string \<Rightarrow> string \<Rightarrow> unit pres" where
  "expect_chars [] buf = POk () buf"
| "expect_chars (ch # chs) buf = pbind (EXPECT_CHAR_NO_CHECK ch buf) (\<lambda>_ buf. expect_chars chs buf)"

definition parse_http_version :: "string \<Rightarrow> nat pres" where
  "parse_http_version buf =
     (if length buf < 9 then PPartial
      else pbind (expect_chars ''HTTP/1.'' buf) (\<lambda>_ buf. PARSE_INT 1 buf))"

text \<open>\<^verbatim>\<open>do { ++buf; CHECK_EOF(); } while (*buf == ' ')\<close>.\<close>

fun skip_spaces :: "string \<Rightarrow> unit pres" where
  "skip_spaces [] = PFault"
| "skip_spaces (c # cs) =
     CHECK_EOF cs (deref cs (\<lambda>d. if d = SP then skip_spaces cs else POk () cs))"

section \<open>Headers\<close>

record phr_header =
  hname :: "string option"
  hvalue :: string

abbreviation blank :: "char \<Rightarrow> bool" where
  "blank c \<equiv> c = SP \<or> c = HT"

fun skip_blanks :: "string \<Rightarrow> unit pres" where
  "skip_blanks [] = PPartial"
| "skip_blanks (c # cs) = (if blank c then skip_blanks cs else POk () (c # cs))"

text \<open>The loop that moves \<^verbatim>\<open>value_end\<close> back over trailing blanks.\<close>

definition strip_trailing :: "string \<Rightarrow> string" where
  "strip_trailing v = rev (dropWhile blank (rev v))"

definition parse_header_name :: "bool \<Rightarrow> bool \<Rightarrow> string \<Rightarrow> string option pres" where
  "parse_header_name sse is_first buf =
     deref buf (\<lambda>c.
       if \<not> (\<not> is_first \<and> blank c) then
         pbind (parse_token sse (CHR '':'') buf) (\<lambda>name buf1.
           if length name = 0 then PErr
           else pbind (skip_blanks (tl buf1)) (\<lambda>_ buf2. POk (Some name) buf2))
       else POk None buf)"

text \<open>
  The loop of \<^verbatim>\<open>parse_headers\<close>: \<open>left\<close> is \<^verbatim>\<open>max_headers - *num_headers\<close>, \<open>headers\<close> what was stored.
\<close>

fun parse_headers :: "bool \<Rightarrow> nat \<Rightarrow> phr_header list \<Rightarrow> string \<Rightarrow> phr_header list pres" where
  "parse_headers sse left headers buf =
     CHECK_EOF buf (deref buf (\<lambda>c.
       if c = CR then pbind (EXPECT_CHAR LF (tl buf)) (\<lambda>_ buf1. POk headers buf1)
       else if c = LF then POk headers (tl buf)
       else case left of
              0 \<Rightarrow> PErr
            | Suc left' \<Rightarrow>
                pbind (parse_header_name sse (headers = []) buf) (\<lambda>name buf1.
                  pbind (get_token_to_eol sse buf1) (\<lambda>value buf2.
                    parse_headers sse left'
                      (headers @ [\<lparr>hname = name, hvalue = strip_trailing value\<rparr>]) buf2))))"

declare parse_headers.simps [simp del]

section \<open>Requests\<close>

record phr_request =
  req_method :: string
  req_path :: string
  req_minor_version :: nat
  req_headers :: "phr_header list"

text \<open>The line end after the version: CR LF, or LF alone.\<close>

definition expect_eol :: "string \<Rightarrow> unit pres" where
  "expect_eol buf =
     deref buf (\<lambda>c. if c = CR then EXPECT_CHAR LF (tl buf)
                    else if c = LF then POk () (tl buf) else PErr)"

text \<open>The empty line some clients send first.\<close>

definition skip_first_eol :: "string \<Rightarrow> unit pres" where
  "skip_first_eol buf =
     CHECK_EOF buf (deref buf (\<lambda>c.
       if c = CR then EXPECT_CHAR LF (tl buf) else if c = LF then POk () (tl buf) else POk () buf))"

definition parse_request :: "bool \<Rightarrow> nat \<Rightarrow> string \<Rightarrow> phr_request pres" where
  "parse_request sse max_headers buf =
     pbind (skip_first_eol buf) (\<lambda>_ buf.
     pbind (parse_token sse SP buf) (\<lambda>meth buf.
     pbind (skip_spaces buf) (\<lambda>_ buf.
     pbind (ADVANCE_TOKEN sse buf) (\<lambda>path buf.
     pbind (skip_spaces buf) (\<lambda>_ buf.
       if length meth = 0 \<or> length path = 0 then PErr
       else pbind (parse_http_version buf) (\<lambda>minor_version buf.
            pbind (expect_eol buf) (\<lambda>_ buf.
            pbind (parse_headers sse max_headers [] buf) (\<lambda>headers buf.
              POk \<lparr>req_method = meth, req_path = path, req_minor_version = minor_version,
                   req_headers = headers\<rparr> buf))))))))"

definition phr_parse_request :: "bool \<Rightarrow> nat \<Rightarrow> nat \<Rightarrow> string \<Rightarrow> phr_request pres" where
  "phr_parse_request sse max_headers last_len buf_start =
     (if last_len \<noteq> 0
      then pbind (is_complete buf_start last_len) (\<lambda>_ _. parse_request sse max_headers buf_start)
      else parse_request sse max_headers buf_start)"

section \<open>Responses\<close>

record phr_response =
  resp_minor_version :: nat
  resp_status :: nat
  resp_msg :: string
  resp_headers :: "phr_header list"

text \<open>
  \<^verbatim>\<open>do { ++*msg; --*msg_len; } while (**msg == ' ')\<close>: the message pointer walks over the buffer, so a
  read past its end would be a fault.
\<close>

fun strip_preceding :: "string \<Rightarrow> nat \<Rightarrow> string pres" where
  "strip_preceding [] msg_len = PFault"
| "strip_preceding (c # msg) msg_len =
     deref msg (\<lambda>d. if d = SP then strip_preceding msg (msg_len - 1)
                    else POk (take (msg_len - 1) msg) msg)"

definition parse_response :: "bool \<Rightarrow> nat \<Rightarrow> string \<Rightarrow> phr_response pres" where
  "parse_response sse max_headers buf =
     pbind (parse_http_version buf) (\<lambda>minor_version buf.
     deref buf (\<lambda>c. if c \<noteq> SP then PErr else
     pbind (skip_spaces buf) (\<lambda>_ buf.
       if length buf < 4 then PPartial
       else pbind (PARSE_INT_3 buf) (\<lambda>status msg_start.
            pbind (get_token_to_eol sse msg_start) (\<lambda>token buf.
            pbind (if length token = 0 then POk [] buf
                   else deref msg_start (\<lambda>m. if m = SP
                     then pbind (strip_preceding msg_start (length token)) (\<lambda>msg _. POk msg buf)
                     else PErr)) (\<lambda>msg buf.
            pbind (parse_headers sse max_headers [] buf) (\<lambda>headers buf.
              POk \<lparr>resp_minor_version = minor_version, resp_status = status, resp_msg = msg,
                   resp_headers = headers\<rparr> buf)))))))"

definition phr_parse_response :: "bool \<Rightarrow> nat \<Rightarrow> nat \<Rightarrow> string \<Rightarrow> phr_response pres" where
  "phr_parse_response sse max_headers last_len buf_start =
     (if last_len \<noteq> 0
      then pbind (is_complete buf_start last_len) (\<lambda>_ _. parse_response sse max_headers buf_start)
      else parse_response sse max_headers buf_start)"

definition phr_parse_headers :: "bool \<Rightarrow> nat \<Rightarrow> nat \<Rightarrow> string \<Rightarrow> phr_header list pres" where
  "phr_parse_headers sse max_headers last_len buf_start =
     (if last_len \<noteq> 0
      then pbind (is_complete buf_start last_len) (\<lambda>_ _. parse_headers sse max_headers [] buf_start)
      else parse_headers sse max_headers [] buf_start)"

end
