(* ===== verification/Pico_Laws.thy ===== *)
theory Pico_Laws
  imports Pico
begin

text \<open>
  The laws of the parser that its clients use: the vectorised and unrolled scanners compute what a
  plain scan computes; no parse reads outside its buffer; the result of a parse that succeeded or
  failed does not change when more bytes arrive, while an incomplete one asks for more.
\<close>

named_theorems parser_stable \<open>stability of results under more input\<close>

section \<open>Sequencing\<close>

lemma pbind_simps [simp]:
  "pbind m f = POk v r \<longleftrightarrow> (\<exists>w s. m = POk w s \<and> f w s = POk v r)"
  "pbind m f = PErr \<longleftrightarrow> m = PErr \<or> (\<exists>w s. m = POk w s \<and> f w s = PErr)"
  "pbind m f = PPartial \<longleftrightarrow> m = PPartial \<or> (\<exists>w s. m = POk w s \<and> f w s = PPartial)"
  "pbind m f = PFault \<longleftrightarrow> m = PFault \<or> (\<exists>w s. m = POk w s \<and> f w s = PFault)"
  by (cases m; auto)+

lemma CHECK_EOF_simps [simp]:
  "CHECK_EOF [] k = PPartial" "CHECK_EOF (c # cs) k = k"
  "CHECK_EOF buf k = POk v r \<longleftrightarrow> buf \<noteq> [] \<and> k = POk v r"
  "CHECK_EOF buf k = PErr \<longleftrightarrow> buf \<noteq> [] \<and> k = PErr"
  "CHECK_EOF buf k = PFault \<longleftrightarrow> buf \<noteq> [] \<and> k = PFault"
  by (auto simp: CHECK_EOF_def)

lemma deref_simps [simp]:
  "deref [] f = PFault" "deref (c # cs) f = f c"
  by (simp_all add: deref_def)

lemma between_append [simp]: "between (pre @ buf) buf = pre"
  by (simp add: between_def)

section \<open>The vectorised scan\<close>

lemma findchar_blocks_split:
  "findchar_blocks ranges k buf = (found, buf') \<Longrightarrow> 16 * k \<le> length buf \<Longrightarrow>
   \<exists>pre. buf = pre @ buf' \<and> (\<forall>c \<in> set pre. \<not> in_ranges ranges c) \<and> (found \<longrightarrow> buf' \<noteq> [])"
proof (induction ranges k buf rule: findchar_blocks.induct)
  case (1 ranges buf)
  then show ?case by auto
next
  case (2 ranges k buf)
  define ok where "ok = takeWhile (\<lambda>c. \<not> in_ranges ranges c) (take 16 buf)"
  have r: "mm_cmpestri ranges (take 16 buf) = length ok"
    by (simp add: mm_cmpestri_def ok_def)
  have ok_take: "ok = take (length ok) buf"
    unfolding ok_def by (metis length_takeWhile_le takeWhile_eq_take take_take min.absorb1 length_take min.bounded_iff)
  have ok_clean: "\<forall>c \<in> set ok. \<not> in_ranges ranges c"
    unfolding ok_def by (auto dest: set_takeWhileD)
  have len: "length ok \<le> 16"
    using length_takeWhile_le [of "\<lambda>c. \<not> in_ranges ranges c" "take 16 buf"] by (simp add: ok_def)
  show ?case
  proof (cases "length ok = 16")
    case True
    with 2 r have "findchar_blocks ranges k (drop 16 buf) = (found, buf')" by simp
    moreover have "16 * k \<le> length (drop 16 buf)" using "2.prems"(2) by simp
    ultimately obtain pre where "drop 16 buf = pre @ buf'" "\<forall>c \<in> set pre. \<not> in_ranges ranges c"
      "found \<longrightarrow> buf' \<noteq> []" using "2.IH" r True by (metis (no_types, lifting))
    moreover have "buf = ok @ drop 16 buf" using ok_take True by (metis append_take_drop_id)
    ultimately show ?thesis using ok_clean by (intro exI [of _ "ok @ pre"]) auto
  next
    case False
    with 2 r have "found" "buf' = drop (length ok) buf" by auto
    moreover have "length ok < length buf" using len False "2.prems"(2) by simp
    ultimately show ?thesis using ok_take ok_clean
      by (intro exI [of _ ok]) (metis append_take_drop_id drop_eq_Nil linorder_not_less)
  qed
qed

lemma findchar_fast_split:
  assumes "findchar_fast sse ranges buf = (found, buf')"
  obtains pre where "buf = pre @ buf'" "\<And>c. c \<in> set pre \<Longrightarrow> \<not> in_ranges ranges c"
    "found \<Longrightarrow> buf' \<noteq> []"
proof (cases "sse \<and> length buf \<ge> 16")
  case True
  with assms findchar_blocks_split [of ranges "length buf div 16" buf found buf'] that show ?thesis
    by (auto simp: findchar_fast_def)
next
  case False
  with assms that [of "[]"] show ?thesis by (auto simp: findchar_fast_def)
qed

text \<open>The character map is the set of token characters of RFC 7230.\<close>

definition tchar :: "nat \<Rightarrow> bool" where
  "tchar n \<longleftrightarrow> n = 33 \<or> 35 \<le> n \<and> n \<le> 39 \<or> n = 42 \<or> n = 43 \<or> n = 45 \<or> n = 46 \<or>
     48 \<le> n \<and> n \<le> 57 \<or> 65 \<le> n \<and> n \<le> 90 \<or> 94 \<le> n \<and> n \<le> 122 \<or> n = 124 \<or> n = 126"

lemma token_char_map_low: "list_all2 (\<lambda>n b. (b \<noteq> 0) = tchar n) [0..<128] (take 128 token_char_map)"
  by (simp add: token_char_map_def tchar_def upt_conv_Cons)

lemma token_char_map_high: "drop 128 token_char_map = replicate 128 0"
  by (simp add: token_char_map_def)

lemma length_token_char_map: "length token_char_map = 256"
  by (simp add: token_char_map_def)

lemma is_token_char_iff: "is_token_char c \<longleftrightarrow> tchar (code c)"
proof (cases "code c < 128")
  case True
  then show ?thesis
    using list_all2_nthD [OF token_char_map_low, of "code c"] by (simp add: is_token_char_def)
next
  case False
  then have "token_char_map ! code c = drop 128 token_char_map ! (code c - 128)"
    using nat_of_char_less_256 [of c] length_token_char_map by (simp add: nth_drop)
  then have "token_char_map ! code c = 0"
    using False nat_of_char_less_256 [of c] by (simp add: token_char_map_high)
  with False show ?thesis by (simp add: is_token_char_def tchar_def)
qed

lemma clean_token: "\<not> in_ranges parse_token_ranges c \<Longrightarrow> is_token_char c \<and> c \<noteq> SP \<and> c \<noteq> CHR '':''"
proof -
  assume "\<not> in_ranges parse_token_ranges c"
  then have n: "33 \<le> code c" "code c \<noteq> 34" "code c < 40 \<or> 41 < code c" "code c \<noteq> 44" "code c \<noteq> 47"
    "code c < 58 \<or> 64 < code c" "code c < 91 \<or> 93 < code c" "code c < 123"
    using nat_of_char_less_256 [of c]
    by (simp_all add: in_ranges_def parse_token_ranges_def not_le) linarith+
  then have "tchar (code c)" unfolding tchar_def by presburger
  moreover have "c \<noteq> SP" using n(1) by auto
  moreover have "c \<noteq> CHR '':''" using n(6) by auto
  ultimately show "is_token_char c \<and> c \<noteq> SP \<and> c \<noteq> CHR '':''" by (simp add: is_token_char_iff)
qed

lemma clean_path: "\<not> in_ranges ranges2 c \<Longrightarrow> c \<noteq> SP \<and> \<not> (code c < 32 \<or> code c = 127)"
  by (auto simp: in_ranges_def ranges2_def)

lemma code_HT: "c = HT \<longleftrightarrow> code c = 9"
  using of_char_eq_iff [of c HT, where ?'a = nat] by simp

lemma clean_line: "\<not> in_ranges ranges1 c \<Longrightarrow> \<not> line_ctl c"
  by (auto simp: in_ranges_def ranges1_def line_ctl_def code_HT)

section \<open>Every scanner is the plain scan\<close>

lemma parse_token_loop_skip:
  "(\<And>c. c \<in> set pre \<Longrightarrow> is_token_char c \<and> c \<noteq> nc) \<Longrightarrow>
   parse_token_loop nc (pre @ c # cs) = parse_token_loop nc (c # cs)"
  by (induction pre) (auto simp: CHECK_EOF_def)

lemma parse_token_loop_partial:
  "pre \<noteq> [] \<Longrightarrow> (\<And>c. c \<in> set pre \<Longrightarrow> is_token_char c \<and> c \<noteq> nc) \<Longrightarrow> parse_token_loop nc pre = PPartial"
  by (induction pre) (auto simp: CHECK_EOF_def)

lemma parse_token_plain:
  assumes "nc = SP \<or> nc = CHR '':''"
  shows "parse_token sse nc buf =
    CHECK_EOF buf (pbind (parse_token_loop nc buf) (\<lambda>_ r. POk (between buf r) r))"
proof -
  obtain found buf' where f: "findchar_fast sse parse_token_ranges buf = (found, buf')" by fastforce
  obtain pre where pre: "buf = pre @ buf'" "\<And>c. c \<in> set pre \<Longrightarrow> \<not> in_ranges parse_token_ranges c"
    "found \<Longrightarrow> buf' \<noteq> []" using findchar_fast_split [OF f] by blast
  have clean: "\<And>c. c \<in> set pre \<Longrightarrow> is_token_char c \<and> c \<noteq> nc"
    using pre(2) clean_token assms by blast
  show ?thesis
  proof (cases buf')
    case Nil
    with pre have "\<not> found" by auto
    with Nil f pre(1) clean show ?thesis
      by (cases "pre = []") (auto simp: parse_token_def parse_token_loop_partial CHECK_EOF_def)
  next
    case (Cons c cs)
    then have "parse_token_loop nc buf = parse_token_loop nc buf'"
      using pre(1) clean by (simp add: parse_token_loop_skip)
    with Cons f pre(1) show ?thesis by (simp add: parse_token_def CHECK_EOF_def)
  qed
qed

lemma advance_token_loop_skip:
  "(\<And>c. c \<in> set pre \<Longrightarrow> c \<noteq> SP \<and> \<not> (code c < 32 \<or> code c = 127)) \<Longrightarrow>
   advance_token_loop (pre @ c # cs) = advance_token_loop (c # cs)"
  by (induction pre) (auto simp: CHECK_EOF_def)

lemma advance_token_loop_partial:
  "pre \<noteq> [] \<Longrightarrow> (\<And>c. c \<in> set pre \<Longrightarrow> c \<noteq> SP \<and> \<not> (code c < 32 \<or> code c = 127)) \<Longrightarrow>
   advance_token_loop pre = PPartial"
  by (induction pre) (auto simp: CHECK_EOF_def)

lemma ADVANCE_TOKEN_plain:
  "ADVANCE_TOKEN sse buf =
    CHECK_EOF buf (pbind (advance_token_loop buf) (\<lambda>_ r. POk (between buf r) r))"
proof -
  obtain found buf' where f: "findchar_fast sse ranges2 buf = (found, buf')" by fastforce
  obtain pre where pre: "buf = pre @ buf'" "\<And>c. c \<in> set pre \<Longrightarrow> \<not> in_ranges ranges2 c"
    "found \<Longrightarrow> buf' \<noteq> []" using findchar_fast_split [OF f] by blast
  have clean: "\<And>c. c \<in> set pre \<Longrightarrow> c \<noteq> SP \<and> \<not> (code c < 32 \<or> code c = 127)"
    using pre(2) clean_path by blast
  show ?thesis
  proof (cases buf')
    case Nil
    with pre have "\<not> found" by auto
    with Nil f pre(1) clean show ?thesis
      by (cases "pre = []") (auto simp: ADVANCE_TOKEN_def advance_token_loop_partial CHECK_EOF_def)
  next
    case (Cons c cs)
    then have "advance_token_loop buf = advance_token_loop buf'"
      using pre(1) clean by (simp add: advance_token_loop_skip)
    with Cons f pre(1) show ?thesis by (simp add: ADVANCE_TOKEN_def CHECK_EOF_def)
  qed
qed

lemma IS_PRINTABLE_ASCII_iff: "IS_PRINTABLE_ASCII c \<longleftrightarrow> 32 \<le> code c \<and> code c \<le> 126"
proof -
  have w: "(of_char c :: u32) = word_of_nat (code c)" by (simp add: of_nat_of_char)
  have u: "unat (of_char c :: u32) = code c"
    unfolding w unat_of_nat by (rule mod_less) (rule less_le_trans [OF nat_of_char_less_256], simp)
  show ?thesis
  proof (cases "32 \<le> code c")
    case True
    then have "unat ((of_char c :: u32) - 32) = code c - 32"
      using u by (simp add: unat_sub word_le_nat_alt)
    with True show ?thesis by (auto simp: IS_PRINTABLE_ASCII_def word_less_nat_alt)
  next
    case False
    then have "unat ((of_char c :: u32) - 32) = 2 ^ 32 + code c - 32"
      using u by (simp add: unat_sub_if_size word_le_nat_alt word_size)
    with False show ?thesis by (auto simp: IS_PRINTABLE_ASCII_def word_less_nat_alt)
  qed
qed

lemma line_ctl_not_printable: "line_ctl c \<Longrightarrow> \<not> IS_PRINTABLE_ASCII c"
  by (auto simp: line_ctl_def IS_PRINTABLE_ASCII_iff)

lemma eol_slow_skip:
  "(\<And>c. c \<in> set pre \<Longrightarrow> \<not> line_ctl c) \<Longrightarrow> eol_slow (pre @ buf) = eol_slow buf"
  by (induction pre) auto

lemma eol_slow_ctl: "line_ctl c \<Longrightarrow> eol_slow (c # cs) = POk () (c # cs)"
  by (simp add: line_ctl_not_printable)

lemma DOIT_split:
  "n \<le> length buf \<Longrightarrow> \<exists>b pre buf'. DOIT n buf = POk b buf' \<and> buf = pre @ buf' \<and>
     (\<forall>c \<in> set pre. IS_PRINTABLE_ASCII c) \<and> (\<not> b \<longrightarrow> buf' \<noteq> [])"
proof (induction n buf rule: DOIT.induct)
  case (3 n c cs)
  show ?case
  proof (cases "IS_PRINTABLE_ASCII c")
    case True
    with 3 obtain b pre buf' where "DOIT n cs = POk b buf'" "cs = pre @ buf'"
      "\<forall>c \<in> set pre. IS_PRINTABLE_ASCII c" "\<not> b \<longrightarrow> buf' \<noteq> []" by auto
    with True show ?thesis by (intro exI [of _ b] exI [of _ "c # pre"] exI [of _ buf']) simp
  qed auto
qed auto

lemma printable_not_ctl: "IS_PRINTABLE_ASCII c \<Longrightarrow> \<not> line_ctl c"
  using line_ctl_not_printable by blast

text \<open>The unrolled loop splits its input behind characters that do not end a line.\<close>

definition eol_split :: "string \<Rightarrow> bool" where
  "eol_split buf \<longleftrightarrow> (\<exists>found pre buf'. eol_unrolled buf = POk found buf' \<and> buf = pre @ buf' \<and>
     (\<forall>c \<in> set pre. \<not> line_ctl c) \<and> (found \<longrightarrow> buf' \<noteq> [] \<and> line_ctl (hd buf')))"

lemma eol_splitI:
  "eol_unrolled buf = POk found buf' \<Longrightarrow> buf = pre @ buf' \<Longrightarrow> \<forall>c \<in> set pre. \<not> line_ctl c \<Longrightarrow>
   found \<longrightarrow> buf' \<noteq> [] \<and> line_ctl (hd buf') \<Longrightarrow> eol_split buf"
  unfolding eol_split_def by blast

lemma eol_split_behind:
  assumes "eol_split buf1" "eol_unrolled buf = eol_unrolled buf1" "buf = pre @ buf1" "\<forall>c \<in> set pre. \<not> line_ctl c"
  shows "eol_split buf"
proof -
  obtain found pre' buf' where "eol_unrolled buf1 = POk found buf'" "buf1 = pre' @ buf'"
    "\<forall>c \<in> set pre'. \<not> line_ctl c" "found \<longrightarrow> buf' \<noteq> [] \<and> line_ctl (hd buf')"
    using assms(1) by (auto simp: eol_split_def)
  with assms(2-4) show ?thesis by (intro eol_splitI [of buf found buf' "pre @ pre'"]) auto
qed

lemma eol_unrolled_split: "eol_split buf"
proof (induction "length buf" arbitrary: buf rule: less_induct)
  case less
  show ?case
  proof (cases "8 \<le> length buf")
    case False
    then show ?thesis by (intro eol_splitI [of buf False buf "[]"]) (simp_all add: eol_unrolled.simps [of buf])
  next
    case True
    then obtain b pre buf1 where d: "DOIT 8 buf = POk b buf1" "buf = pre @ buf1"
      "\<forall>c \<in> set pre. IS_PRINTABLE_ASCII c" "\<not> b \<longrightarrow> buf1 \<noteq> []" using DOIT_split by blast
    have clean: "\<forall>c \<in> set pre. \<not> line_ctl c" using d(3) printable_not_ctl by blast
    note loop = eol_unrolled.simps [of buf]
    consider "b" | c cs where "\<not> b" "buf1 = c # cs" "line_ctl c" | c cs where "\<not> b" "buf1 = c # cs" "\<not> line_ctl c"
      using d(4) by (cases buf1) auto
    then show ?thesis
    proof cases
      case 1
      then have "length buf1 < length buf" using d(1) DOIT_length [OF d(1)] by simp
      from eol_split_behind [OF less [OF this] _ d(2) clean] 1 True d(1) show ?thesis by (simp add: loop)
    next
      case (2 c cs)
      then have "eol_unrolled buf = POk True buf1" using True d(1) by (simp add: loop)
      with 2 d(2) clean show ?thesis by (intro eol_splitI [of buf True buf1 pre]) simp_all
    next
      case (3 c cs)
      then have "length cs < length buf" using d(2) by simp
      moreover have "eol_unrolled buf = eol_unrolled cs" using 3 True d(1) by (simp add: loop)
      ultimately show ?thesis using eol_split_behind [OF less, of cs buf "pre @ [c]"] 3 d(2) clean by auto
    qed
  qed
qed

lemma findchar_blocks_hit:
  "findchar_blocks ranges k buf = (True, buf') \<Longrightarrow> 16 * k \<le> length buf \<Longrightarrow> in_ranges ranges (hd buf')"
proof (induction ranges k buf rule: findchar_blocks.induct)
  case (2 ranges k buf)
  let ?ok = "takeWhile (\<lambda>c. \<not> in_ranges ranges c) (take 16 buf)"
  show ?case
  proof (cases "length ?ok = 16")
    case True
    with 2 show ?thesis by (simp add: mm_cmpestri_def Let_def)
  next
    case False
    then have less: "length ?ok < length (take 16 buf)"
      using length_takeWhile_le [of "\<lambda>c. \<not> in_ranges ranges c" "take 16 buf"] "2.prems"(2) by simp
    have buf': "buf' = drop (length ?ok) buf" using "2.prems"(1) False by (simp add: mm_cmpestri_def Let_def)
    have "hd buf' = take 16 buf ! length ?ok"
      using less unfolding buf' by (simp add: hd_drop_conv_nth)
    with nth_length_takeWhile [OF less] show ?thesis by simp
  qed
qed simp

lemma line_ctl_ranges1: "in_ranges ranges1 c \<Longrightarrow> line_ctl c"
  by (auto simp: in_ranges_def ranges1_def line_ctl_def code_HT)

lemma get_token_to_eol_plain:
  "get_token_to_eol sse buf = pbind (eol_slow buf) (\<lambda>_ b. found_ctl buf b)"
proof -
  have plain: "pbind (if found then POk () buf' else eol_slow buf') (\<lambda>_ b. found_ctl buf b) =
      pbind (eol_slow buf) (\<lambda>_ b. found_ctl buf b)"
    if "buf = pre @ buf'" "\<forall>c \<in> set pre. \<not> line_ctl c" "found \<longrightarrow> buf' \<noteq> [] \<and> line_ctl (hd buf')"
    for found pre buf'
    using that eol_slow_skip [of pre buf'] by (cases buf') (auto simp: eol_slow_ctl simp del: eol_slow.simps(2))
  show ?thesis
  proof (cases sse)
    case True
    obtain found buf' where f: "findchar_fast sse ranges1 buf = (found, buf')" by fastforce
    obtain pre where pre: "buf = pre @ buf'" "\<And>c. c \<in> set pre \<Longrightarrow> \<not> in_ranges ranges1 c"
      "found \<Longrightarrow> buf' \<noteq> []" using findchar_fast_split [OF f] by blast
    have "found \<longrightarrow> line_ctl (hd buf')"
      using f findchar_blocks_hit [of ranges1 "length buf div 16" buf buf'] line_ctl_ranges1
      by (auto simp: findchar_fast_def split: if_splits)
    with plain [of pre buf' found] pre clean_line f True show ?thesis
      by (auto simp: get_token_to_eol_def)
  next
    case False
    obtain found pre buf' where e: "eol_unrolled buf = POk found buf'" "buf = pre @ buf'"
      "\<forall>c \<in> set pre. \<not> line_ctl c" "found \<longrightarrow> buf' \<noteq> [] \<and> line_ctl (hd buf')"
      using eol_unrolled_split [of buf] unfolding eol_split_def by blast
    with plain [of pre buf' found] False show ?thesis by (simp add: get_token_to_eol_def)
  qed
qed

lemma parse_header_name_sse: "parse_header_name True b buf = parse_header_name False b buf"
  using parse_token_plain [of "CHR '':''" True buf] parse_token_plain [of "CHR '':''" False buf]
  by (simp add: parse_header_name_def cong: if_cong)

lemma get_token_to_eol_sse: "get_token_to_eol True buf = get_token_to_eol False buf"
  by (simp add: get_token_to_eol_plain)

lemma parse_headers_sse: "parse_headers True left = parse_headers False left"
proof (induction left)
  case 0
  have "parse_headers True 0 hs buf = parse_headers False 0 hs buf" for hs buf
    by (cases buf) (simp_all add: parse_headers.simps [of _ 0])
  then show ?case by (intro ext)
next
  case (Suc left)
  have "parse_headers True (Suc left) hs buf = parse_headers False (Suc left) hs buf" for hs buf
    by (simp add: parse_headers.simps [of _ "Suc left"] parse_header_name_sse get_token_to_eol_sse Suc
        cong: if_cong)
  then show ?case by (intro ext)
qed

lemma parse_request_sse: "parse_request True m buf = parse_request False m buf"
  by (simp add: parse_request_def parse_headers_sse get_token_to_eol_sse parse_token_plain [of SP]
      ADVANCE_TOKEN_plain cong: if_cong)

lemma parse_response_sse: "parse_response True m buf = parse_response False m buf"
  by (simp add: parse_response_def parse_headers_sse get_token_to_eol_sse cong: if_cong)

section \<open>Results do not change when more bytes arrive\<close>

text \<open>
  At \<open>xs\<close> the parser \<open>p\<close> is stable: it does not read outside \<open>xs\<close>; a success consumes a prefix of
  \<open>xs\<close> and, like a failure, is the result for every longer input too.
\<close>

definition stable_at :: "(string \<Rightarrow> 'a pres) \<Rightarrow> string \<Rightarrow> bool" where
  "stable_at p xs \<longleftrightarrow>
     p xs \<noteq> PFault \<and>
     (\<forall>v r. p xs = POk v r \<longrightarrow> suffix r xs \<and> (\<forall>ys. p (xs @ ys) = POk v (r @ ys))) \<and>
     (p xs = PErr \<longrightarrow> (\<forall>ys. p (xs @ ys) = PErr))"

lemma stable_at_okD:
  "stable_at p xs \<Longrightarrow> p xs = POk v r \<Longrightarrow> suffix r xs"
  "stable_at p xs \<Longrightarrow> p xs = POk v r \<Longrightarrow> p (xs @ ys) = POk v (r @ ys)"
  by (simp_all add: stable_at_def)

lemma stable_at_pbind [parser_stable]:
  assumes p: "stable_at p xs" and q: "\<And>v r. p xs = POk v r \<Longrightarrow> stable_at (q v) r"
  shows "stable_at (\<lambda>buf. pbind (p buf) q) xs"
proof (cases "p xs")
  case (POk v r)
  have "suffix s xs" if "q v r = POk w s" for w s
    using stable_at_okD(1) [OF q [OF POk] that] stable_at_okD(1) [OF p POk]
    by (rule suffix_order.trans)
  with p q [OF POk] POk show ?thesis by (simp add: stable_at_def)
qed (use p in \<open>auto simp: stable_at_def\<close>)

lemma stable_at_CHECK_EOF [parser_stable]:
  "(xs \<noteq> [] \<Longrightarrow> stable_at p xs) \<Longrightarrow> stable_at (\<lambda>buf. CHECK_EOF buf (p buf)) xs"
  by (auto simp: stable_at_def CHECK_EOF_def)

lemma stable_at_deref [parser_stable]:
  "xs \<noteq> [] \<Longrightarrow> (\<And>c cs. xs = c # cs \<Longrightarrow> stable_at (q c) xs) \<Longrightarrow>
   stable_at (\<lambda>buf. deref buf (\<lambda>c. q c buf)) xs"
  by (cases xs) (auto simp: stable_at_def)

lemma stable_at_tl [parser_stable]:
  assumes "xs \<noteq> []" and p: "stable_at p (tl xs)"
  shows "stable_at (\<lambda>buf. p (tl buf)) xs"
proof -
  obtain c cs where xs: "xs = c # cs" using assms(1) by (cases xs) auto
  show ?thesis
    using p unfolding stable_at_def xs by (simp only: list.sel append_Cons) (metis suffix_ConsI)
qed

lemma stable_at_const [parser_stable]:
  "stable_at (\<lambda>_. PErr) xs" "stable_at (\<lambda>_. PPartial) xs" "stable_at (POk v) xs"
  by (simp_all add: stable_at_def)

lemma stable_at_if [parser_stable]:
  "(b \<Longrightarrow> stable_at p xs) \<Longrightarrow> (\<not> b \<Longrightarrow> stable_at q xs) \<Longrightarrow> stable_at (\<lambda>buf. if b then p buf else q buf) xs"
  by (cases b) simp_all

lemma stable_at_short [parser_stable]:
  "(n \<le> length xs \<Longrightarrow> stable_at p xs) \<Longrightarrow>
   stable_at (\<lambda>buf. if length buf < n then PPartial else p buf) xs"
  by (auto simp: stable_at_def)

lemma stable_at_EXPECT_CHAR_NO_CHECK [parser_stable]:
  "xs \<noteq> [] \<Longrightarrow> stable_at (EXPECT_CHAR_NO_CHECK ch) xs"
  by (cases xs) (auto simp: stable_at_def EXPECT_CHAR_NO_CHECK_def intro: suffix_ConsI)

lemma stable_at_EXPECT_CHAR [parser_stable]: "stable_at (EXPECT_CHAR ch) xs"
  by (cases xs) (auto simp: stable_at_def EXPECT_CHAR_def EXPECT_CHAR_NO_CHECK_def intro: suffix_ConsI)

lemma stable_at_parse_token_loop: "xs \<noteq> [] \<Longrightarrow> stable_at (parse_token_loop nc) xs"
  by (induction nc xs rule: parse_token_loop.induct)
    (auto simp: stable_at_def CHECK_EOF_def intro: suffix_ConsI)

lemma stable_at_advance_token_loop: "xs \<noteq> [] \<Longrightarrow> stable_at advance_token_loop xs"
  by (induction xs rule: advance_token_loop.induct)
    (auto simp: stable_at_def CHECK_EOF_def intro: suffix_ConsI)

lemma stable_at_eol_slow: "stable_at eol_slow xs"
  by (induction xs rule: eol_slow.induct) (auto simp: stable_at_def intro: suffix_ConsI)

lemma stable_at_skip_spaces [parser_stable]: "xs \<noteq> [] \<Longrightarrow> stable_at skip_spaces xs"
proof (induction xs rule: skip_spaces.induct)
  case (2 c cs)
  then show ?case
    by (cases cs) (auto simp: stable_at_def intro: suffix_ConsI)
qed simp

lemma stable_at_skip_blanks [parser_stable]: "stable_at skip_blanks xs"
  by (induction xs rule: skip_blanks.induct) (auto simp: stable_at_def intro: suffix_ConsI)
section \<open>What the scanners return\<close>

lemma stable_at_token:
  assumes "stable_at p xs"
  shows "stable_at (\<lambda>buf. pbind (p buf) (\<lambda>_ r. POk (between buf r) r)) xs"
proof -
  have "between (xs @ ys) (r @ ys) = between xs r" if "p xs = POk v r" for v r ys
    using stable_at_okD(1) [OF assms that] by (auto simp: suffix_def between_def)
  with assms show ?thesis by (auto simp: stable_at_def)
qed

lemma parse_token_loop_ok:
  "parse_token_loop nc xs = POk u r \<Longrightarrow>
   \<exists>v r'. xs = v @ r \<and> r = nc # r' \<and> (\<forall>c \<in> set v. is_token_char c \<and> c \<noteq> nc)"
proof (induction nc xs rule: parse_token_loop.induct)
  case (2 nc c cs)
  show ?case
  proof (cases "c = nc")
    case False
    with 2 obtain v r' where "cs = v @ r \<and> r = nc # r' \<and> (\<forall>c \<in> set v. is_token_char c \<and> c \<noteq> nc)"
      by (auto split: if_splits)
    with 2 False show ?thesis by (intro exI [of _ "c # v"] exI [of _ r']) (auto split: if_splits)
  qed (use 2 in auto)
qed simp

lemma parse_token_ok:
  assumes "nc = SP \<or> nc = CHR '':''" and "parse_token sse nc xs = POk v r"
  obtains r' where "xs = v @ r" "r = nc # r'" "\<forall>c \<in> set v. is_token_char c"
proof -
  obtain b where b: "parse_token_loop nc xs = POk () b" "v = between xs b" "r = b"
    using assms by (auto simp: parse_token_plain [OF assms(1)])
  with parse_token_loop_ok [OF b(1)] that show thesis by auto
qed

lemma stable_at_parse_token [parser_stable]:
  assumes "nc = SP \<or> nc = CHR '':''"
  shows "stable_at (parse_token sse nc) xs"
proof -
  have "parse_token sse nc =
      (\<lambda>buf. CHECK_EOF buf (pbind (parse_token_loop nc buf) (\<lambda>_ r. POk (between buf r) r)))"
    by (intro ext parse_token_plain assms)
  then show ?thesis
    by (simp only:) (intro stable_at_CHECK_EOF stable_at_token stable_at_parse_token_loop)
qed

abbreviation path_char :: "char \<Rightarrow> bool" where
  "path_char c \<equiv> 32 < code c \<and> code c \<noteq> 127"

lemma code_SP: "c = SP \<longleftrightarrow> code c = 32"
  using of_char_eq_iff [of c SP, where ?'a = nat] by simp

lemma advance_token_loop_ok:
  "advance_token_loop xs = POk u r \<Longrightarrow>
   \<exists>v r'. xs = v @ r \<and> r = SP # r' \<and> (\<forall>c \<in> set v. path_char c)"
proof (induction xs rule: advance_token_loop.induct)
  case (2 c cs)
  show ?case
  proof (cases "c = SP")
    case False
    then have c: "path_char c" and step: "advance_token_loop cs = POk u r"
      using "2.prems" by (auto simp: code_SP IS_PRINTABLE_ASCII_iff split: if_splits)
    with 2 False obtain v r' where "cs = v @ r \<and> r = SP # r' \<and> (\<forall>c \<in> set v. path_char c)"
      by (auto split: if_splits)
    with c show ?thesis by (intro exI [of _ "c # v"] exI [of _ r']) auto
  qed (use 2 in auto)
qed simp

lemma ADVANCE_TOKEN_ok:
  assumes "ADVANCE_TOKEN sse xs = POk v r"
  obtains r' where "xs = v @ r" "r = SP # r'" "\<forall>c \<in> set v. path_char c"
proof -
  obtain b where b: "advance_token_loop xs = POk () b" "v = between xs b" "r = b"
    using assms by (auto simp: ADVANCE_TOKEN_plain)
  with advance_token_loop_ok [OF b(1)] that show thesis by auto
qed

lemma stable_at_ADVANCE_TOKEN [parser_stable]: "stable_at (ADVANCE_TOKEN sse) xs"
  unfolding ADVANCE_TOKEN_plain [abs_def]
  by (intro stable_at_CHECK_EOF stable_at_token stable_at_advance_token_loop)

lemma eol_slow_char: "eol_slow (c # cs) = (if line_ctl c then POk () (c # cs) else eol_slow cs)"
  using line_ctl_not_printable [of c] by auto

lemma eol_slow_dropWhile:
  "eol_slow xs = (case dropWhile (\<lambda>c. \<not> line_ctl c) xs of [] \<Rightarrow> PPartial | c # cs \<Rightarrow> POk () (c # cs))"
  by (induction xs) (simp_all add: eol_slow_char del: eol_slow.simps(2))

lemma get_token_to_eol_line:
  assumes "\<forall>c \<in> set v. \<not> line_ctl c" and "line_ctl c"
  shows "get_token_to_eol sse (v @ c # cs) =
    (if c = CR then CHECK_EOF cs (deref cs (\<lambda>d. if d = LF then POk v (tl cs) else PErr))
     else if c = LF then POk v cs else PErr)"
proof -
  have "eol_slow (v @ c # cs) = POk () (c # cs)"
    using assms by (simp add: eol_slow_skip eol_slow_ctl del: eol_slow.simps(2))
  then show ?thesis
    by (cases cs) (simp_all add: get_token_to_eol_plain found_ctl_def EXPECT_CHAR_def
        EXPECT_CHAR_NO_CHECK_def)
qed

lemma get_token_to_eol_open:
  "\<forall>c \<in> set v. \<not> line_ctl c \<Longrightarrow> get_token_to_eol sse v = PPartial"
  using eol_slow_skip [of v "[]"] by (simp add: get_token_to_eol_plain)

lemma line_cases:
  obtains (closed) v c cs where "xs = v @ c # cs" "\<forall>c \<in> set v. \<not> line_ctl c" "line_ctl c"
  | (opened) "\<forall>c \<in> set xs. \<not> line_ctl c"
proof (cases "\<exists>c \<in> set xs. line_ctl c")
  case True
  then show thesis using split_list_first_prop [of xs line_ctl] closed by metis
qed (use opened in blast)

lemma get_token_to_eol_ok:
  assumes "get_token_to_eol sse xs = POk v r"
  obtains nl where "xs = v @ nl @ r" "nl = [CR, LF] \<or> nl = [LF]" "\<forall>c \<in> set v. \<not> line_ctl c"
proof (cases xs rule: line_cases)
  case (closed w c cs)
  with assms that [of "[CR, LF]"] that [of "[LF]"] show ?thesis
    by (cases cs) (auto simp: get_token_to_eol_line split: if_splits)
next
  case opened
  with assms show ?thesis by (simp add: get_token_to_eol_open)
qed

lemma stable_at_get_token_to_eol [parser_stable]: "stable_at (get_token_to_eol sse) xs"
proof (cases xs rule: line_cases)
  case (closed v c cs)
  then show ?thesis
    by (cases cs) (auto simp: stable_at_def get_token_to_eol_line suffix_def split: if_splits)
qed (simp add: stable_at_def get_token_to_eol_open)
section \<open>Whole messages\<close>

lemma PARSE_INT_ok:
  "PARSE_INT mul xs = POk v r \<Longrightarrow>
   \<exists>c. xs = c # r \<and> is_digit c \<and> v = mul * digit_val c"
  by (cases xs) (auto simp: PARSE_INT_def is_digit_def digit_val_def split: if_splits)

lemma stable_at_PARSE_INT [parser_stable]: "xs \<noteq> [] \<Longrightarrow> stable_at (PARSE_INT mul) xs"
  by (cases xs) (auto simp: stable_at_def PARSE_INT_def intro: suffix_ConsI)

lemma expect_chars_ok: "expect_chars chs xs = POk u r \<longleftrightarrow> xs = chs @ r"
proof (induction chs arbitrary: xs)
  case (Cons c chs)
  then show ?case by (cases xs) (auto simp: EXPECT_CHAR_NO_CHECK_def)
qed auto

lemma stable_at_expect_chars: "length chs \<le> length xs \<Longrightarrow> stable_at (expect_chars chs) xs"
proof (induction chs arbitrary: xs)
  case (Cons c chs)
  then show ?case
    by (cases xs) (auto simp: EXPECT_CHAR_NO_CHECK_def [abs_def] intro!: stable_at_pbind stable_at_deref
        stable_at_if stable_at_const stable_at_tl split: if_splits)
qed (simp add: stable_at_def)

lemma parse_http_version_ok:
  assumes "parse_http_version xs = POk v r"
  obtains c where "xs = ''HTTP/1.'' @ c # r" "is_digit c" "v = digit_val c" "r \<noteq> []"
proof -
  from assms have len: "9 \<le> length xs" by (simp add: parse_http_version_def split: if_splits)
  with assms obtain u b where b: "expect_chars ''HTTP/1.'' xs = POk u b" "PARSE_INT 1 b = POk v r"
    by (auto simp: parse_http_version_def simp del: expect_chars.simps)
  then obtain c where "xs = ''HTTP/1.'' @ c # r" "is_digit c" "v = digit_val c"
    using PARSE_INT_ok [OF b(2)] by (auto simp only: expect_chars_ok mult_1)
  with that len show thesis by (cases r) auto
qed

lemma stable_at_parse_http_version [parser_stable]: "stable_at parse_http_version xs"
  unfolding parse_http_version_def [abs_def]
proof (intro stable_at_short stable_at_pbind stable_at_expect_chars stable_at_PARSE_INT)
  fix u r assume "9 \<le> length xs" "expect_chars ''HTTP/1.'' xs = POk u r"
  then show "r \<noteq> []" by (auto simp only: expect_chars_ok) simp
qed auto

lemma stable_at_expect_eol [parser_stable]: "xs \<noteq> [] \<Longrightarrow> stable_at expect_eol xs"
  unfolding expect_eol_def [abs_def] by (auto intro!: parser_stable)

lemma stable_at_skip_first_eol [parser_stable]: "stable_at skip_first_eol xs"
  unfolding skip_first_eol_def [abs_def] by (auto intro!: parser_stable)

lemma skip_spaces_ok: "skip_spaces xs = POk u r \<Longrightarrow> r \<noteq> [] \<and> length r < length xs"
proof (induction xs rule: skip_spaces.induct)
  case (2 c cs)
  then show ?case by (cases cs) (auto split: if_splits)
qed simp

lemma skip_blanks_ok: "skip_blanks xs = POk u r \<Longrightarrow> r \<noteq> [] \<and> \<not> blank (hd r) \<and> suffix r xs"
  by (induction xs rule: skip_blanks.induct) (auto split: if_splits intro: suffix_ConsI)

lemma stable_at_parse_header_name [parser_stable]:
  assumes "xs \<noteq> []"
  shows "stable_at (parse_header_name sse first) xs"
  unfolding parse_header_name_def [abs_def]
proof (intro stable_at_deref stable_at_if stable_at_pbind stable_at_parse_token stable_at_const
    stable_at_tl stable_at_skip_blanks assms)
  fix name r assume "parse_token sse (CHR '':'') xs = POk name r"
  then show "r \<noteq> []" by (elim parse_token_ok [rotated]) auto
qed auto

lemma stable_at_parse_headers [parser_stable]: "stable_at (parse_headers sse left hs) xs"
proof (induction left arbitrary: hs xs)
  case 0
  show ?case
    unfolding parse_headers.simps [of sse 0, abs_def] nat.case by (auto intro!: parser_stable)
next
  case (Suc left)
  show ?case
    unfolding parse_headers.simps [of sse "Suc left", abs_def] nat.case
    by (auto intro!: parser_stable Suc)
qed
lemma stable_at_parse_request [parser_stable]: "stable_at (parse_request sse m) xs"
  unfolding parse_request_def [abs_def]
proof (intro stable_at_pbind stable_at_if stable_at_const stable_at_skip_first_eol
    stable_at_parse_token stable_at_skip_spaces stable_at_ADVANCE_TOKEN stable_at_parse_http_version
    stable_at_expect_eol stable_at_parse_headers)
  fix meth and b r assume "parse_token sse SP b = POk meth r"
  then show "r \<noteq> []" by (elim parse_token_ok [rotated]) auto
next
  fix path b r assume "ADVANCE_TOKEN sse b = POk path r"
  then show "r \<noteq> []" by (elim ADVANCE_TOKEN_ok) auto
next
  fix v b r assume "parse_http_version b = POk v r"
  then show "r \<noteq> []" by (elim parse_http_version_ok) auto
qed auto

lemma PARSE_INT_3_eq:
  "PARSE_INT_3 (a # b # c # r) =
    (if is_digit a \<and> is_digit b \<and> is_digit c
     then POk (100 * digit_val a + 10 * digit_val b + digit_val c) r else PErr)"
  by (auto simp: PARSE_INT_3_def PARSE_INT_def is_digit_def digit_val_def)

lemma stable_at_PARSE_INT_3:
  assumes "4 \<le> length xs"
  shows "stable_at PARSE_INT_3 xs"
proof -
  obtain a b c d r where "xs = a # b # c # d # r"
    using assms by (auto simp: Suc_le_length_iff numeral_eq_Suc)
  then show ?thesis by (auto simp: stable_at_def PARSE_INT_3_eq suffix_def split: if_splits)
qed

lemma strip_preceding_line:
  assumes "x \<noteq> SP"
  shows "v \<noteq> [] \<Longrightarrow> hd v = SP \<Longrightarrow>
    strip_preceding (v @ x # rest) (length v) = POk (dropWhile (\<lambda>c. c = SP) v)
      (dropWhile (\<lambda>c. c = SP) v @ x # rest)"
proof (induction v)
  case (Cons c v)
  then show ?case
    using assms by (cases v) (auto simp: take_Cons')
qed simp

text \<open>The message of a status line, which follows the status code in \<open>token\<close>.\<close>

definition status_message :: "bool \<Rightarrow> string \<Rightarrow> string pres" where
  "status_message sse msg_start =
     pbind (get_token_to_eol sse msg_start) (\<lambda>token buf.
       if token = [] then POk [] buf
       else if hd token = SP then POk (dropWhile (\<lambda>c. c = SP) token) buf else PErr)"

lemma status_message_eq:
  "pbind (get_token_to_eol sse msg_start) (\<lambda>token buf.
     pbind (if length token = 0 then POk [] buf
            else deref msg_start (\<lambda>m. if m = SP
              then pbind (strip_preceding msg_start (length token)) (\<lambda>msg _. POk msg buf)
              else PErr)) f) =
   pbind (status_message sse msg_start) f"
proof (cases "get_token_to_eol sse msg_start")
  case (POk token r)
  then obtain nl where nl: "msg_start = token @ nl @ r" "nl = [CR, LF] \<or> nl = [LF]"
    using get_token_to_eol_ok by blast
  then obtain x rest where x: "nl @ r = x # rest" "x \<noteq> SP" by auto
  have "strip_preceding msg_start (length token) =
      POk (dropWhile (\<lambda>c. c = SP) token) (dropWhile (\<lambda>c. c = SP) token @ x # rest)"
    if "token \<noteq> []" "hd token = SP"
    using strip_preceding_line [OF x(2) that, of rest] nl(1) x(1) by simp
  with POk nl(1) show ?thesis
    by (cases token) (auto simp: status_message_def)
qed (simp_all add: status_message_def)

lemma stable_at_status_message [parser_stable]: "stable_at (status_message sse) xs"
  unfolding status_message_def [abs_def] by (auto intro!: parser_stable)

lemma parse_response_message:
  "parse_response sse m buf =
     pbind (parse_http_version buf) (\<lambda>minor_version buf.
     deref buf (\<lambda>c. if c \<noteq> SP then PErr else
     pbind (skip_spaces buf) (\<lambda>_ buf.
       if length buf < 4 then PPartial
       else pbind (PARSE_INT_3 buf) (\<lambda>status buf.
            pbind (status_message sse buf) (\<lambda>msg buf.
            pbind (parse_headers sse m [] buf) (\<lambda>headers buf.
              POk \<lparr>resp_minor_version = minor_version, resp_status = status, resp_msg = msg,
                   resp_headers = headers\<rparr> buf))))))"
  unfolding parse_response_def status_message_eq ..

lemma stable_at_parse_response [parser_stable]: "stable_at (parse_response sse m) xs"
  unfolding parse_response_message [abs_def]
proof (intro stable_at_pbind stable_at_if stable_at_const stable_at_deref stable_at_short
    stable_at_skip_spaces stable_at_parse_http_version stable_at_PARSE_INT_3
    stable_at_status_message stable_at_parse_headers)
  fix v r assume "parse_http_version xs = POk v r"
  then show "r \<noteq> []" "r \<noteq> []" by (elim parse_http_version_ok, auto)+
qed auto

lemma is_complete_loop_no_fault: "is_complete_loop n xs \<noteq> PFault"
proof (induction n xs rule: is_complete_loop.induct)
  case (2 n c cs)
  then show ?case by (cases cs) simp_all
qed simp

lemma is_complete_no_fault: "last_len \<le> length xs + 3 \<Longrightarrow> is_complete xs last_len \<noteq> PFault"
  by (auto simp: is_complete_def is_complete_loop_no_fault)

section \<open>Incremental parsing\<close>

text \<open>
  A caller that gets its input in pieces parses all it has after each piece and stops at the first
  answer that is not \<^verbatim>\<open>-2\<close>; the pieces after it stay unread.
\<close>

fun feed :: "(string \<Rightarrow> 'a pres) \<Rightarrow> string \<Rightarrow> string list \<Rightarrow> 'a pres \<times> string list" where
  "feed parse acc [] = (PPartial, [])"
| "feed parse acc (chunk # chunks) =
     (case parse (acc @ chunk) of
        PPartial \<Rightarrow> feed parse (acc @ chunk) chunks
      | r \<Rightarrow> (r, chunks))"

locale incremental_parser =
  fixes parse :: "string \<Rightarrow> 'a pres"
  assumes no_fault: "parse xs \<noteq> PFault"
    and ok_suffix: "parse xs = POk v r \<Longrightarrow> suffix r xs"
    and ok_stable: "parse xs = POk v r \<Longrightarrow> parse (xs @ ys) = POk v (r @ ys)"
    and err_stable: "parse xs = PErr \<Longrightarrow> parse (xs @ ys) = PErr"
begin

lemma feed_ok:
  "parse (acc @ concat chunks) = POk v r \<Longrightarrow> parse acc = PPartial \<Longrightarrow>
   \<exists>r' unread. feed parse acc chunks = (POk v r', unread) \<and> r = r' @ concat unread"
proof (induction chunks arbitrary: acc)
  case (Cons ch chs)
  show ?case
  proof (cases "parse (acc @ ch)")
    case (POk w s)
    with Cons.prems(1) ok_stable [OF POk, of "concat chs"] show ?thesis by simp
  next
    case PErr
    with Cons.prems(1) err_stable [OF PErr, of "concat chs"] show ?thesis by simp
  next
    case PPartial
    with Cons show ?thesis by simp
  qed (use no_fault in auto)
qed simp

lemma feed_err:
  "parse (acc @ concat chunks) = PErr \<Longrightarrow> parse acc = PPartial \<Longrightarrow>
   \<exists>unread. feed parse acc chunks = (PErr, unread)"
proof (induction chunks arbitrary: acc)
  case (Cons ch chs)
  show ?case
  proof (cases "parse (acc @ ch)")
    case (POk w s)
    with Cons.prems(1) ok_stable [OF POk, of "concat chs"] show ?thesis by simp
  qed (use Cons no_fault in auto)
qed simp

lemma feed_partial:
  "parse (acc @ concat chunks) = PPartial \<Longrightarrow> feed parse acc chunks = (PPartial, [])"
proof (induction chunks arbitrary: acc)
  case (Cons ch chs)
  show ?case
  proof (cases "parse (acc @ ch)")
    case (POk w s)
    with Cons.prems(1) ok_stable [OF POk, of "concat chs"] show ?thesis by simp
  next
    case PErr
    with Cons.prems(1) err_stable [OF PErr, of "concat chs"] show ?thesis by simp
  qed (use Cons no_fault in auto)
qed simp

lemma feed_last:
  "parse (acc @ concat chunks) = PPartial \<Longrightarrow> parse (acc @ concat chunks @ ch) = POk v r \<Longrightarrow>
   feed parse acc (chunks @ [ch]) = (POk v r, [])"
proof (induction chunks arbitrary: acc)
  case (Cons c cs)
  show ?case
  proof (cases "parse (acc @ c)")
    case (POk w s)
    with Cons.prems(1) ok_stable [OF POk, of "concat cs"] show ?thesis by simp
  next
    case PErr
    with Cons.prems(1) err_stable [OF PErr, of "concat cs"] show ?thesis by simp
  qed (use Cons no_fault in auto)
qed simp

end

lemma incremental_parserI: "(\<And>xs. stable_at parse xs) \<Longrightarrow> incremental_parser parse"
  by unfold_locales (auto simp: stable_at_def)

interpretation req: incremental_parser "phr_parse_request sse max_headers 0" for sse max_headers
  by (rule incremental_parserI) (simp add: phr_parse_request_def [abs_def] stable_at_parse_request)

interpretation resp: incremental_parser "phr_parse_response sse max_headers 0" for sse max_headers
  by (rule incremental_parserI) (simp add: phr_parse_response_def [abs_def] stable_at_parse_response)

interpretation hdrs: incremental_parser "phr_parse_headers sse max_headers 0" for sse max_headers
  by (rule incremental_parserI) (simp add: phr_parse_headers_def [abs_def] stable_at_parse_headers)

section \<open>Well-formed results\<close>

definition header_ok :: "phr_header \<Rightarrow> bool" where
  "header_ok h \<longleftrightarrow>
     (case hname h of None \<Rightarrow> True | Some n \<Rightarrow> n \<noteq> [] \<and> (\<forall>c \<in> set n. is_token_char c)) \<and>
     (\<forall>c \<in> set (hvalue h). \<not> line_ctl c) \<and> (hvalue h \<noteq> [] \<longrightarrow> \<not> blank (last (hvalue h)))"

definition request_ok :: "nat \<Rightarrow> phr_request \<Rightarrow> bool" where
  "request_ok max_headers r \<longleftrightarrow>
     req_method r \<noteq> [] \<and> (\<forall>c \<in> set (req_method r). is_token_char c) \<and>
     req_path r \<noteq> [] \<and> (\<forall>c \<in> set (req_path r). path_char c) \<and>
     req_minor_version r \<le> 9 \<and> length (req_headers r) \<le> max_headers \<and>
     (\<forall>h \<in> set (req_headers r). header_ok h) \<and>
     (req_headers r \<noteq> [] \<longrightarrow> hname (hd (req_headers r)) \<noteq> None)"

lemma strip_trailing_facts:
  "set (strip_trailing v) \<subseteq> set v"
  "strip_trailing v \<noteq> [] \<Longrightarrow> \<not> blank (last (strip_trailing v))"
proof -
  show "set (strip_trailing v) \<subseteq> set v"
    by (auto simp: strip_trailing_def dest: set_dropWhileD)
  assume "strip_trailing v \<noteq> []"
  then have "dropWhile blank (rev v) \<noteq> []" by (simp add: strip_trailing_def)
  from hd_dropWhile [OF this] show "\<not> blank (last (strip_trailing v))"
    by (simp add: strip_trailing_def last_rev)
qed

lemma parse_header_name_ok:
  assumes "parse_header_name sse first xs = POk name r"
  shows "(\<forall>n. name = Some n \<longrightarrow> n \<noteq> [] \<and> (\<forall>c \<in> set n. is_token_char c)) \<and> (first \<longrightarrow> name \<noteq> None)"
proof -
  have "n \<noteq> [] \<and> (\<forall>c \<in> set n. is_token_char c)" if "name = Some n" for n
    using assms that parse_token_ok [of "CHR '':''" sse xs n]
    by (cases xs) (auto simp: parse_header_name_def split: if_splits)
  moreover have "first \<longrightarrow> name \<noteq> None"
    using assms by (cases xs) (auto simp: parse_header_name_def split: if_splits)
  ultimately show ?thesis by blast
qed

lemma parse_headers_ok:
  "parse_headers sse left hs xs = POk hs' r \<Longrightarrow> \<forall>h \<in> set hs. header_ok h \<Longrightarrow>
   hs \<noteq> [] \<longrightarrow> hname (hd hs) \<noteq> None \<Longrightarrow>
   length hs' \<le> length hs + left \<and> (\<forall>h \<in> set hs'. header_ok h) \<and>
   (hs' \<noteq> [] \<longrightarrow> hname (hd hs') \<noteq> None)"
proof (induction left arbitrary: hs xs)
  case 0
  then show ?case
    by (cases xs) (auto simp: parse_headers.simps [of _ 0] split: if_splits)
next
  case (Suc left)
  obtain c cs where xs: "xs = c # cs" using Suc.prems(1) by (cases xs) (auto simp: parse_headers.simps)
  show ?case
  proof (cases "c = CR \<or> c = LF")
    case True
    with Suc.prems xs show ?thesis by (auto simp: parse_headers.simps split: if_splits)
  next
    case False
    with Suc.prems(1) xs obtain name b1 val b2 where
      n: "parse_header_name sse (hs = []) xs = POk name b1" and
      v: "get_token_to_eol sse b1 = POk val b2" and
      rest: "parse_headers sse left (hs @ [\<lparr>hname = name, hvalue = strip_trailing val\<rparr>]) b2 = POk hs' r"
      by (auto simp: parse_headers.simps [of _ "Suc left"])
    have "header_ok \<lparr>hname = name, hvalue = strip_trailing val\<rparr>"
      using parse_header_name_ok [OF n] get_token_to_eol_ok [OF v] strip_trailing_facts [of val]
      by (auto simp: header_ok_def split: option.split)
    with Suc.IH [OF rest] Suc.prems parse_header_name_ok [OF n] show ?thesis
      by (cases hs) auto
  qed
qed
lemma skip_first_eol_length: "skip_first_eol xs = POk u r \<Longrightarrow> length r \<le> length xs"
  using stable_at_okD(1) [OF stable_at_skip_first_eol] suffix_length_le by blast

lemma request_consumes: "parse_request sse m xs = POk q r \<Longrightarrow> length r < length xs"
proof -
  assume p: "parse_request sse m xs = POk q r"
  have suffixes: "suffix b c \<Longrightarrow> length b \<le> length c" for b c :: string by (rule suffix_length_le)
  obtain b1 meth b2 b3 path b4 b5 v b6 b7 hs where
    s1: "skip_first_eol xs = POk () b1" and s2: "parse_token sse SP b1 = POk meth b2" and
    s3: "skip_spaces b2 = POk () b3" and s4: "ADVANCE_TOKEN sse b3 = POk path b4" and
    s5: "skip_spaces b4 = POk () b5" and s6: "parse_http_version b5 = POk v b6" and
    s7: "expect_eol b6 = POk () b7" and s8: "parse_headers sse m [] b7 = POk hs r"
    using p by (auto simp: parse_request_def split: if_splits)
  have "length b1 \<le> length xs" using s1 by (rule skip_first_eol_length)
  moreover have "length b2 \<le> length b1" using stable_at_okD(1) [OF stable_at_parse_token s2] suffixes by auto
  moreover have "length b3 < length b2" using skip_spaces_ok [OF s3] by simp
  moreover have "length b4 \<le> length b3" using stable_at_okD(1) [OF stable_at_ADVANCE_TOKEN s4] suffixes by auto
  moreover have "length b5 < length b4" using skip_spaces_ok [OF s5] by simp
  moreover have "length b6 < length b5" using s6 by (elim parse_http_version_ok) auto
  moreover have "b6 \<noteq> []" using s6 by (elim parse_http_version_ok) auto
  then have "length b7 \<le> length b6" using stable_at_okD(1) [OF stable_at_expect_eol s7] suffixes by auto
  moreover have "length r \<le> length b7" using stable_at_okD(1) [OF stable_at_parse_headers s8] suffixes by auto
  ultimately show ?thesis by linarith
qed

lemma parse_request_ok:
  assumes "parse_request sse m xs = POk q r"
  shows "request_ok m q"
proof -
  obtain meth b1 b2 path b3 b4 v b5 b6 hs where
    "parse_token sse SP b1 = POk meth b2" "ADVANCE_TOKEN sse b3 = POk path b4" "meth \<noteq> []" "path \<noteq> []"
    "parse_http_version b5 = POk v b6" and
    hs: "\<exists>b7 b8. parse_headers sse m [] b7 = POk hs b8" and
    q: "q = \<lparr>req_method = meth, req_path = path, req_minor_version = v, req_headers = hs\<rparr>"
    using assms by (auto simp: parse_request_def split: if_splits) blast
  moreover have "v \<le> 9"
    using \<open>parse_http_version b5 = POk v b6\<close>
    by (elim parse_http_version_ok) (auto simp: is_digit_def digit_val_def)
  moreover obtain b7 b8 where "parse_headers sse m [] b7 = POk hs b8" using hs by blast
  note parse_headers_ok [OF this]
  moreover have "\<forall>c \<in> set meth. is_token_char c"
    using parse_token_ok [of SP sse b1 meth b2] calculation(1) by blast
  moreover have "\<forall>c \<in> set path. path_char c"
    using ADVANCE_TOKEN_ok [of sse b3 path b4] calculation(2) by blast
  ultimately show ?thesis by (simp add: request_ok_def)
qed

section \<open>Round trip\<close>

definition render_header :: "phr_header \<Rightarrow> string" where
  "render_header h = the (hname h) @ '': '' @ hvalue h @ [CR, LF]"

definition render_headers :: "phr_header list \<Rightarrow> string" where
  "render_headers hs = concat (map render_header hs) @ [CR, LF]"

definition render_request :: "phr_request \<Rightarrow> string" where
  "render_request q =
     req_method q @ [SP] @ req_path q @ [SP] @ ''HTTP/1.'' @ [dec_digit (req_minor_version q)] @
     [CR, LF] @ render_headers (req_headers q)"

text \<open>A header in the form that is printed: one line, no blank around the value.\<close>

definition plain_header :: "phr_header \<Rightarrow> bool" where
  "plain_header h \<longleftrightarrow> header_ok h \<and> hname h \<noteq> None \<and> (hvalue h \<noteq> [] \<longrightarrow> \<not> blank (hd (hvalue h)))"

lemma token_char_code: "is_token_char c \<Longrightarrow> 32 < code c \<and> code c \<noteq> 58 \<and> code c \<noteq> 127"
  by (auto simp: is_token_char_iff tchar_def)

lemma token_char_neq:
  "is_token_char c \<Longrightarrow> c \<noteq> SP" "is_token_char c \<Longrightarrow> c \<noteq> CHR '':''" "is_token_char c \<Longrightarrow> c \<noteq> CR"
  "is_token_char c \<Longrightarrow> c \<noteq> LF" "is_token_char c \<Longrightarrow> c \<noteq> HT"
  using token_char_code [of c] by auto

lemma parse_token_forward:
  assumes nc: "nc = SP \<or> nc = CHR '':''" and v: "\<forall>c \<in> set v. is_token_char c"
  shows "parse_token sse nc (v @ nc # r) = POk v (nc # r)"
proof -
  have "\<And>c. c \<in> set v \<Longrightarrow> is_token_char c \<and> c \<noteq> nc" using v nc token_char_neq by blast
  then have "parse_token_loop nc (v @ nc # r) = POk () (nc # r)" by (simp add: parse_token_loop_skip)
  then show ?thesis using nc by (simp add: parse_token_plain CHECK_EOF_def)
qed

lemma ADVANCE_TOKEN_forward:
  assumes "\<forall>c \<in> set v. path_char c"
  shows "ADVANCE_TOKEN sse (v @ SP # r) = POk v (SP # r)"
proof -
  have "\<And>c. c \<in> set v \<Longrightarrow> c \<noteq> SP \<and> \<not> (code c < 32 \<or> code c = 127)" using assms by (force simp: code_SP)
  then have "advance_token_loop (v @ SP # r) = POk () (SP # r)" by (simp add: advance_token_loop_skip)
  then show ?thesis by (simp add: ADVANCE_TOKEN_plain CHECK_EOF_def)
qed

lemma skip_spaces_forward: "c \<noteq> SP \<Longrightarrow> skip_spaces (SP # c # r) = POk () (c # r)"
  by simp

lemma parse_http_version_forward:
  assumes "v \<le> 9" "r \<noteq> []"
  shows "parse_http_version (''HTTP/1.'' @ dec_digit v # r) = POk v r"
proof -
  have "PARSE_INT 1 (dec_digit v # r) = POk v r"
    using assms by (simp add: PARSE_INT_def dec_digit_def)
  moreover have "expect_chars ''HTTP/1.'' (''HTTP/1.'' @ dec_digit v # r) = POk () (dec_digit v # r)"
    by (simp only: expect_chars_ok)
  ultimately show ?thesis
    using assms by (simp add: parse_http_version_def length_greater_0_conv del: expect_chars.simps)
qed

lemma strip_trailing_plain: "v \<noteq> [] \<longrightarrow> \<not> blank (last v) \<Longrightarrow> strip_trailing v = v"
  by (cases v rule: rev_cases) (auto simp: strip_trailing_def)

lemma ctl_CR: "line_ctl CR" and ctl_LF: "line_ctl LF"
  by (simp_all add: line_ctl_def)

lemma skip_blanks_forward:
  "\<forall>c \<in> set b. blank c \<Longrightarrow> r \<noteq> [] \<Longrightarrow> \<not> blank (hd r) \<Longrightarrow> skip_blanks (b @ r) = POk () r"
proof (induction b)
  case Nil
  then show ?case by (cases r) auto
qed auto

text \<open>One header line: a name, a colon, blanks, and the value.\<close>

lemma parse_headers_line:
  assumes h: "plain_header h" "hname h = Some n" and b: "\<forall>c \<in> set b. blank c"
  shows "parse_headers sse (Suc left) hs (n @ CHR '':'' # b @ hvalue h @ CR # LF # r) =
    parse_headers sse left (hs @ [h]) r"
proof -
  let ?v = "hvalue h"
  have n: "n \<noteq> []" "\<forall>c \<in> set n. is_token_char c" and v: "\<forall>c \<in> set ?v. \<not> line_ctl c"
    "?v \<noteq> [] \<longrightarrow> \<not> blank (last ?v)" "?v \<noteq> [] \<longrightarrow> \<not> blank (hd ?v)"
    using h by (auto simp: plain_header_def header_ok_def)
  obtain c n' where c: "n = c # n'" "is_token_char c" using n by (cases n) auto
  have line: "get_token_to_eol sse (?v @ CR # LF # r) = POk ?v r"
    using v(1) by (simp add: get_token_to_eol_line ctl_CR)
  have blanks: "skip_blanks (b @ ?v @ CR # LF # r) = POk () (?v @ CR # LF # r)"
    using v(3) by (intro skip_blanks_forward b) (cases ?v, auto)+
  have name: "parse_header_name sse (hs = []) (n @ CHR '':'' # b @ ?v @ CR # LF # r) =
      POk (Some n) (?v @ CR # LF # r)"
    using parse_token_forward [of "CHR '':''" n sse "b @ ?v @ CR # LF # r"] n blanks c token_char_neq [of c]
    by (simp add: parse_header_name_def)
  have "\<lparr>hname = Some n, hvalue = ?v\<rparr> = h" using h(2) by (cases h) simp
  then show ?thesis
    using name line c token_char_neq [of c]
    by (simp add: parse_headers.simps [of _ "Suc left"] strip_trailing_plain v(2))
qed

lemma parse_headers_step:
  assumes "plain_header h"
  shows "parse_headers sse (Suc left) hs (render_header h @ r) = parse_headers sse left (hs @ [h]) r"
proof -
  obtain n where n: "hname h = Some n" using assms by (auto simp: plain_header_def)
  show ?thesis
    using parse_headers_line [OF assms n, of "[SP]" sse left hs r] n by (simp add: render_header_def)
qed

lemma parse_headers_forward:
  "list_all plain_header hs \<Longrightarrow> length hs \<le> left \<Longrightarrow>
   parse_headers sse left acc (render_headers hs @ r) = POk (acc @ hs) r"
proof (induction hs arbitrary: left acc)
  case Nil
  then show ?case
    by (simp add: parse_headers.simps render_headers_def EXPECT_CHAR_def EXPECT_CHAR_NO_CHECK_def)
next
  case (Cons h hs)
  then obtain left' where "left = Suc left'" by (cases left) auto
  with Cons parse_headers_step [of h sse left' acc "render_headers hs @ r"] show ?case
    by (simp add: render_headers_def)
qed
lemma parse_request_forward:
  assumes ok: "request_ok m q" and plain: "list_all plain_header (req_headers q)"
  shows "parse_request sse m (render_request q @ body) = POk q body"
proof -
  obtain meth path v hs where q: "q = \<lparr>req_method = meth, req_path = path, req_minor_version = v,
      req_headers = hs\<rparr>" by (cases q)
  have q_ok: "meth \<noteq> []" "\<forall>c \<in> set meth. is_token_char c" "path \<noteq> []" "\<forall>c \<in> set path. path_char c"
    "v \<le> 9" "length hs \<le> m" using ok q by (auto simp: request_ok_def)
  obtain c meth' where c: "meth = c # meth'" "is_token_char c" using q_ok by (cases meth) auto
  obtain d path' where d: "path = d # path'" "d \<noteq> SP" using q_ok by (cases path) (auto simp: code_SP)
  let ?hs = "render_headers hs @ body"
  let ?version = "''HTTP/1.'' @ dec_digit v # CR # LF # ?hs"
  have "skip_first_eol (meth @ rest) = POk () (meth @ rest)" for rest
    using c token_char_neq [of c] by (simp add: skip_first_eol_def)
  moreover have "skip_spaces (SP # path @ rest) = POk () (path @ rest)" for rest
    using d by simp
  moreover have "parse_http_version ?version = POk v (CR # LF # ?hs)"
    using q_ok by (intro parse_http_version_forward) auto
  moreover have "skip_spaces (SP # ?version) = POk () ?version" by simp
  moreover have "expect_eol (CR # LF # ?hs) = POk () ?hs"
    by (simp add: expect_eol_def EXPECT_CHAR_def EXPECT_CHAR_NO_CHECK_def)
  moreover have "parse_headers sse m [] ?hs = POk hs body"
    using parse_headers_forward [of hs m sse "[]" body] plain q q_ok by simp
  moreover have "render_request q @ body = meth @ SP # path @ SP # ?version"
    by (simp add: render_request_def q)
  ultimately show ?thesis
    using q_ok parse_token_forward [of SP meth sse] ADVANCE_TOKEN_forward [of path sse] q
    by (simp add: parse_request_def)
qed

section \<open>Theorems\<close>

text \<open>C16: For every input and every number of header slots, the parser built with the SSE4.2
  instructions returns exactly what the portable one returns, for requests, responses and header
  blocks.\<close>

theorem sse_equals_portable:
  "phr_parse_request True max_headers last_len buf = phr_parse_request False max_headers last_len buf \<and>
   phr_parse_response True max_headers last_len buf = phr_parse_response False max_headers last_len buf \<and>
   phr_parse_headers True max_headers last_len buf = phr_parse_headers False max_headers last_len buf"
  by (simp add: phr_parse_request_def phr_parse_response_def phr_parse_headers_def parse_request_sse
      parse_response_sse parse_headers_sse)

text \<open>However the bytes of a request are split into reads, parsing all that has arrived after each
  read gives the request that one parse of the whole input gives, with the same bytes left after
  it.\<close>

theorem request_chunking:
  assumes "phr_parse_request sse max_headers 0 (concat chunks) = POk q rest"
  shows "\<exists>left unread. feed (phr_parse_request sse max_headers 0) [] chunks = (POk q left, unread) \<and>
    rest = left @ concat unread"
proof -
  have "phr_parse_request sse max_headers 0 [] = PPartial"
    by (simp add: phr_parse_request_def parse_request_def skip_first_eol_def)
  with req.feed_ok [of sse max_headers "[]" chunks q rest] assms show ?thesis by simp
qed

theorem request_chunking_witness:
  "\<exists>left unread. feed (phr_parse_request True 2 0) []
      [''GET /a HTTP/1.1'' @ [CR, LF] @ ''Ho'', ''st: b'' @ [CR, LF, CR], [LF, CHR ''x''], ''y''] =
     (POk \<lparr>req_method = ''GET'', req_path = ''/a'', req_minor_version = 1,
        req_headers = [\<lparr>hname = Some ''Host'', hvalue = ''b''\<rparr>]\<rparr> left, unread) \<and>
     ''xy'' = left @ concat unread"
  by (rule request_chunking) code_simp

text \<open>A malformed request is rejected however its bytes are split into reads, and an incomplete one
  never is.\<close>

theorem request_chunking_rejects:
  "(phr_parse_request sse max_headers 0 (concat chunks) = PErr \<longleftrightarrow>
      fst (feed (phr_parse_request sse max_headers 0) [] chunks) = PErr) \<and>
   (phr_parse_request sse max_headers 0 (concat chunks) = PPartial \<longleftrightarrow>
      fst (feed (phr_parse_request sse max_headers 0) [] chunks) = PPartial)"
proof -
  have start: "phr_parse_request sse max_headers 0 [] = PPartial"
    by (simp add: phr_parse_request_def parse_request_def skip_first_eol_def)
  show ?thesis
  proof (cases "phr_parse_request sse max_headers 0 (concat chunks)")
    case (POk q r)
    with start req.feed_ok [of sse max_headers "[]" chunks q r] show ?thesis by auto
  next
    case PErr
    with start req.feed_err [of sse max_headers "[]" chunks] show ?thesis by auto
  next
    case PPartial
    with start req.feed_partial [of sse max_headers "[]" chunks] show ?thesis by auto
  qed (use req.no_fault in blast)
qed

text \<open>C17: No input makes a parser read outside its buffer: requests, responses and header blocks, with
  any previous length that a caller can have.\<close>

theorem parsers_memory_safe:
  assumes "last_len \<le> length buf"
  shows "phr_parse_request sse max_headers last_len buf \<noteq> PFault \<and>
    phr_parse_response sse max_headers last_len buf \<noteq> PFault \<and>
    phr_parse_headers sse max_headers last_len buf \<noteq> PFault"
  using assms is_complete_no_fault [of last_len buf] stable_at_parse_request [of sse max_headers buf]
    stable_at_parse_response [of sse max_headers buf] stable_at_parse_headers [of sse max_headers "[]" buf]
  by (auto simp: phr_parse_request_def phr_parse_response_def phr_parse_headers_def stable_at_def)

theorem parsers_memory_safe_witness:
  "phr_parse_request True 100 3 ''GET '' \<noteq> PFault"
  using parsers_memory_safe [of 3 "''GET ''" True 100] by simp

text \<open>C18: A request that the parser accepts has a method and a path, which are not empty and hold only
  token and path characters; a minor version of one digit; at most as many headers as there are
  slots; header names made of token characters; values without control characters or trailing
  blanks; and a first header that is not a continuation line.\<close>

theorem accepted_request_well_formed:
  assumes "phr_parse_request sse max_headers last_len buf = POk q rest"
  shows "request_ok max_headers q"
  using assms parse_request_ok by (auto simp: phr_parse_request_def split: if_splits)

theorem accepted_request_well_formed_witness:
  "request_ok 2 \<lparr>req_method = ''GET'', req_path = ''/'', req_minor_version = 0,
     req_headers = [\<lparr>hname = Some ''A'', hvalue = ''b c''\<rparr>, \<lparr>hname = None, hvalue = '' d''\<rparr>]\<rparr>"
  by (rule accepted_request_well_formed [of False 2 0
        "''GET / HTTP/1.0'' @ [LF] @ ''A:  b c '' @ [LF] @ '' d'' @ [LF, LF]" _ "[]"]) code_simp

text \<open>C19: Parsing the text of a request returns that request, with the bytes of the body left
  over.\<close>

theorem request_round_trip:
  assumes "request_ok max_headers q" and "list_all plain_header (req_headers q)"
  shows "phr_parse_request sse max_headers 0 (render_request q @ body) = POk q body"
  using assms by (simp add: phr_parse_request_def parse_request_forward)

theorem request_round_trip_witness:
  "phr_parse_request True 1 0 (render_request
      \<lparr>req_method = ''PUT'', req_path = ''/a'', req_minor_version = 1,
       req_headers = [\<lparr>hname = Some ''Host'', hvalue = ''b''\<rparr>]\<rparr> @ ''body'') =
    POk \<lparr>req_method = ''PUT'', req_path = ''/a'', req_minor_version = 1,
       req_headers = [\<lparr>hname = Some ''Host'', hvalue = ''b''\<rparr>]\<rparr> ''body''"
  by (rule request_round_trip; code_simp)

end
