(* ===== verification/Chunked.thy ===== *)
theory Chunked
  imports Prelude
begin

text \<open>
  The chunked transfer coding: the decoder \<^verbatim>\<open>phr_decode_chunked\<close> of
  \<^verbatim>\<open>core/third_party/picohttpparser.c\<close>, which removes the chunk headers in place, against a
  specification that reads one byte at a time.
  The buffer is a list that \<^verbatim>\<open>memmove\<close> rewrites, with the source's two indices into it; the
  specification keeps the decoded bytes and the bytes not yet read apart. The refinement theorem
  says that the moves never overwrite a byte that has not been read.
\<close>

section \<open>The decoder\<close>

datatype chunk_state =
    CHUNKED_IN_CHUNK_SIZE
  | CHUNKED_IN_CHUNK_EXT
  | CHUNKED_IN_CHUNK_DATA
  | CHUNKED_IN_CHUNK_CRLF
  | CHUNKED_IN_TRAILERS_LINE_HEAD
  | CHUNKED_IN_TRAILERS_LINE_MIDDLE

record phr_chunked_decoder =
  bytes_left_in_chunk :: size_t
  consume_trailer :: bool
  hex_count :: nat
  dec_state :: chunk_state
  total_read :: u64
  total_overhead :: u64

text \<open>\<^verbatim>\<open>decode_hex\<close>; \<open>None\<close> is the result -1.\<close>

definition decode_hex :: "char \<Rightarrow> nat option" where
  "decode_hex ch =
     (if 48 \<le> code ch \<and> code ch \<le> 57 then Some (code ch - 48)
      else if 65 \<le> code ch \<and> code ch \<le> 70 then Some (code ch - 65 + 10)
      else if 97 \<le> code ch \<and> code ch \<le> 102 then Some (code ch - 97 + 10)
      else None)"

text \<open>The characters that may follow a chunk size.\<close>

definition ends_size :: "char \<Rightarrow> bool" where
  "ends_size c \<longleftrightarrow> c = SP \<or> c = HT \<or> c = CHR '';'' \<or> c = LF \<or> c = CR"

definition memmove :: "string \<Rightarrow> nat \<Rightarrow> nat \<Rightarrow> nat \<Rightarrow> string" where
  "memmove buf dst src n = take dst buf @ take n (drop src buf) @ drop (dst + n) buf"

text \<open>The local variables of the function, with the decoder it updates.\<close>

record chunk_loop =
  ldec :: phr_chunked_decoder
  lbuf :: string
  lbufsz :: nat
  ldst :: nat
  lsrc :: nat

text \<open>\<^verbatim>\<open>goto Exit\<close> with the return value, \<^verbatim>\<open>goto Complete\<close>, or the next round of the switch.\<close>

datatype switch_result = Next chunk_loop | Complete chunk_loop | Exit int chunk_loop

text \<open>
  The loop over the hexadecimal digits of a chunk size, on the bytes from \<^verbatim>\<open>src\<close> on: \<open>None\<close> says that
  the digits ended, \<open>Some ret\<close> is a jump to \<^verbatim>\<open>Exit\<close>.
\<close>

fun chunk_size_loop ::
  "phr_chunked_decoder \<Rightarrow> string \<Rightarrow> nat \<Rightarrow> int option \<times> phr_chunked_decoder \<times> nat" where
  "chunk_size_loop d [] src = (Some (- 2), d, src)"
| "chunk_size_loop d (c # cs) src =
     (case decode_hex c of
        None \<Rightarrow>
          if hex_count d = 0 then (Some (- 1), d, src)
          else if ends_size c then (None, d, src)
          else (Some (- 1), d, src)
      | Some v \<Rightarrow>
          if hex_count d = 16 then (Some (- 1), d, src)
          else chunk_size_loop
                 (d\<lparr>bytes_left_in_chunk := bytes_left_in_chunk d * 16 + word_of_nat v,
                    hex_count := hex_count d + 1\<rparr>) cs (src + 1))"

text \<open>The loops \<^verbatim>\<open>for (;; ++src)\<close> that stop at a byte with a property: whether one was found, and \<^verbatim>\<open>src\<close>.\<close>

fun scan_to :: "(char \<Rightarrow> bool) \<Rightarrow> string \<Rightarrow> nat \<Rightarrow> bool \<times> nat" where
  "scan_to P [] src = (False, src)"
| "scan_to P (c # cs) src = (if P c then (True, src) else scan_to P cs (src + 1))"

abbreviation goto_state :: "chunk_state \<Rightarrow> chunk_loop \<Rightarrow> nat \<Rightarrow> switch_result" where
  "goto_state s l src \<equiv> Next (l\<lparr>ldec := (ldec l)\<lparr>dec_state := s\<rparr>, lsrc := src\<rparr>)"

text \<open>
  One case of the switch. A case that falls through has set \<^verbatim>\<open>_state\<close> to the next label, so the next
  round of the switch is the fall-through.
\<close>

definition decode_switch :: "chunk_loop \<Rightarrow> switch_result" where
  "decode_switch l =
     (let d = ldec l; rest = take (lbufsz l - lsrc l) (drop (lsrc l) (lbuf l)) in
      case dec_state d of
        CHUNKED_IN_CHUNK_SIZE \<Rightarrow>
          (case chunk_size_loop d rest (lsrc l) of
             (Some ret, d', src) \<Rightarrow> Exit ret (l\<lparr>ldec := d', lsrc := src\<rparr>)
           | (None, d', src) \<Rightarrow>
               Next (l\<lparr>ldec := d'\<lparr>hex_count := 0, dec_state := CHUNKED_IN_CHUNK_EXT\<rparr>, lsrc := src\<rparr>))
      | CHUNKED_IN_CHUNK_EXT \<Rightarrow>
          (case scan_to (\<lambda>c. c = LF) rest (lsrc l) of
             (False, src) \<Rightarrow> Exit (- 2) (l\<lparr>lsrc := src\<rparr>)
           | (True, src) \<Rightarrow>
               if bytes_left_in_chunk d = 0 then
                 if consume_trailer d then goto_state CHUNKED_IN_TRAILERS_LINE_HEAD l (src + 1)
                 else Complete (l\<lparr>lsrc := src + 1\<rparr>)
               else goto_state CHUNKED_IN_CHUNK_DATA l (src + 1))
      | CHUNKED_IN_CHUNK_DATA \<Rightarrow>
          (let avail = lbufsz l - lsrc l; n = unat (bytes_left_in_chunk d) in
           if avail < n then
             Exit (- 2) (l\<lparr>lbuf := (if ldst l \<noteq> lsrc l then memmove (lbuf l) (ldst l) (lsrc l) avail
                                     else lbuf l),
                           lsrc := lsrc l + avail, ldst := ldst l + avail,
                           ldec := d\<lparr>bytes_left_in_chunk := bytes_left_in_chunk d - word_of_nat avail\<rparr>\<rparr>)
           else
             Next (l\<lparr>lbuf := (if ldst l \<noteq> lsrc l then memmove (lbuf l) (ldst l) (lsrc l) n else lbuf l),
                     lsrc := lsrc l + n, ldst := ldst l + n,
                     ldec := d\<lparr>bytes_left_in_chunk := 0, dec_state := CHUNKED_IN_CHUNK_CRLF\<rparr>\<rparr>))
      | CHUNKED_IN_CHUNK_CRLF \<Rightarrow>
          (case scan_to (\<lambda>c. c \<noteq> CR) rest (lsrc l) of
             (False, src) \<Rightarrow> Exit (- 2) (l\<lparr>lsrc := src\<rparr>)
           | (True, src) \<Rightarrow>
               if lbuf l ! src \<noteq> LF then Exit (- 1) (l\<lparr>lsrc := src\<rparr>)
               else goto_state CHUNKED_IN_CHUNK_SIZE l (src + 1))
      | CHUNKED_IN_TRAILERS_LINE_HEAD \<Rightarrow>
          (case scan_to (\<lambda>c. c \<noteq> CR) rest (lsrc l) of
             (False, src) \<Rightarrow> Exit (- 2) (l\<lparr>lsrc := src\<rparr>)
           | (True, src) \<Rightarrow>
               if lbuf l ! src = LF then Complete (l\<lparr>lsrc := src + 1\<rparr>)
               else goto_state CHUNKED_IN_TRAILERS_LINE_MIDDLE l (src + 1))
      | CHUNKED_IN_TRAILERS_LINE_MIDDLE \<Rightarrow>
          (case scan_to (\<lambda>c. c = LF) rest (lsrc l) of
             (False, src) \<Rightarrow> Exit (- 2) (l\<lparr>lsrc := src\<rparr>)
           | (True, src) \<Rightarrow> goto_state CHUNKED_IN_TRAILERS_LINE_HEAD l (src + 1)))"

section \<open>Scanning\<close>

lemma scan_to_split:
  "scan_to P rest src = (found, src') \<Longrightarrow>
   \<exists>pre rest'. rest = pre @ rest' \<and> src' = src + length pre \<and> (\<forall>c \<in> set pre. \<not> P c) \<and>
     (found \<longrightarrow> (\<exists>c cs. rest' = c # cs \<and> P c)) \<and> (\<not> found \<longrightarrow> rest' = [])"
proof (induction P rest src rule: scan_to.induct)
  case (2 P c cs src)
  show ?case
  proof (cases "P c")
    case False
    with 2 obtain pre rest' where "cs = pre @ rest'" "src' = src + 1 + length pre"
      "\<forall>c \<in> set pre. \<not> P c" "found \<longrightarrow> (\<exists>c cs. rest' = c # cs \<and> P c)" "\<not> found \<longrightarrow> rest' = []" by auto
    with False show ?thesis by (intro exI [of _ "c # pre"] exI [of _ rest']) simp
  qed (use 2 in auto)
qed auto

lemma scan_to_src: "scan_to P rest src = (True, src') \<Longrightarrow> src \<le> src' \<and> src' < src + length rest"
  using scan_to_split [of P rest src True src'] by auto

lemma chunk_size_loop_src:
  "chunk_size_loop d rest src = (r, d', src') \<Longrightarrow> src \<le> src'"
  by (induction d rest src rule: chunk_size_loop.induct)
    (auto split: option.splits if_splits)

section \<open>The loop\<close>

primrec state_rank :: "chunk_state \<Rightarrow> nat" where
  "state_rank CHUNKED_IN_CHUNK_SIZE = 3"
| "state_rank CHUNKED_IN_CHUNK_EXT = 2"
| "state_rank CHUNKED_IN_CHUNK_DATA = 1"
| "state_rank CHUNKED_IN_CHUNK_CRLF = 0"
| "state_rank CHUNKED_IN_TRAILERS_LINE_HEAD = 0"
| "state_rank CHUNKED_IN_TRAILERS_LINE_MIDDLE = 0"

lemma decode_switch_decreases:
  assumes "decode_switch l = Next l'"
  shows "lbufsz l' = lbufsz l \<and> (lsrc l < lsrc l' \<and> lsrc l < lbufsz l \<or>
    lsrc l \<le> lsrc l' \<and> state_rank (dec_state (ldec l')) < state_rank (dec_state (ldec l)))"
  using assms unfolding decode_switch_def Let_def
  by (auto split: chunk_state.splits option.splits prod.splits bool.splits if_splits
      dest!: scan_to_src chunk_size_loop_src)

function decode_while :: "chunk_loop \<Rightarrow> int \<times> chunk_loop" where
  "decode_while l =
     (case decode_switch l of
        Next l' \<Rightarrow> decode_while l'
      | Complete l' \<Rightarrow> (int (lbufsz l' - lsrc l'), l')
      | Exit ret l' \<Rightarrow> (ret, l'))"
  by pat_completeness auto
termination
proof (relation "measures [\<lambda>l. lbufsz l - lsrc l, \<lambda>l. state_rank (dec_state (ldec l))]")
  fix l l' assume "decode_switch l = Next l'"
  from decode_switch_decreases [OF this]
  show "(l', l) \<in> measures [\<lambda>l. lbufsz l - lsrc l, \<lambda>l. state_rank (dec_state (ldec l))]"
    by (auto simp: nat_less_le)
qed simp

declare decode_while.simps [simp del]

text \<open>
  The whole function: the decoder and the buffer are updated, \<^verbatim>\<open>*bufsz\<close> becomes the number of
  decoded bytes.
\<close>

record chunk_call =
  call_ret :: int
  call_decoder :: phr_chunked_decoder
  call_buf :: string
  call_bufsz :: nat

definition start_loop :: "phr_chunked_decoder \<Rightarrow> string \<Rightarrow> chunk_loop" where
  "start_loop d buf =
     \<lparr>ldec = d\<lparr>total_read := total_read d + word_of_nat (length buf)\<rparr>, lbuf = buf,
      lbufsz = length buf, ldst = 0, lsrc = 0\<rparr>"

definition phr_decode_chunked :: "phr_chunked_decoder \<Rightarrow> string \<Rightarrow> chunk_call" where
  "phr_decode_chunked d buf =
     (let (ret, l) = decode_while (start_loop d buf);
          buf' = (if ldst l \<noteq> lsrc l then memmove (lbuf l) (ldst l) (lsrc l) (lbufsz l - lsrc l)
                  else lbuf l);
          d' = ldec l
      in if ret = - 2 then
           let overhead = total_overhead d' + word_of_nat (lbufsz l - ldst l);
               ret' = (if 100 * 1024 \<le> overhead \<and> total_read d' - overhead < total_read d' div 4
                       then - 1 else ret)
           in \<lparr>call_ret = ret', call_decoder = d'\<lparr>total_overhead := overhead\<rparr>, call_buf = buf',
               call_bufsz = ldst l\<rparr>
         else \<lparr>call_ret = ret, call_decoder = d', call_buf = buf', call_bufsz = ldst l\<rparr>)"

definition phr_decode_chunked_is_in_data :: "phr_chunked_decoder \<Rightarrow> bool" where
  "phr_decode_chunked_is_in_data d \<longleftrightarrow> dec_state d = CHUNKED_IN_CHUNK_DATA"

text \<open>A decoder filled with zeros, with trailers consumed or not.\<close>

definition zero_decoder :: "bool \<Rightarrow> phr_chunked_decoder" where
  "zero_decoder trailer =
     \<lparr>bytes_left_in_chunk = 0, consume_trailer = trailer, hex_count = 0,
      dec_state = CHUNKED_IN_CHUNK_SIZE, total_read = 0, total_overhead = 0\<rparr>"

section \<open>The specification: one byte at a time\<close>

datatype byte_result = More phr_chunked_decoder | Emit phr_chunked_decoder | Done phr_chunked_decoder | Bad

definition ext_byte :: "phr_chunked_decoder \<Rightarrow> char \<Rightarrow> byte_result" where
  "ext_byte d c =
     (if c \<noteq> LF then More d
      else if bytes_left_in_chunk d \<noteq> 0 then More (d\<lparr>dec_state := CHUNKED_IN_CHUNK_DATA\<rparr>)
      else if consume_trailer d then More (d\<lparr>dec_state := CHUNKED_IN_TRAILERS_LINE_HEAD\<rparr>)
      else Done d)"

definition dec_byte :: "phr_chunked_decoder \<Rightarrow> char \<Rightarrow> byte_result" where
  "dec_byte d c =
     (case dec_state d of
        CHUNKED_IN_CHUNK_SIZE \<Rightarrow>
          (case decode_hex c of
             Some v \<Rightarrow>
               if hex_count d = 16 then Bad
               else More (d\<lparr>bytes_left_in_chunk := bytes_left_in_chunk d * 16 + word_of_nat v,
                            hex_count := hex_count d + 1\<rparr>)
           | None \<Rightarrow>
               if hex_count d = 0 \<or> \<not> ends_size c then Bad
               else ext_byte (d\<lparr>hex_count := 0, dec_state := CHUNKED_IN_CHUNK_EXT\<rparr>) c)
      | CHUNKED_IN_CHUNK_EXT \<Rightarrow> ext_byte d c
      | CHUNKED_IN_CHUNK_DATA \<Rightarrow>
          Emit (if bytes_left_in_chunk d = 1
                then d\<lparr>bytes_left_in_chunk := 0, dec_state := CHUNKED_IN_CHUNK_CRLF\<rparr>
                else d\<lparr>bytes_left_in_chunk := bytes_left_in_chunk d - 1\<rparr>)
      | CHUNKED_IN_CHUNK_CRLF \<Rightarrow>
          if c = CR then More d
          else if c = LF then More (d\<lparr>dec_state := CHUNKED_IN_CHUNK_SIZE\<rparr>) else Bad
      | CHUNKED_IN_TRAILERS_LINE_HEAD \<Rightarrow>
          if c = CR then More d
          else if c = LF then Done d
          else More (d\<lparr>dec_state := CHUNKED_IN_TRAILERS_LINE_MIDDLE\<rparr>)
      | CHUNKED_IN_TRAILERS_LINE_MIDDLE \<Rightarrow>
          if c = LF then More (d\<lparr>dec_state := CHUNKED_IN_TRAILERS_LINE_HEAD\<rparr>) else More d)"

text \<open>The return value, the decoder, the decoded bytes and the bytes that were not read.\<close>

fun run_bytes :: "phr_chunked_decoder \<Rightarrow> string \<Rightarrow> string \<Rightarrow>
    int \<times> phr_chunked_decoder \<times> string \<times> string" where
  "run_bytes d out [] = (- 2, d, out, [])"
| "run_bytes d out (c # cs) =
     (case dec_byte d c of
        More d' \<Rightarrow> run_bytes d' out cs
      | Emit d' \<Rightarrow> run_bytes d' (out @ [c]) cs
      | Done d' \<Rightarrow> (int (length cs), d', out, cs)
      | Bad \<Rightarrow> (- 1, d, out, c # cs))"

text \<open>What holds of a decoder between calls.\<close>

definition decoder_ok :: "phr_chunked_decoder \<Rightarrow> bool" where
  "decoder_ok d \<longleftrightarrow>
     (case dec_state d of
        CHUNKED_IN_CHUNK_SIZE \<Rightarrow> hex_count d \<le> 16 \<and> unat (bytes_left_in_chunk d) < 16 ^ hex_count d
      | CHUNKED_IN_CHUNK_EXT \<Rightarrow> hex_count d = 0
      | CHUNKED_IN_CHUNK_DATA \<Rightarrow> hex_count d = 0 \<and> bytes_left_in_chunk d \<noteq> 0
      | _ \<Rightarrow> hex_count d = 0 \<and> bytes_left_in_chunk d = 0)"

section \<open>Refinement\<close>

lemma decode_hex_less: "decode_hex c = Some v \<Longrightarrow> v < 16"
  by (auto simp: decode_hex_def split: if_splits)

lemma size_digit_unat:
  assumes "unat bl < 16 ^ h" "h < 16" "v < 16"
  shows "unat (bl * 16 + word_of_nat v :: size_t) = unat bl * 16 + v"
proof -
  have "(16::nat) ^ Suc h \<le> 16 ^ 16" using assms(2) by (intro power_increasing) auto
  moreover have "unat bl * 16 + v < 16 ^ Suc h" using assms(1,3) by simp
  ultimately have less: "unat bl * 16 + v < 2 ^ 64" by (simp add: power_mult [of 2 4 16, symmetric])
  have eq: "bl * 16 + word_of_nat v = word_of_nat (unat bl * 16 + v)" by simp
  show ?thesis unfolding eq unat_of_nat using less by simp
qed

lemma size_digit_bound:
  "unat bl < 16 ^ h \<Longrightarrow> h < 16 \<Longrightarrow> v < 16 \<Longrightarrow> unat (bl * 16 + word_of_nat v :: size_t) < 16 ^ Suc h"
  by (simp add: size_digit_unat)

lemma chunk_size_loop_spec:
  "chunk_size_loop d rest src = (r, d', src') \<Longrightarrow> dec_state d = CHUNKED_IN_CHUNK_SIZE \<Longrightarrow> decoder_ok d \<Longrightarrow>
   \<exists>pre rest'. rest = pre @ rest' \<and> src' = src + length pre \<and> dec_state d' = CHUNKED_IN_CHUNK_SIZE \<and>
     decoder_ok d' \<and> (\<forall>out. run_bytes d out rest = run_bytes d' out rest') \<and>
     (case r of
        None \<Rightarrow> \<exists>c cs. rest' = c # cs \<and> decode_hex c = None \<and> hex_count d' \<noteq> 0 \<and> ends_size c
      | Some ret \<Rightarrow> ret = - 2 \<and> rest' = [] \<or> ret = - 1 \<and> (\<exists>c cs. rest' = c # cs \<and> dec_byte d' c = Bad))"
proof (induction d rest src rule: chunk_size_loop.induct)
  case (2 d c cs src)
  show ?case
  proof (cases "decode_hex c")
    case None
    with 2 show ?thesis
      by (intro exI [of _ "[]"] exI [of _ "c # cs"]) (auto simp: dec_byte_def split: if_splits)
  next
    case (Some v)
    show ?thesis
    proof (cases "hex_count d = 16")
      case True
      with Some 2 show ?thesis
        by (intro exI [of _ "[]"] exI [of _ "c # cs"]) (auto simp: dec_byte_def)
    next
      case False
      let ?d = "d\<lparr>bytes_left_in_chunk := bytes_left_in_chunk d * 16 + word_of_nat v,
                  hex_count := hex_count d + 1\<rparr>"
      have step: "dec_byte d c = More ?d" using Some False "2.prems"(2) by (simp add: dec_byte_def)
      have "chunk_size_loop ?d cs (src + 1) = (r, d', src')" using "2.prems"(1) Some False by simp
      moreover have "decoder_ok ?d"
        using "2.prems" False decode_hex_less [OF Some] size_digit_bound [of "bytes_left_in_chunk d" "hex_count d" v]
        by (simp add: decoder_ok_def)
      ultimately obtain pre rest' where "cs = pre @ rest'" "src' = src + 1 + length pre"
        "dec_state d' = CHUNKED_IN_CHUNK_SIZE" "decoder_ok d'"
        "\<forall>out. run_bytes ?d out cs = run_bytes d' out rest'"
        "case r of
          None \<Rightarrow> \<exists>c cs. rest' = c # cs \<and> decode_hex c = None \<and> hex_count d' \<noteq> 0 \<and> ends_size c
        | Some ret \<Rightarrow> ret = - 2 \<and> rest' = [] \<or> ret = - 1 \<and> (\<exists>c cs. rest' = c # cs \<and> dec_byte d' c = Bad)"
        using "2.IH" [OF Some False] "2.prems"(2) by auto
      with step show ?thesis by (intro exI [of _ "c # pre"] exI [of _ rest']) simp
    qed
  qed
qed auto

lemma run_bytes_stay:
  "\<forall>c \<in> set pre. dec_byte d c = More d \<Longrightarrow> run_bytes d out (pre @ rest) = run_bytes d out rest"
  by (induction pre) auto

lemma run_bytes_data:
  "dec_state d = CHUNKED_IN_CHUNK_DATA \<Longrightarrow> length pre < unat (bytes_left_in_chunk d) \<Longrightarrow>
   run_bytes d out (pre @ rest) =
     run_bytes (d\<lparr>bytes_left_in_chunk := bytes_left_in_chunk d - word_of_nat (length pre)\<rparr>) (out @ pre) rest"
proof (induction pre arbitrary: d out)
  case (Cons c pre)
  let ?d = "d\<lparr>bytes_left_in_chunk := bytes_left_in_chunk d - 1\<rparr>"
  have many: "1 < unat (bytes_left_in_chunk d)" using Cons.prems(2) by simp
  then have "bytes_left_in_chunk d \<noteq> 1" by auto
  then have step: "dec_byte d c = Emit ?d" using Cons.prems(1) by (simp add: dec_byte_def)
  have "unat (bytes_left_in_chunk d - 1) = unat (bytes_left_in_chunk d) - 1"
    using many by (intro unat_minus_one) auto
  then show ?case
    using Cons.IH [of ?d "out @ [c]"] Cons.prems step by (simp add: diff_diff_eq)
qed simp

lemma run_bytes_data_end:
  assumes "dec_state d = CHUNKED_IN_CHUNK_DATA" "bytes_left_in_chunk d \<noteq> 0"
    "length pre = unat (bytes_left_in_chunk d)"
  shows "run_bytes d out (pre @ rest) =
    run_bytes (d\<lparr>bytes_left_in_chunk := 0, dec_state := CHUNKED_IN_CHUNK_CRLF\<rparr>) (out @ pre) rest"
proof -
  obtain pre' c where pre: "pre = pre' @ [c]"
    using assms(2,3) by (cases pre rule: rev_cases) (auto simp: unat_eq_zero)
  then have len: "Suc (length pre') = unat (bytes_left_in_chunk d)" using assms(3) by simp
  let ?d = "d\<lparr>bytes_left_in_chunk := bytes_left_in_chunk d - word_of_nat (length pre')\<rparr>"
  have "bytes_left_in_chunk d = word_of_nat (Suc (length pre'))" by (simp only: len) simp
  then have "bytes_left_in_chunk ?d = 1" by simp
  then have "dec_byte ?d c = Emit (d\<lparr>bytes_left_in_chunk := 0, dec_state := CHUNKED_IN_CHUNK_CRLF\<rparr>)"
    using assms(1) by (simp add: dec_byte_def)
  then show ?thesis
    using run_bytes_data [of d pre' out "c # rest"] assms(1) len pre by simp
qed

section \<open>The simulation\<close>

definition loop_ok :: "chunk_loop \<Rightarrow> bool" where
  "loop_ok l \<longleftrightarrow> length (lbuf l) = lbufsz l \<and> ldst l \<le> lsrc l \<and> lsrc l \<le> lbufsz l \<and> decoder_ok (ldec l)"

text \<open>The decoded bytes and the bytes to read are the two ends of the buffer.\<close>

definition run_loop :: "chunk_loop \<Rightarrow> int \<times> phr_chunked_decoder \<times> string \<times> string" where
  "run_loop l = run_bytes (ldec l) (take (ldst l) (lbuf l)) (drop (lsrc l) (lbuf l))"

lemma memmove_facts:
  assumes "dst \<le> src" "src + n \<le> length buf"
  shows "length (memmove buf dst src n) = length buf"
    "take (dst + n) (memmove buf dst src n) = take dst buf @ take n (drop src buf)"
    "drop (src + n) (memmove buf dst src n) = drop (src + n) buf"
  using assms by (simp_all add: memmove_def min_absorb2 drop_append)

lemma moved_facts:
  assumes "dst \<le> src" "src + n \<le> length buf" and "buf' = (if dst \<noteq> src then memmove buf dst src n else buf)"
  shows "length buf' = length buf" "take (dst + n) buf' = take dst buf @ take n (drop src buf)"
    "drop (src + n) buf' = drop (src + n) buf"
  using assms memmove_facts [OF assms(1,2)] by (auto simp: take_add)
text \<open>What one round of the switch keeps: the invariant and the result that the bytes decide.\<close>

definition switch_ok :: "chunk_loop \<Rightarrow> switch_result \<Rightarrow> bool" where
  "switch_ok l r \<longleftrightarrow>
     (case r of
        Next l' \<Rightarrow> loop_ok l' \<and> run_loop l = run_loop l'
      | Complete l' \<Rightarrow> loop_ok l' \<and> run_loop l =
          (int (lbufsz l' - lsrc l'), ldec l', take (ldst l') (lbuf l'), drop (lsrc l') (lbuf l'))
      | Exit ret l' \<Rightarrow> loop_ok l' \<and> run_loop l =
          (ret, ldec l', take (ldst l') (lbuf l'), drop (lsrc l') (lbuf l')))"

lemma rest_all: "length buf = n \<Longrightarrow> take (n - src) (drop src buf) = drop src buf"
  by simp

lemma drop_split: "drop src buf = pre @ rest \<Longrightarrow> drop (src + length pre) buf = rest"
  by (metis append_eq_conv_conj drop_drop add.commute)

lemma drop_split_Cons:
  assumes "drop src buf = pre @ c # cs"
  shows "drop (Suc (src + length pre)) buf = cs" "buf ! (src + length pre) = c"
    "Suc (src + length pre) \<le> length buf"
proof -
  have d: "drop (src + length pre) buf = c # cs" by (rule drop_split [OF assms])
  show "drop (Suc (src + length pre)) buf = cs" using d by (metis drop_Suc tl_drop list.sel(3))
  show less: "Suc (src + length pre) \<le> length buf" using d by (metis Suc_le_eq drop_eq_Nil linorder_not_less list.distinct(1))
  show "buf ! (src + length pre) = c" using d less by (metis Suc_le_eq nth_via_drop)
qed

lemma drop_end:
  "drop src buf = pre \<Longrightarrow> src \<le> length buf \<Longrightarrow> src + length pre = length buf"
  by auto

lemma switch_size:
  assumes ok: "loop_ok l" and st: "dec_state (ldec l) = CHUNKED_IN_CHUNK_SIZE"
  shows "switch_ok l (decode_switch l)"
proof -
  obtain r d' src' where loop: "chunk_size_loop (ldec l) (drop (lsrc l) (lbuf l)) (lsrc l) = (r, d', src')"
    by (metis prod_cases3)
  obtain pre rest' where p: "drop (lsrc l) (lbuf l) = pre @ rest'" "src' = lsrc l + length pre"
    "dec_state d' = CHUNKED_IN_CHUNK_SIZE" "decoder_ok d'"
    "\<forall>out. run_bytes (ldec l) out (drop (lsrc l) (lbuf l)) = run_bytes d' out rest'"
    "case r of
       None \<Rightarrow> \<exists>c cs. rest' = c # cs \<and> decode_hex c = None \<and> hex_count d' \<noteq> 0 \<and> ends_size c
     | Some ret \<Rightarrow> ret = - 2 \<and> rest' = [] \<or> ret = - 1 \<and> (\<exists>c cs. rest' = c # cs \<and> dec_byte d' c = Bad)"
    using chunk_size_loop_spec [OF loop st] ok by (auto simp: loop_ok_def)
  have rest': "drop src' (lbuf l) = rest'" using p(1,2) drop_split by simp
  have src': "src' \<le> lbufsz l" using p(1,2) ok by (auto simp: loop_ok_def) (metis drop_end le_add1 length_append add.assoc)
  have sw: "decode_switch l = (case r of
       Some ret \<Rightarrow> Exit ret (l\<lparr>ldec := d', lsrc := src'\<rparr>)
     | None \<Rightarrow> Next (l\<lparr>ldec := d'\<lparr>hex_count := 0, dec_state := CHUNKED_IN_CHUNK_EXT\<rparr>, lsrc := src'\<rparr>))"
    using st loop ok by (simp add: decode_switch_def loop_ok_def split: option.split)
  have next_ext: "run_bytes d' out rest' =
      run_bytes (d'\<lparr>hex_count := 0, dec_state := CHUNKED_IN_CHUNK_EXT\<rparr>) out rest'" if "r = None" for out
    using that p(3,6) by (auto simp: dec_byte_def ext_byte_def)
  show ?thesis
  proof (cases r)
    case None
    with ok p sw rest' src' next_ext show ?thesis
      by (auto simp: switch_ok_def loop_ok_def run_loop_def decoder_ok_def)
  next
    case (Some ret)
    with ok p sw rest' src' show ?thesis
      by (auto simp: switch_ok_def loop_ok_def run_loop_def)
  qed
qed

lemma switch_scan:
  assumes ok: "loop_ok l" and scan: "scan_to P (drop (lsrc l) (lbuf l)) (lsrc l) = (found, src')"
    and stay: "\<And>c. \<not> P c \<Longrightarrow> dec_byte (ldec l) c = More (ldec l)"
  shows "src' \<le> lbufsz l \<and> lsrc l \<le> src' \<and>
    run_loop l = run_bytes (ldec l) (take (ldst l) (lbuf l)) (drop src' (lbuf l)) \<and>
    (if found then P (lbuf l ! src') \<and> Suc src' \<le> lbufsz l \<and>
       drop src' (lbuf l) = lbuf l ! src' # drop (Suc src') (lbuf l)
     else drop src' (lbuf l) = [])"
proof -
  obtain pre rest' where p: "drop (lsrc l) (lbuf l) = pre @ rest'" "src' = lsrc l + length pre"
    "\<forall>c \<in> set pre. \<not> P c" "found \<longrightarrow> (\<exists>c cs. rest' = c # cs \<and> P c)" "\<not> found \<longrightarrow> rest' = []"
    using scan_to_split [OF scan] by blast
  have rest': "drop src' (lbuf l) = rest'" using p(1,2) drop_split by simp
  have "run_loop l = run_bytes (ldec l) (take (ldst l) (lbuf l)) rest'"
    using p(1,3) stay by (simp add: run_loop_def run_bytes_stay)
  moreover have "src' \<le> lbufsz l"
    using p(1,2) ok by (auto simp: loop_ok_def) (metis drop_end le_add1 length_append add.assoc)
  moreover have "P (lbuf l ! src') \<and> Suc src' \<le> lbufsz l \<and>
      rest' = lbuf l ! src' # drop (Suc src') (lbuf l)" if f: found
  proof -
    obtain c cs where c: "rest' = c # cs" "P c" using p(4) f by blast
    with p(1,2) ok drop_split_Cons [of "lsrc l" "lbuf l" pre c cs] show ?thesis by (simp add: loop_ok_def)
  qed
  ultimately show ?thesis using p(2,5) rest' by auto
qed
lemma switch_ext:
  assumes ok: "loop_ok l" and st: "dec_state (ldec l) = CHUNKED_IN_CHUNK_EXT"
  shows "switch_ok l (decode_switch l)"
proof -
  obtain found src' where scan: "scan_to (\<lambda>c. c = LF) (drop (lsrc l) (lbuf l)) (lsrc l) = (found, src')"
    by fastforce
  have "dec_byte (ldec l) c = More (ldec l)" if "c \<noteq> LF" for c
    using st that by (simp add: dec_byte_def ext_byte_def)
  from switch_scan [OF ok scan this] scan st ok show ?thesis
    by (cases found) (auto simp: decode_switch_def Let_def switch_ok_def loop_ok_def run_loop_def decoder_ok_def
        dec_byte_def ext_byte_def)
qed

lemma switch_crlf:
  assumes ok: "loop_ok l" and st: "dec_state (ldec l) = CHUNKED_IN_CHUNK_CRLF"
  shows "switch_ok l (decode_switch l)"
proof -
  obtain found src' where scan: "scan_to (\<lambda>c. c \<noteq> CR) (drop (lsrc l) (lbuf l)) (lsrc l) = (found, src')"
    by fastforce
  have "dec_byte (ldec l) c = More (ldec l)" if "\<not> c \<noteq> CR" for c
    using st that by (simp add: dec_byte_def)
  from switch_scan [OF ok scan this] scan st ok show ?thesis
    by (cases found) (auto simp: decode_switch_def Let_def switch_ok_def loop_ok_def run_loop_def decoder_ok_def
        dec_byte_def)
qed

lemma switch_head:
  assumes ok: "loop_ok l" and st: "dec_state (ldec l) = CHUNKED_IN_TRAILERS_LINE_HEAD"
  shows "switch_ok l (decode_switch l)"
proof -
  obtain found src' where scan: "scan_to (\<lambda>c. c \<noteq> CR) (drop (lsrc l) (lbuf l)) (lsrc l) = (found, src')"
    by fastforce
  have "dec_byte (ldec l) c = More (ldec l)" if "\<not> c \<noteq> CR" for c
    using st that by (simp add: dec_byte_def)
  from switch_scan [OF ok scan this] scan st ok show ?thesis
    by (cases found) (auto simp: decode_switch_def Let_def switch_ok_def loop_ok_def run_loop_def decoder_ok_def
        dec_byte_def)
qed

lemma switch_middle:
  assumes ok: "loop_ok l" and st: "dec_state (ldec l) = CHUNKED_IN_TRAILERS_LINE_MIDDLE"
  shows "switch_ok l (decode_switch l)"
proof -
  obtain found src' where scan: "scan_to (\<lambda>c. c = LF) (drop (lsrc l) (lbuf l)) (lsrc l) = (found, src')"
    by fastforce
  have "dec_byte (ldec l) c = More (ldec l)" if "c \<noteq> LF" for c
    using st that by (simp add: dec_byte_def)
  from switch_scan [OF ok scan this] scan st ok show ?thesis
    by (cases found) (auto simp: decode_switch_def Let_def switch_ok_def loop_ok_def run_loop_def decoder_ok_def
        dec_byte_def)
qed

text \<open>The data of a chunk, when the buffer holds a part of it, and when it holds all of it.\<close>

lemma switch_data_part:
  assumes ok: "loop_ok l" and st: "dec_state (ldec l) = CHUNKED_IN_CHUNK_DATA"
    and part: "lbufsz l - lsrc l < unat (bytes_left_in_chunk (ldec l))"
  shows "switch_ok l (decode_switch l)"
proof -
  let ?d = "ldec l" and ?buf = "lbuf l" and ?dst = "ldst l" and ?src = "lsrc l" and ?avail = "lbufsz l - lsrc l"
  have len: "length ?buf = lbufsz l" "?dst \<le> ?src" "?src \<le> lbufsz l" "hex_count ?d = 0"
    using ok st by (auto simp: loop_ok_def decoder_ok_def)
  have all: "take ?avail (drop ?src ?buf) = drop ?src ?buf" using len by simp
  have left: "bytes_left_in_chunk ?d \<noteq> word_of_nat ?avail"
    using part by (metis less_irrefl nat_less_le order.strict_trans1 unat_of_nat mod_less_eq_dividend)
  define buf' where "buf' = (if ?dst \<noteq> ?src then memmove ?buf ?dst ?src ?avail else ?buf)"
  note m = moved_facts [OF len(2) _ buf'_def]
  have sw: "decode_switch l = Exit (- 2) (l\<lparr>lbuf := buf', lsrc := ?src + ?avail, ldst := ?dst + ?avail,
      ldec := ?d\<lparr>bytes_left_in_chunk := bytes_left_in_chunk ?d - word_of_nat ?avail\<rparr>\<rparr>)"
    using part st by (simp add: decode_switch_def Let_def buf'_def)
  have run: "run_loop l = (- 2, ?d\<lparr>bytes_left_in_chunk := bytes_left_in_chunk ?d - word_of_nat ?avail\<rparr>,
      take ?dst ?buf @ drop ?src ?buf, [])"
    using run_bytes_data [of ?d "drop ?src ?buf" "take ?dst ?buf" "[]"] part st len by (simp add: run_loop_def)
  have mv: "length buf' = lbufsz l" "take (?dst + ?avail) buf' = take ?dst ?buf @ drop ?src ?buf"
    "drop (?src + ?avail) buf' = []" using m all len by simp_all
  show ?thesis
    unfolding sw switch_ok_def
    using run mv len st left by (simp add: loop_ok_def decoder_ok_def)
qed

lemma switch_data:
  assumes ok: "loop_ok l" and st: "dec_state (ldec l) = CHUNKED_IN_CHUNK_DATA"
  shows "switch_ok l (decode_switch l)"
proof (cases "lbufsz l - lsrc l < unat (bytes_left_in_chunk (ldec l))")
  case False
  let ?d = "ldec l" and ?buf = "lbuf l" and ?dst = "ldst l" and ?src = "lsrc l" and ?n = "unat (bytes_left_in_chunk (ldec l))"
  have len: "length ?buf = lbufsz l" "?dst \<le> ?src" "?src \<le> lbufsz l" "bytes_left_in_chunk ?d \<noteq> 0"
    "hex_count ?d = 0" using ok st by (auto simp: loop_ok_def decoder_ok_def)
  define buf' where "buf' = (if ?dst \<noteq> ?src then memmove ?buf ?dst ?src ?n else ?buf)"
  have fits: "?src + ?n \<le> length ?buf" using False len by simp
  note m = moved_facts [OF len(2) fits buf'_def]
  have sw: "decode_switch l = Next (l\<lparr>lbuf := buf', lsrc := ?src + ?n, ldst := ?dst + ?n,
      ldec := ?d\<lparr>bytes_left_in_chunk := 0, dec_state := CHUNKED_IN_CHUNK_CRLF\<rparr>\<rparr>)"
    using False st by (simp add: decode_switch_def Let_def buf'_def)
  have "run_loop l = run_bytes (?d\<lparr>bytes_left_in_chunk := 0, dec_state := CHUNKED_IN_CHUNK_CRLF\<rparr>)
      (take ?dst ?buf @ take ?n (drop ?src ?buf)) (drop (?src + ?n) ?buf)"
    using run_bytes_data_end [of ?d "take ?n (drop ?src ?buf)" "take ?dst ?buf" "drop (?src + ?n) ?buf"]
      st len fits by (simp add: run_loop_def add.commute [of _ ?n] flip: drop_drop)
  then show ?thesis
    unfolding sw switch_ok_def
    using m len fits st by (simp add: loop_ok_def decoder_ok_def run_loop_def)
qed (use switch_data_part [OF assms] in simp)

lemma switch_refines: "loop_ok l \<Longrightarrow> switch_ok l (decode_switch l)"
  by (cases "dec_state (ldec l)")
    (simp_all add: switch_size switch_ext switch_data switch_crlf switch_head switch_middle)

lemma decode_while_refines:
  "loop_ok l \<Longrightarrow> decode_while l = (ret, l') \<Longrightarrow>
   loop_ok l' \<and> run_loop l = (ret, ldec l', take (ldst l') (lbuf l'), drop (lsrc l') (lbuf l'))"
proof (induction l rule: decode_while.induct)
  case (1 l)
  note sw = switch_refines [OF "1.prems"(1)]
  show ?case
    using sw 1 by (cases "decode_switch l") (auto simp: switch_ok_def decode_while.simps [of l])
qed
lemma switch_bufsz:
  "(case decode_switch l of Next l' \<Rightarrow> lbufsz l' | Complete l' \<Rightarrow> lbufsz l' | Exit r l' \<Rightarrow> lbufsz l') = lbufsz l"
  by (simp add: decode_switch_def Let_def split: chunk_state.split prod.split option.split bool.split)

lemma decode_while_bufsz: "decode_while l = (ret, l') \<Longrightarrow> lbufsz l' = lbufsz l"
proof (induction l rule: decode_while.induct)
  case (1 l)
  then show ?case
    using switch_bufsz [of l] by (cases "decode_switch l") (auto simp: decode_while.simps [of l])
qed

lemma start_loop_ok: "decoder_ok d \<Longrightarrow> loop_ok (start_loop d buf)"
  by (auto simp: loop_ok_def start_loop_def decoder_ok_def split: chunk_state.splits)

abbreviation count_read :: "phr_chunked_decoder \<Rightarrow> string \<Rightarrow> phr_chunked_decoder" where
  "count_read d buf \<equiv> d\<lparr>total_read := total_read d + word_of_nat (length buf)\<rparr>"

text \<open>The last move of the function puts the bytes that were not read behind the decoded ones.\<close>

lemma final_move:
  assumes "loop_ok l" and "buf' = (if ldst l \<noteq> lsrc l then memmove (lbuf l) (ldst l) (lsrc l) (lbufsz l - lsrc l) else lbuf l)"
  shows "take (ldst l) buf' = take (ldst l) (lbuf l)"
    "take (lbufsz l - lsrc l) (drop (ldst l) buf') = drop (lsrc l) (lbuf l)"
proof -
  let ?n = "lbufsz l - lsrc l"
  have len: "length (lbuf l) = lbufsz l" "ldst l \<le> lsrc l" "lsrc l \<le> lbufsz l" using assms(1) by (auto simp: loop_ok_def)
  have m: "take (ldst l + ?n) buf' = take (ldst l) (lbuf l) @ drop (lsrc l) (lbuf l)"
    using moved_facts(2) [OF len(2) _ assms(2)] len by simp
  have "take (ldst l) buf' = take (ldst l) (take (ldst l + ?n) buf')" by simp
  then show "take (ldst l) buf' = take (ldst l) (lbuf l)" using len unfolding m by simp
  have "take ?n (drop (ldst l) buf') = drop (ldst l) (take (ldst l + ?n) buf')" by (simp add: drop_take)
  then show "take ?n (drop (ldst l) buf') = drop (lsrc l) (lbuf l)" using len unfolding m by simp
qed

lemma decode_refines:
  assumes ok: "decoder_ok d" and run: "run_bytes (count_read d buf) [] buf = (ret, d', out, rest)"
  shows "let call = phr_decode_chunked d buf in
    take (call_bufsz call) (call_buf call) = out \<and>
    take (length rest) (drop (call_bufsz call) (call_buf call)) = rest \<and>
    (call_ret call = ret \<or> ret = - 2 \<and> call_ret call = - 1) \<and>
    call_decoder call = d'\<lparr>total_overhead := total_overhead (call_decoder call)\<rparr> \<and>
    decoder_ok d' \<and> call_bufsz call = length out"
proof -
  obtain r l where w: "decode_while (start_loop d buf) = (r, l)" by fastforce
  have "run_loop (start_loop d buf) = (ret, d', out, rest)"
    using run by (simp add: run_loop_def start_loop_def)
  with decode_while_refines [OF start_loop_ok [OF ok] w]
  have l: "loop_ok l" "r = ret" "ldec l = d'" "take (ldst l) (lbuf l) = out" "drop (lsrc l) (lbuf l) = rest"
    by auto
  then have "length rest = lbufsz l - lsrc l" "ldst l = length out" "decoder_ok d'"
    by (auto simp: loop_ok_def)
  with l final_move [OF l(1) refl] w show ?thesis
    by (simp add: phr_decode_chunked_def Let_def)
qed

section \<open>Round trip with the chunks the gateway writes\<close>

text \<open>
  One chunk as \<^verbatim>\<open>handleGzipCompression\<close> writes it: the size in hexadecimal, the data, a CR LF after
  each; and the last chunk, \<^verbatim>\<open>CRequest::kChunkedEncodingEndingStr\<close>.
\<close>

definition chunk_frame :: "string \<Rightarrow> string" where
  "chunk_frame payload = hex (length payload) @ [CR, LF] @ payload @ [CR, LF]"

definition kChunkedEncodingEndingStr :: string where
  "kChunkedEncodingEndingStr = ''0'' @ [CR, LF, CR, LF]"

lemma decode_hex_digit: "v < 16 \<Longrightarrow> decode_hex (hex_digit v) = Some v"
  by (auto simp: decode_hex_def hex_digit_def)

abbreviation hex_vals :: "string \<Rightarrow> nat list" where
  "hex_vals s \<equiv> map (\<lambda>c. the (decode_hex c)) s"

lemma run_bytes_hex:
  "\<forall>c \<in> set s. decode_hex c \<noteq> None \<Longrightarrow> dec_state d = CHUNKED_IN_CHUNK_SIZE \<Longrightarrow> hex_count d + length s \<le> 16 \<Longrightarrow>
   run_bytes d out (s @ rest) =
     run_bytes (d\<lparr>bytes_left_in_chunk := foldl (\<lambda>n v. n * 16 + word_of_nat v) (bytes_left_in_chunk d) (hex_vals s),
                  hex_count := hex_count d + length s\<rparr>) out rest"
proof (induction s arbitrary: d)
  case (Cons c s)
  then obtain v where v: "decode_hex c = Some v" by auto
  let ?d = "d\<lparr>bytes_left_in_chunk := bytes_left_in_chunk d * 16 + word_of_nat v, hex_count := hex_count d + 1\<rparr>"
  have "dec_byte d c = More ?d" using Cons.prems v by (simp add: dec_byte_def)
  then show ?case using Cons.IH [of ?d] Cons.prems v by simp
qed simp

lemma hex_vals_hex: "\<forall>c \<in> set (hex n). decode_hex c \<noteq> None" "hex_vals (hex n) = radix 16 n"
proof -
  have digits: "v < 16" if "v \<in> set (radix 16 n)" for v using radix_digits [OF _ that] by simp
  show "\<forall>c \<in> set (hex n). decode_hex c \<noteq> None"
    by (auto simp: hex_def decode_hex_digit digits)
  have "hex_vals (hex n) = map (\<lambda>v. v) (radix 16 n)"
    unfolding hex_def map_map by (rule map_cong) (auto simp: decode_hex_digit digits)
  then show "hex_vals (hex n) = radix 16 n" by simp
qed

lemma hex_vals_bound:
  "\<forall>c \<in> set s. decode_hex c \<noteq> None \<Longrightarrow> value_of 16 (hex_vals s) < 16 ^ length s"
proof (induction s rule: rev_induct)
  case (snoc c s)
  then obtain v where "decode_hex c = Some v" by auto
  with snoc decode_hex_less [of c v] show ?case by simp
qed simp

lemma foldl_word: "foldl (\<lambda>n v. n * 16 + word_of_nat v) (word_of_nat a) ds =
    (word_of_nat (foldl (\<lambda>n v. n * 16 + v) a ds) :: size_t)"
proof (induction ds arbitrary: a)
  case (Cons v ds)
  have "word_of_nat a * 16 + word_of_nat v = (word_of_nat (a * 16 + v) :: size_t)" by simp
  then show ?case by (simp only: foldl.simps Cons)
qed simp

lemma radix_length: "n < 16 ^ k \<Longrightarrow> k > 0 \<Longrightarrow> length (radix 16 n) \<le> k"
proof (induction k arbitrary: n)
  case (Suc k)
  show ?case
  proof (cases "n < 16")
    case True
    then show ?thesis by (simp add: radix.simps [of 16 n])
  next
    case False
    then have "k > 0" using Suc.prems by (cases k) auto
    moreover have "n div 16 < 16 ^ k" using Suc.prems by (simp add: less_mult_imp_div_less)
    ultimately have "length (radix 16 (n div 16)) \<le> k" using Suc.IH by simp
    then show ?thesis using False by (simp add: radix.simps [of 16 n])
  qed
qed simp

lemma run_bytes_size_line:
  assumes "n < 2 ^ 64" "dec_state d = CHUNKED_IN_CHUNK_SIZE" "hex_count d = 0" "bytes_left_in_chunk d = 0"
  shows "run_bytes d out (hex n @ CR # LF # rest) =
    run_bytes (d\<lparr>bytes_left_in_chunk := word_of_nat n, hex_count := 0, dec_state := CHUNKED_IN_CHUNK_EXT\<rparr>)
      out (LF # rest)"
proof -
  have "n < 16 ^ 16" using assms(1) by simp
  then have len: "length (radix 16 n) \<le> 16" by (rule radix_length) simp
  then have hex_len: "length (hex n) \<le> 16" "hex n \<noteq> []" by (simp_all add: hex_def)
  have "foldl (\<lambda>n v. n * 16 + word_of_nat v) 0 (radix 16 n) = (word_of_nat n :: size_t)"
    using foldl_word [of 0 "radix 16 n"] value_of_radix [of 16 n] by (simp add: value_of_def)
  moreover have "decode_hex CR = None" "ends_size CR" by (simp_all add: decode_hex_def ends_size_def)
  ultimately show ?thesis
    using run_bytes_hex [OF hex_vals_hex(1) assms(2), of n out "CR # LF # rest"] hex_len assms
    by (simp add: hex_vals_hex(2) dec_byte_def ext_byte_def)
qed
lemma word_of_nat_neq_0: "0 < n \<Longrightarrow> n < 2 ^ 64 \<Longrightarrow> (word_of_nat n :: size_t) \<noteq> 0"
  using unat_of_nat [where ?'a = 64, of n] by auto

lemma run_bytes_frame:
  assumes "payload \<noteq> []" "length payload < 2 ^ 64"
    "dec_state d = CHUNKED_IN_CHUNK_SIZE" "hex_count d = 0" "bytes_left_in_chunk d = 0"
  shows "run_bytes d out (chunk_frame payload @ rest) = run_bytes d (out @ payload) rest"
proof -
  let ?n = "word_of_nat (length payload) :: size_t"
  let ?data = "d\<lparr>bytes_left_in_chunk := ?n, hex_count := 0, dec_state := CHUNKED_IN_CHUNK_DATA\<rparr>"
  have n: "?n \<noteq> 0" "unat ?n = length payload"
    using assms(1,2) word_of_nat_neq_0 [of "length payload"] by (simp_all add: unat_of_nat)
  have "run_bytes d out (chunk_frame payload @ rest) = run_bytes ?data out (payload @ CR # LF # rest)"
    using run_bytes_size_line [OF assms(2-5), of out "payload @ CR # LF # rest"] n
    by (simp add: chunk_frame_def dec_byte_def ext_byte_def)
  also have "\<dots> = run_bytes (?data\<lparr>bytes_left_in_chunk := 0, dec_state := CHUNKED_IN_CHUNK_CRLF\<rparr>)
      (out @ payload) (CR # LF # rest)"
    using n by (intro run_bytes_data_end) simp_all
  also have "\<dots> = run_bytes (d\<lparr>hex_count := 0, bytes_left_in_chunk := 0, dec_state := CHUNKED_IN_CHUNK_SIZE\<rparr>)
      (out @ payload) rest"
    by (simp add: dec_byte_def)
  also have "d\<lparr>hex_count := 0, bytes_left_in_chunk := 0, dec_state := CHUNKED_IN_CHUNK_SIZE\<rparr> = d"
    using assms(3-5) by (cases d) simp
  finally show ?thesis .
qed

lemma run_bytes_frames:
  "list_all (\<lambda>p. p \<noteq> [] \<and> length p < 2 ^ 64) payloads \<Longrightarrow> dec_state d = CHUNKED_IN_CHUNK_SIZE \<Longrightarrow>
   hex_count d = 0 \<Longrightarrow> bytes_left_in_chunk d = 0 \<Longrightarrow>
   run_bytes d out (concat (map chunk_frame payloads) @ rest) = run_bytes d (out @ concat payloads) rest"
  by (induction payloads arbitrary: out) (simp_all add: run_bytes_frame)

lemma hex_zero: "hex 0 = ''0''"
  by code_simp

lemma run_bytes_ending:
  assumes "dec_state d = CHUNKED_IN_CHUNK_SIZE" "hex_count d = 0" "bytes_left_in_chunk d = 0"
  shows "\<exists>d'. run_bytes d out (kChunkedEncodingEndingStr @ rest) =
    (if consume_trailer d then (int (length rest), d', out, rest)
     else (int (length rest) + 2, d', out, CR # LF # rest))"
  using run_bytes_size_line [OF _ assms, of 0 out "CR # LF # rest"]
  by (simp add: kChunkedEncodingEndingStr_def hex_zero dec_byte_def ext_byte_def)

section \<open>Decoding in pieces\<close>

abbreviation with_totals :: "u64 \<Rightarrow> u64 \<Rightarrow> phr_chunked_decoder \<Rightarrow> phr_chunked_decoder" where
  "with_totals tr t d \<equiv> d\<lparr>total_read := tr, total_overhead := t\<rparr>"

primrec byte_totals :: "u64 \<Rightarrow> u64 \<Rightarrow> byte_result \<Rightarrow> byte_result" where
  "byte_totals tr t (More d) = More (with_totals tr t d)"
| "byte_totals tr t (Emit d) = Emit (with_totals tr t d)"
| "byte_totals tr t (Done d) = Done (with_totals tr t d)"
| "byte_totals tr t Bad = Bad"

lemma dec_byte_totals: "dec_byte (with_totals tr t d) c = byte_totals tr t (dec_byte d c)"
  by (cases d) (simp add: dec_byte_def ext_byte_def split: chunk_state.split option.split)

lemma run_bytes_totals:
  "run_bytes d out s = (ret, d', out', rest) \<Longrightarrow>
   run_bytes (with_totals tr t d) out s = (ret, with_totals tr t d', out', rest)"
  by (induction d out s rule: run_bytes.induct) (auto simp: dec_byte_totals split: byte_result.splits)

lemma run_bytes_kept:
  "run_bytes d out s = (ret, d', out', rest) \<Longrightarrow>
   total_read d' = total_read d \<and> total_overhead d' = total_overhead d"
proof -
  assume run: "run_bytes d out s = (ret, d', out', rest)"
  have "with_totals (total_read d) (total_overhead d) d = d" by (cases d) simp
  then have "d' = with_totals (total_read d) (total_overhead d) d'"
    using run_bytes_totals [OF run, where tr = "total_read d" and t = "total_overhead d"] run by simp
  then show ?thesis by (metis phr_chunked_decoder.select_convs(5,6) phr_chunked_decoder.surjective
        phr_chunked_decoder.update_convs(5,6))
qed

lemma run_bytes_append:
  "run_bytes d out xs = (- 2, d', out', rest) \<Longrightarrow>
   rest = [] \<and> run_bytes d out (xs @ ys) = run_bytes d' out' ys"
  by (induction d out xs rule: run_bytes.induct) (auto split: byte_result.splits)

lemma run_bytes_out: "run_bytes d (out @ out1) s = (ret, d', out', rest) \<longleftrightarrow>
   (\<exists>o'. run_bytes d out1 s = (ret, d', o', rest) \<and> out' = out @ o')"
proof (induction d out1 s arbitrary: out' rule: run_bytes.induct)
  case (2 d out1 c cs)
  show ?case
    using 2 by (cases "dec_byte d c") auto
qed auto

lemma run_bytes_length:
  "run_bytes d out s = (ret, d', out', rest) \<Longrightarrow> length out' + length rest \<le> length out + length s"
  by (induction d out s rule: run_bytes.induct) (fastforce split: byte_result.splits)+

text \<open>The return value after the limit on the overhead.\<close>

definition limited :: "int \<Rightarrow> u64 \<Rightarrow> u64 \<Rightarrow> int" where
  "limited ret tr overhead =
     (if ret = - 2 \<and> 100 * 1024 \<le> overhead \<and> tr - overhead < tr div 4 then - 1 else ret)"

lemma decode_eq:
  assumes ok: "decoder_ok d" and run: "run_bytes (count_read d buf) [] buf = (ret, d', out, rest)"
  shows "let call = phr_decode_chunked d buf; overhead = total_overhead d + word_of_nat (length buf - length out) in
    call_ret call = limited ret (total_read d') overhead \<and>
    call_decoder call = (if ret = - 2 then d'\<lparr>total_overhead := overhead\<rparr> else d')"
proof -
  obtain r l where w: "decode_while (start_loop d buf) = (r, l)" by fastforce
  have "run_loop (start_loop d buf) = (ret, d', out, rest)"
    using run by (simp add: run_loop_def start_loop_def)
  with decode_while_refines [OF start_loop_ok [OF ok] w]
  have l: "loop_ok l" "r = ret" "ldec l = d'" "take (ldst l) (lbuf l) = out" by auto
  then have "ldst l = length out" by (auto simp: loop_ok_def)
  moreover have "lbufsz l = length buf"
    using decode_while_bufsz [OF w] by (simp add: start_loop_def)
  moreover have "total_overhead d' = total_overhead d" using run_bytes_kept [OF run] by simp
  ultimately show ?thesis
    using w l by (simp add: phr_decode_chunked_def Let_def limited_def)
qed
lemma frames_decode:
  assumes "list_all (\<lambda>p. p \<noteq> [] \<and> length p < 2 ^ 64) payloads"
  shows "\<exists>call. phr_decode_chunked (zero_decoder trailer)
      (concat (map chunk_frame payloads) @ kChunkedEncodingEndingStr @ rest) = call \<and>
    take (call_bufsz call) (call_buf call) = concat payloads \<and>
    call_ret call = int (length rest) + (if trailer then 0 else 2)"
proof -
  let ?buf = "concat (map chunk_frame payloads) @ kChunkedEncodingEndingStr @ rest"
  let ?d = "count_read (zero_decoder trailer) ?buf"
  have zero: "dec_state ?d = CHUNKED_IN_CHUNK_SIZE" "hex_count ?d = 0" "bytes_left_in_chunk ?d = 0"
    "consume_trailer ?d = trailer" by (simp_all add: zero_decoder_def)
  obtain d' where "run_bytes ?d [] ?buf =
      (if trailer then (int (length rest), d', concat payloads, rest)
       else (int (length rest) + 2, d', concat payloads, CR # LF # rest))"
    using run_bytes_frames [OF assms zero(1-3), of "[]" "kChunkedEncodingEndingStr @ rest"]
      run_bytes_ending [OF zero(1-3), of "concat payloads" rest] zero(4) by auto
  moreover have "decoder_ok (zero_decoder trailer)" by (simp add: decoder_ok_def zero_decoder_def)
  ultimately show ?thesis
    by (cases trailer) (auto dest!: decode_refines simp: Let_def)
qed

section \<open>Theorems\<close>

text \<open>C15: The in-place decoder returns what reading the input byte by byte returns: the decoded bytes
  are at the front of the buffer, the bytes after the end of the body right behind them, the
  decoder's state is the automaton's, and the return value is the automaton's unless the limit on
  the framing overhead turns an incomplete body into an error.\<close>

theorem chunked_refines_bytewise:
  assumes "decoder_ok d" and "run_bytes (count_read d buf) [] buf = (ret, d', out, rest)"
  shows "\<exists>call. phr_decode_chunked d buf = call \<and>
    take (call_bufsz call) (call_buf call) = out \<and>
    take (length rest) (drop (call_bufsz call) (call_buf call)) = rest \<and>
    (call_ret call = ret \<or> ret = - 2 \<and> call_ret call = - 1) \<and>
    call_decoder call = d'\<lparr>total_overhead := total_overhead (call_decoder call)\<rparr> \<and>
    decoder_ok (call_decoder call)"
proof -
  let ?call = "phr_decode_chunked d buf"
  note r = decode_refines [OF assms, unfolded Let_def]
  have "decoder_ok (call_decoder ?call) \<longleftrightarrow> decoder_ok d'"
    using r by (metis (no_types, lifting) decoder_ok_def phr_chunked_decoder.select_convs(1,3,4)
        phr_chunked_decoder.surjective phr_chunked_decoder.update_convs(6))
  with r show ?thesis by auto
qed

theorem chunked_refines_bytewise_witness:
  "\<exists>call. phr_decode_chunked (zero_decoder False) (''2'' @ [LF] @ ''ab'' @ [CR, LF] @ ''3;x'' @ [LF] @ ''c'') = call \<and>
     take (call_bufsz call) (call_buf call) = ''abc'' \<and>
     take (length ([] :: string)) (drop (call_bufsz call) (call_buf call)) = [] \<and>
     (call_ret call = - 2 \<or> - 2 = (- 2 :: int) \<and> call_ret call = - 1) \<and>
     call_decoder call = \<lparr>bytes_left_in_chunk = 2, consume_trailer = False, hex_count = 0,
       dec_state = CHUNKED_IN_CHUNK_DATA, total_read = 11, total_overhead = 0\<rparr>
         \<lparr>total_overhead := total_overhead (call_decoder call)\<rparr> \<and>
     decoder_ok (call_decoder call)"
  by (rule chunked_refines_bytewise; code_simp)

text \<open>C20: Decoding the chunks that the gateway writes, followed by its last chunk, returns the data of
  all chunks in order, and the return value counts the bytes after the body; when the decoder was
  not told to consume trailers, the empty line of the last chunk is counted with them.\<close>

theorem chunked_round_trip:
  assumes "list_all (\<lambda>p. p \<noteq> [] \<and> length p < 2 ^ 64) payloads"
  shows "\<exists>call. phr_decode_chunked (zero_decoder trailer)
      (concat (map chunk_frame payloads) @ kChunkedEncodingEndingStr @ rest) = call \<and>
    take (call_bufsz call) (call_buf call) = concat payloads \<and>
    call_ret call = int (length rest) + (if trailer then 0 else 2)"
  using assms by (rule frames_decode)

theorem chunked_round_trip_witness:
  "\<exists>call. phr_decode_chunked (zero_decoder False)
      (concat (map chunk_frame [''hello'', '' world, again'']) @ kChunkedEncodingEndingStr @ ''next'') = call \<and>
    take (call_bufsz call) (call_buf call) = concat [''hello'', '' world, again''] \<and>
    call_ret call = int (length ''next'') + (if False then 0 else 2)"
  by (rule chunked_round_trip) simp

text \<open>A body that arrives in two reads decodes to the same bytes with the same return value as in
  one read, the limit on the framing overhead included, as long as the first read was incomplete.\<close>

theorem chunked_split:
  assumes "decoder_ok d" and "call_ret (phr_decode_chunked d xs) = - 2"
  shows "\<exists>call1 call2 call. phr_decode_chunked d xs = call1 \<and>
    phr_decode_chunked (call_decoder call1) ys = call2 \<and> phr_decode_chunked d (xs @ ys) = call \<and>
    call_ret call2 = call_ret call \<and>
    take (call_bufsz call) (call_buf call) =
      take (call_bufsz call1) (call_buf call1) @ take (call_bufsz call2) (call_buf call2)"
proof -
  obtain ret1 d1 out1 rest1 where run1: "run_bytes (count_read d xs) [] xs = (ret1, d1, out1, rest1)"
    by (metis prod_cases4)
  let ?n = "word_of_nat (length xs) :: u64" and ?o1 = "word_of_nat (length xs - length out1) :: u64"
  let ?tr = "total_read d + ?n + word_of_nat (length ys)" and ?to = "total_overhead d + ?o1"
  note c1 = decode_eq [OF assms(1) run1, unfolded Let_def] decode_refines [OF assms(1) run1, unfolded Let_def]
  have ret1: "ret1 = - 2" using c1 assms(2) by (auto simp: limited_def split: if_splits)
  have len1: "length out1 \<le> length xs" using run_bytes_length [OF run1] by simp
  have d1: "decoder_ok d1" "total_read d1 = total_read d + ?n"
    using c1 run_bytes_kept [OF run1] by auto
  let ?d2 = "d1\<lparr>total_overhead := ?to\<rparr>"
  have call1: "call_decoder (phr_decode_chunked d xs) = ?d2" using c1 ret1 by simp
  obtain ret2 d2 out2 rest2 where run2: "run_bytes (with_totals ?tr (total_overhead d) d1) [] ys = (ret2, d2, out2, rest2)"
    by (metis prod_cases4)
  have "count_read ?d2 ys = with_totals ?tr ?to d1" using d1(2) by simp
  then have run2': "run_bytes (count_read ?d2 ys) [] ys = (ret2, with_totals ?tr ?to d2, out2, rest2)"
    using run_bytes_totals [OF run2, where tr = ?tr and t = ?to] by simp
  have "run_bytes (count_read d (xs @ ys)) [] xs = (- 2, with_totals ?tr (total_overhead d) d1, out1, rest1)"
    using run_bytes_totals [OF run1, where tr = ?tr and t = "total_overhead d"] ret1 by (simp add: add.assoc)
  from run_bytes_append [OF this, of ys] run2 run_bytes_out [of _ out1 "[]" ys]
  have run: "run_bytes (count_read d (xs @ ys)) [] (xs @ ys) = (ret2, d2, out1 @ out2, rest2)" by simp
  have d2: "decoder_ok ?d2" using d1(1) by (simp add: decoder_ok_def split: chunk_state.splits)
  note c2 = decode_eq [OF d2 run2', unfolded Let_def] decode_refines [OF d2 run2', unfolded Let_def]
  note c = decode_eq [OF assms(1) run, unfolded Let_def] decode_refines [OF assms(1) run, unfolded Let_def]
  have tr: "total_read d2 = ?tr" using run_bytes_kept [OF run2] by simp
  have "length out2 \<le> length ys" using run_bytes_length [OF run2] by simp
  then have sum: "?to + word_of_nat (length ys - length out2) =
      total_overhead d + word_of_nat (length (xs @ ys) - length (out1 @ out2))"
    using len1 by (simp add: of_nat_diff algebra_simps)
  have "call_ret (phr_decode_chunked ?d2 ys) = limited ret2 ?tr (?to + word_of_nat (length ys - length out2))"
    using c2(1) by simp
  also have "\<dots> = call_ret (phr_decode_chunked d (xs @ ys))"
    unfolding sum using c(1) tr by (simp only:)
  finally have "call_ret (phr_decode_chunked ?d2 ys) = call_ret (phr_decode_chunked d (xs @ ys))" .
  then show ?thesis using c1(2) c2(2) c(2) call1 by auto
qed

theorem chunked_split_witness:
  "\<exists>call1 call2 call. phr_decode_chunked (zero_decoder True) (''5'' @ [CR, LF] @ ''he'') = call1 \<and>
    phr_decode_chunked (call_decoder call1) (''llo'' @ [CR]) = call2 \<and>
    phr_decode_chunked (zero_decoder True) ((''5'' @ [CR, LF] @ ''he'') @ ''llo'' @ [CR]) = call \<and>
    call_ret call2 = call_ret call \<and>
    take (call_bufsz call) (call_buf call) =
      take (call_bufsz call1) (call_buf call1) @ take (call_bufsz call2) (call_buf call2)"
  by (rule chunked_split; code_simp)


text \<open>The size of a chunk is read exactly: up to 16 hexadecimal digits give their value with no
  wrap-around in the 64-bit counter, and a 17th digit is an error.\<close>

theorem chunk_size_exact:
  assumes "s \<noteq> []" and "\<forall>c \<in> set s. decode_hex c \<noteq> None"
  shows "if length s \<le> 16
    then call_ret (phr_decode_chunked (zero_decoder trailer) s) = - 2 \<and>
      unat (bytes_left_in_chunk (call_decoder (phr_decode_chunked (zero_decoder trailer) s))) =
        value_of 16 (hex_vals s)
    else call_ret (phr_decode_chunked (zero_decoder trailer) s) = - 1"
proof -
  let ?d = "count_read (zero_decoder trailer) s"
  have ok: "decoder_ok (zero_decoder trailer)" by (simp add: decoder_ok_def zero_decoder_def)
  have zero: "dec_state ?d = CHUNKED_IN_CHUNK_SIZE" "hex_count ?d = 0" "bytes_left_in_chunk ?d = 0"
    "total_overhead ?d = 0" by (simp_all add: zero_decoder_def)
  show ?thesis
  proof (cases "length s \<le> 16")
    case True
    let ?d' = "?d\<lparr>bytes_left_in_chunk := word_of_nat (value_of 16 (hex_vals s)), hex_count := length s\<rparr>"
    have run: "run_bytes ?d [] s = (- 2, ?d', [], [])"
      using run_bytes_hex [OF assms(2) zero(1), of "[]" "[]"] zero True foldl_word [of 0 "hex_vals s"]
      by (simp add: value_of_def)
    have "value_of 16 (hex_vals s) < 16 ^ length s" using assms(2) by (rule hex_vals_bound)
    also have "(16::nat) ^ length s \<le> 16 ^ 16" using True by (intro power_increasing) auto
    finally have "unat (word_of_nat (value_of 16 (hex_vals s)) :: size_t) = value_of 16 (hex_vals s)"
      by (simp add: unat_of_nat)
    moreover have "limited (- 2) (total_read ?d') (word_of_nat (length s)) = - 2"
      using True by (simp add: limited_def word_le_nat_alt unat_of_nat)
    ultimately show ?thesis
      using decode_eq [OF ok run] True by (simp add: Let_def zero_decoder_def)
  next
    case False
    obtain a c b where s: "s = a @ c # b" "length a = 16"
      using False by (metis append_take_drop_id drop_eq_Nil2 length_take list.exhaust min.absorb2 nle_le)
    let ?d' = "?d\<lparr>bytes_left_in_chunk := foldl (\<lambda>n v. n * 16 + word_of_nat v) 0 (hex_vals a), hex_count := 16\<rparr>"
    have "run_bytes ?d [] s = run_bytes ?d' [] (c # b)"
      using run_bytes_hex [of a ?d "[]" "c # b"] assms(2) s by (simp add: zero_decoder_def)
    also have "dec_byte ?d' c = Bad"
      using assms(2) s zero(1) by (auto simp: dec_byte_def)
    then have "run_bytes ?d' [] (c # b) = (- 1, ?d', [], c # b)" by simp
    finally show ?thesis
      using decode_eq [OF ok] False by (simp add: Let_def limited_def)
  qed
qed

theorem chunk_size_exact_witness:
  "if length ''fFfF000000000001'' \<le> (16::nat)
    then call_ret (phr_decode_chunked (zero_decoder True) ''fFfF000000000001'') = - 2 \<and>
      unat (bytes_left_in_chunk (call_decoder (phr_decode_chunked (zero_decoder True) ''fFfF000000000001''))) =
        value_of 16 (hex_vals ''fFfF000000000001'')
    else call_ret (phr_decode_chunked (zero_decoder True) ''fFfF000000000001'') = - 1"
  by (rule chunk_size_exact; code_simp)
end
