(* ===== verification/Crequest.thy ===== *)
theory Crequest
  imports Utils Pico_Laws
begin

text \<open>
  The HTTP messages the gateway builds itself, \<^verbatim>\<open>core/include/crequest.h\<close> and \<^verbatim>\<open>core/src/crequest.cc\<close>:
  status codes and their messages, content types by file extension, the header setters and the text
  of a message. The theorems tie the text to the parser of \<^verbatim>\<open>picohttpparser.c\<close>: a response that the
  gateway prints is read back as it was built.
\<close>

section \<open>Constants\<close>

text \<open>The status codes.\<close>

abbreviation kHttpContinue :: u16 where "kHttpContinue \<equiv> 100"
abbreviation kHttpSwitchingProtocols :: u16 where "kHttpSwitchingProtocols \<equiv> 101"
abbreviation kHttpOk :: u16 where "kHttpOk \<equiv> 200"
abbreviation kHttpCreated :: u16 where "kHttpCreated \<equiv> 201"
abbreviation kHttpAccepted :: u16 where "kHttpAccepted \<equiv> 202"
abbreviation kHttpNonAuthoritativeInformation :: u16 where "kHttpNonAuthoritativeInformation \<equiv> 203"
abbreviation kHttpNoContent :: u16 where "kHttpNoContent \<equiv> 204"
abbreviation kHttpResetContent :: u16 where "kHttpResetContent \<equiv> 205"
abbreviation kHttpPartialContent :: u16 where "kHttpPartialContent \<equiv> 206"
abbreviation kHttpMultipleChoices :: u16 where "kHttpMultipleChoices \<equiv> 300"
abbreviation kHttpMovedPermanently :: u16 where "kHttpMovedPermanently \<equiv> 301"
abbreviation kHttpFound :: u16 where "kHttpFound \<equiv> 302"
abbreviation kHttpSeeOther :: u16 where "kHttpSeeOther \<equiv> 303"
abbreviation kHttpNotModified :: u16 where "kHttpNotModified \<equiv> 304"
abbreviation kHttpUseProxy :: u16 where "kHttpUseProxy \<equiv> 305"
abbreviation kHttpTemporaryRedirect :: u16 where "kHttpTemporaryRedirect \<equiv> 307"
abbreviation kHttpBadRequest :: u16 where "kHttpBadRequest \<equiv> 400"
abbreviation kHttpUnauthorized :: u16 where "kHttpUnauthorized \<equiv> 401"
abbreviation kHttpPaymentRequired :: u16 where "kHttpPaymentRequired \<equiv> 402"
abbreviation kHttpForbidden :: u16 where "kHttpForbidden \<equiv> 403"
abbreviation kHttpNotFound :: u16 where "kHttpNotFound \<equiv> 404"
abbreviation kHttpMethodNotAllowed :: u16 where "kHttpMethodNotAllowed \<equiv> 405"
abbreviation kHttpNotAcceptable :: u16 where "kHttpNotAcceptable \<equiv> 406"
abbreviation kHttpProxyAuthenticationRequired :: u16 where "kHttpProxyAuthenticationRequired \<equiv> 407"
abbreviation kHttpRequestTimeout :: u16 where "kHttpRequestTimeout \<equiv> 408"
abbreviation kHttpConflict :: u16 where "kHttpConflict \<equiv> 409"
abbreviation kHttpGone :: u16 where "kHttpGone \<equiv> 410"
abbreviation kHttpLengthRequired :: u16 where "kHttpLengthRequired \<equiv> 411"
abbreviation kHttpPreconditionFailed :: u16 where "kHttpPreconditionFailed \<equiv> 412"
abbreviation kHttpPayloadTooLarge :: u16 where "kHttpPayloadTooLarge \<equiv> 413"
abbreviation kHttpUriTooLong :: u16 where "kHttpUriTooLong \<equiv> 414"
abbreviation kHttpUnsupportedMediaType :: u16 where "kHttpUnsupportedMediaType \<equiv> 415"
abbreviation kHttpRangeNotSatisfiable :: u16 where "kHttpRangeNotSatisfiable \<equiv> 416"
abbreviation kHttpExpectationFailed :: u16 where "kHttpExpectationFailed \<equiv> 417"
abbreviation kHttpUpgradeRequired :: u16 where "kHttpUpgradeRequired \<equiv> 426"
abbreviation kHttpInternalServerError :: u16 where "kHttpInternalServerError \<equiv> 500"
abbreviation kHttpNotImplemented :: u16 where "kHttpNotImplemented \<equiv> 501"
abbreviation kHttpBadGateway :: u16 where "kHttpBadGateway \<equiv> 502"
abbreviation kHttpServiceUnavailable :: u16 where "kHttpServiceUnavailable \<equiv> 503"
abbreviation kHttpGatewayTimeout :: u16 where "kHttpGatewayTimeout \<equiv> 504"
abbreviation kHttpHttpVersionNotSupported :: u16 where "kHttpHttpVersionNotSupported \<equiv> 505"

text \<open>The cases of the switch of \<^verbatim>\<open>GetMessageFromStatusCode\<close>.\<close>

definition status_messages :: "(u16 \<times> string) list" where
  "status_messages =
    [(kHttpContinue, ''Continue''), (kHttpSwitchingProtocols, ''Switching Protocols''),
     (kHttpOk, ''OK''), (kHttpCreated, ''Created''), (kHttpAccepted, ''Accepted''),
     (kHttpNonAuthoritativeInformation, ''Non-Authoritative Information''),
     (kHttpNoContent, ''No Content''), (kHttpResetContent, ''Reset Content''),
     (kHttpPartialContent, ''Partial Content''), (kHttpMultipleChoices, ''Multiple Choices''),
     (kHttpMovedPermanently, ''Moved Permanently''), (kHttpFound, ''Found''),
     (kHttpSeeOther, ''See Other''), (kHttpNotModified, ''Not Modified''),
     (kHttpUseProxy, ''Use Proxy''), (kHttpTemporaryRedirect, ''Temporary Redirect''),
     (kHttpBadRequest, ''Bad Request''), (kHttpUnauthorized, ''Unauthorized''),
     (kHttpPaymentRequired, ''Payment Required''), (kHttpForbidden, ''Forbidden''),
     (kHttpNotFound, ''Not Found''), (kHttpMethodNotAllowed, ''Method Not Allowed''),
     (kHttpNotAcceptable, ''Not Acceptable''),
     (kHttpProxyAuthenticationRequired, ''Proxy Authentication Required''),
     (kHttpRequestTimeout, ''Request Timeout''), (kHttpConflict, ''Conflict''),
     (kHttpGone, ''Gone''), (kHttpLengthRequired, ''Length Required''),
     (kHttpPreconditionFailed, ''Precondition Failed''),
     (kHttpPayloadTooLarge, ''Payload Too Large''), (kHttpUriTooLong, ''URI Too Long''),
     (kHttpUnsupportedMediaType, ''Unsupported Media Type''),
     (kHttpRangeNotSatisfiable, ''Range Not Satisfiable''),
     (kHttpExpectationFailed, ''Expectation Failed''),
     (kHttpUpgradeRequired, ''Upgrade Required''),
     (kHttpInternalServerError, ''Internal Server Error''),
     (kHttpNotImplemented, ''Not Implemented''), (kHttpBadGateway, ''Bad Gateway''),
     (kHttpServiceUnavailable, ''Service Unavailable''),
     (kHttpGatewayTimeout, ''Gateway Timeout''),
     (kHttpHttpVersionNotSupported, ''HTTP Version Not Supported'')]"

definition GetMessageFromStatusCode :: "u16 \<Rightarrow> string" where
  "GetMessageFromStatusCode status_code =
     (case map_of status_messages status_code of Some m \<Rightarrow> m | None \<Rightarrow> ''Unknown Status'')"

text \<open>The methods.\<close>

definition kHttpGet :: string where "kHttpGet = ''GET''"
definition kHttpPost :: string where "kHttpPost = ''POST''"
definition kHttpOptions :: string where "kHttpOptions = ''OPTIONS''"
definition kHttpPut :: string where "kHttpPut = ''PUT''"
definition kHttpDelete :: string where "kHttpDelete = ''DELETE''"
definition kHttpHead :: string where "kHttpHead = ''HEAD''"
definition kHttpTrace :: string where "kHttpTrace = ''TRACE''"
definition kHttpPatch :: string where "kHttpPatch = ''PATCH''"
definition kHttpConnect :: string where "kHttpConnect = ''CONNECT''"

text \<open>Header fields and their values.\<close>

definition kHttpVersion011 :: string where "kHttpVersion011 = ''HTTP/1.1''"
definition kCrlf :: string where "kCrlf = [CR, LF]"
definition kConnectionClose :: string where "kConnectionClose = ''Close''"
definition kConnectionKeepAlive :: string where "kConnectionKeepAlive = ''keep-alive''"
definition kConnectionUpgrade :: string where "kConnectionUpgrade = ''Upgrade''"
definition kHeaderFieldAcceptEncoding :: string where "kHeaderFieldAcceptEncoding = ''accept-encoding''"
definition kHeaderFieldContentEncoding :: string where "kHeaderFieldContentEncoding = ''content-encoding''"
definition kHeaderFieldTransferEncoding :: string where "kHeaderFieldTransferEncoding = ''transfer-encoding''"
definition kHeaderFieldCookie :: string where "kHeaderFieldCookie = ''cookie''"
definition kHeaderFieldAuthorization :: string where "kHeaderFieldAuthorization = ''authorization''"
definition kHeaderFieldContentLength :: string where "kHeaderFieldContentLength = ''content-length''"
definition kHeaderFieldConnection :: string where "kHeaderFieldConnection = ''connection''"
definition kHeaderFieldHost :: string where "kHeaderFieldHost = ''host''"
definition kHeaderFieldReferer :: string where "kHeaderFieldReferer = ''referer''"
definition kHeaderFieldAccept :: string where "kHeaderFieldAccept = ''accept''"
definition kHeaderFieldXGrpcWeb :: string where "kHeaderFieldXGrpcWeb = ''x-grpc-web''"
definition kSpace :: string where "kSpace = '' ''"
definition kTransferEncodingChunked :: string where "kTransferEncodingChunked = ''chunked''"
definition kHeaderAuthorizationTypeBearer :: string where "kHeaderAuthorizationTypeBearer = ''Bearer''"

lemmas header_consts = kHttpVersion011_def kCrlf_def kConnectionClose_def kConnectionKeepAlive_def
  kHeaderFieldAcceptEncoding_def kHeaderFieldContentEncoding_def kHeaderFieldTransferEncoding_def
  kTransferEncodingChunked_def

text \<open>Content types, and the hashes of the file extensions.\<close>

abbreviation kContentTypeAppJson :: string where "kContentTypeAppJson \<equiv> ''application/json''"
abbreviation kContentTypeAppJs :: string where "kContentTypeAppJs \<equiv> ''application/javascript''"
abbreviation kContentTypeAppUrlencoded :: string where "kContentTypeAppUrlencoded \<equiv> ''application/x-www-form-urlencoded''"
abbreviation kContentTypeAppXml :: string where "kContentTypeAppXml \<equiv> ''application/xml''"
abbreviation kContentTypeAppOctet :: string where "kContentTypeAppOctet \<equiv> ''application/octet-stream''"
abbreviation kContentTypeTextHtml :: string where "kContentTypeTextHtml \<equiv> ''text/html''"
abbreviation kContentTypeTextPlain :: string where "kContentTypeTextPlain \<equiv> ''text/plain''"
abbreviation kContentTypeTextCss :: string where "kContentTypeTextCss \<equiv> ''text/css''"
abbreviation kContentTypeImgPng :: string where "kContentTypeImgPng \<equiv> ''image/png''"
abbreviation kContentTypeImgJpeg :: string where "kContentTypeImgJpeg \<equiv> ''image/jpeg''"
abbreviation kContentTypeImgSvg :: string where "kContentTypeImgSvg \<equiv> ''image/svg+xml''"
abbreviation kContentTypeXIcon :: string where "kContentTypeXIcon \<equiv> ''image/vnd.microsoft.icon''"

abbreviation kFileExtensionJson :: u32 where "kFileExtensionJson \<equiv> HashConstantString ''json''"
abbreviation kFileExtensionXml :: u32 where "kFileExtensionXml \<equiv> HashConstantString ''xml''"
abbreviation kFileExtensionBin :: u32 where "kFileExtensionBin \<equiv> HashConstantString ''bin''"
abbreviation kFileExtensionExe :: u32 where "kFileExtensionExe \<equiv> HashConstantString ''exe''"
abbreviation kFileExtensionIso :: u32 where "kFileExtensionIso \<equiv> HashConstantString ''iso''"
abbreviation kFileExtensionHtml :: u32 where "kFileExtensionHtml \<equiv> HashConstantString ''html''"
abbreviation kFileExtensionHtm :: u32 where "kFileExtensionHtm \<equiv> HashConstantString ''htm''"
abbreviation kFileExtensionTxt :: u32 where "kFileExtensionTxt \<equiv> HashConstantString ''txt''"
abbreviation kFileExtensionLog :: u32 where "kFileExtensionLog \<equiv> HashConstantString ''log''"
abbreviation kFileExtensionCfg :: u32 where "kFileExtensionCfg \<equiv> HashConstantString ''cfg''"
abbreviation kFileExtensionIni :: u32 where "kFileExtensionIni \<equiv> HashConstantString ''ini''"
abbreviation kFileExtensionPng :: u32 where "kFileExtensionPng \<equiv> HashConstantString ''png''"
abbreviation kFileExtensionJpg :: u32 where "kFileExtensionJpg \<equiv> HashConstantString ''jpg''"
abbreviation kFileExtensionJpeg :: u32 where "kFileExtensionJpeg \<equiv> HashConstantString ''jpeg''"
abbreviation kFileExtensionSvg :: u32 where "kFileExtensionSvg \<equiv> HashConstantString ''svg''"
abbreviation kFileExtensionXIcon :: u32 where "kFileExtensionXIcon \<equiv> HashConstantString ''ico''"
abbreviation kFileExtensionCss :: u32 where "kFileExtensionCss \<equiv> HashConstantString ''css''"
abbreviation kFileExtensionJavaScript :: u32 where "kFileExtensionJavaScript \<equiv> HashConstantString ''js''"

text \<open>The cases of the switch of \<^verbatim>\<open>GetContentTypeFromSuffix\<close>, in its order.\<close>

definition content_type_cases :: "(u32 \<times> string) list" where
  "content_type_cases =
    [(kFileExtensionJson, kContentTypeAppJson), (kFileExtensionXml, kContentTypeAppXml),
     (kFileExtensionIso, kContentTypeAppOctet), (kFileExtensionExe, kContentTypeAppOctet),
     (kFileExtensionBin, kContentTypeAppOctet), (kFileExtensionHtm, kContentTypeTextHtml),
     (kFileExtensionHtml, kContentTypeTextHtml), (kFileExtensionTxt, kContentTypeTextPlain),
     (kFileExtensionLog, kContentTypeTextPlain), (kFileExtensionIni, kContentTypeTextPlain),
     (kFileExtensionCfg, kContentTypeTextPlain), (kFileExtensionPng, kContentTypeImgPng),
     (kFileExtensionJpg, kContentTypeImgJpeg), (kFileExtensionJpeg, kContentTypeImgJpeg),
     (kFileExtensionSvg, kContentTypeImgSvg), (kFileExtensionXIcon, kContentTypeXIcon),
     (kFileExtensionCss, kContentTypeTextCss), (kFileExtensionJavaScript, kContentTypeAppJs)]"

definition GetContentTypeFromSuffix :: "string \<Rightarrow> string" where
  "GetContentTypeFromSuffix path =
     (case map_of content_type_cases (HashConstantString path) of
        Some ct \<Rightarrow> ct
      | None \<Rightarrow> kContentTypeAppOctet)"

text \<open>The content type that each extension is meant to have.\<close>

definition content_types :: "(string \<times> string) list" where
  "content_types =
    [(''json'', kContentTypeAppJson), (''xml'', kContentTypeAppXml),
     (''iso'', kContentTypeAppOctet), (''exe'', kContentTypeAppOctet),
     (''bin'', kContentTypeAppOctet), (''htm'', kContentTypeTextHtml),
     (''html'', kContentTypeTextHtml), (''txt'', kContentTypeTextPlain),
     (''log'', kContentTypeTextPlain), (''ini'', kContentTypeTextPlain),
     (''cfg'', kContentTypeTextPlain), (''png'', kContentTypeImgPng),
     (''jpg'', kContentTypeImgJpeg), (''jpeg'', kContentTypeImgJpeg),
     (''svg'', kContentTypeImgSvg), (''ico'', kContentTypeXIcon), (''css'', kContentTypeTextCss),
     (''js'', kContentTypeAppJs)]"

section \<open>Messages\<close>

text \<open>
  The class \<^verbatim>\<open>HttpMessage\<close> and the two classes that extend it. The setters work on every extension, as
  the methods of the base class do.
\<close>

record HttpMessage =
  headers_of :: "string list"

record HttpResponse = HttpMessage +
  status_code_of :: u16
  response_version :: string

record HttpRequest = HttpMessage +
  method_of :: string
  url_of :: string
  version_of :: string

definition emplace_header :: "string \<Rightarrow> 'a HttpMessage_scheme \<Rightarrow> 'a HttpMessage_scheme" where
  "emplace_header line m = m\<lparr>headers_of := headers_of m @ [line]\<rparr>"

definition SetCookie :: "string \<Rightarrow> string \<Rightarrow> 'a HttpMessage_scheme \<Rightarrow> 'a HttpMessage_scheme" where
  "SetCookie key val m = emplace_header (''Set-Cookie:'' @ key @ ''='' @ val) m"

definition SetKeepAlive :: "bool \<Rightarrow> 'a HttpMessage_scheme \<Rightarrow> 'a HttpMessage_scheme" where
  "SetKeepAlive keep_alive m =
     emplace_header (''Connection:'' @ (if keep_alive then kConnectionKeepAlive else kConnectionClose)) m"

definition SetContentType :: "string \<Rightarrow> 'a HttpMessage_scheme \<Rightarrow> 'a HttpMessage_scheme" where
  "SetContentType content_type m = emplace_header (''Content-Type:'' @ content_type) m"

definition SetContentLength :: "size_t \<Rightarrow> 'a HttpMessage_scheme \<Rightarrow> 'a HttpMessage_scheme" where
  "SetContentLength len m = emplace_header (''Content-Length:'' @ dec (unat len)) m"

definition SetToken :: "string \<Rightarrow> 'a HttpMessage_scheme \<Rightarrow> 'a HttpMessage_scheme" where
  "SetToken token m = emplace_header (''Token:'' @ token) m"

definition SetAllowOrigin :: "string \<Rightarrow> 'a HttpMessage_scheme \<Rightarrow> 'a HttpMessage_scheme" where
  "SetAllowOrigin origin m = emplace_header (''Access-Control-Allow-Origin:'' @ origin) m"

text \<open>The loops that append the elements with commas between them.\<close>

fun join_commas :: "string list \<Rightarrow> string" where
  "join_commas [] = []"
| "join_commas [x] = x"
| "join_commas (x # xs) = x @ '','' @ join_commas xs"

definition SetAllowHeaders :: "string list \<Rightarrow> 'a HttpMessage_scheme \<Rightarrow> 'a HttpMessage_scheme" where
  "SetAllowHeaders hdrs m = emplace_header (''Access-Control-Allow-Headers: '' @ join_commas hdrs) m"

definition SetAllowMethods :: "string list \<Rightarrow> 'a HttpMessage_scheme \<Rightarrow> 'a HttpMessage_scheme" where
  "SetAllowMethods methods m = emplace_header (''Access-Control-Allow-Methods: '' @ join_commas methods) m"

text \<open>\<^verbatim>\<open>SetAcceptEncoding\<close> builds the line in a local variable and does not store it.\<close>

definition SetAcceptEncoding :: "string list \<Rightarrow> 'a HttpMessage_scheme \<Rightarrow> 'a HttpMessage_scheme" where
  "SetAcceptEncoding encoding_types m =
     (let encodings = kHeaderFieldAcceptEncoding @ '': '' @ join_commas encoding_types in m)"

definition SetContentEncoding :: "string \<Rightarrow> 'a HttpMessage_scheme \<Rightarrow> 'a HttpMessage_scheme" where
  "SetContentEncoding encoding_type m = emplace_header (kHeaderFieldContentEncoding @ '': '' @ encoding_type) m"

definition SetTransferEncoding :: "string \<Rightarrow> 'a HttpMessage_scheme \<Rightarrow> 'a HttpMessage_scheme" where
  "SetTransferEncoding v m = emplace_header (kHeaderFieldTransferEncoding @ '': '' @ v) m"

lemmas header_setters = emplace_header_def SetCookie_def SetKeepAlive_def SetContentType_def SetContentLength_def
  SetToken_def SetAllowOrigin_def SetAllowHeaders_def SetAllowMethods_def SetAcceptEncoding_def
  SetContentEncoding_def SetTransferEncoding_def

fun header_lines :: "string list \<Rightarrow> string" where
  "header_lines [] = kCrlf"
| "header_lines (h # hs) = h @ kCrlf @ header_lines hs"

definition StringifyHeaders :: "'a HttpMessage_scheme \<Rightarrow> string" where
  "StringifyHeaders m = header_lines (headers_of m)"

definition new_HttpRequest :: "string \<Rightarrow> string \<Rightarrow> HttpRequest" where
  "new_HttpRequest meth url = \<lparr>headers_of = [], method_of = meth, url_of = url, version_of = kHttpVersion011\<rparr>"

definition new_HttpResponse :: "u16 \<Rightarrow> HttpResponse" where
  "new_HttpResponse status_code =
     \<lparr>headers_of = [], status_code_of = status_code, response_version = kHttpVersion011\<rparr>"

text \<open>The two definitions of \<^verbatim>\<open>StringifyFirstLine\<close>.\<close>

definition request_first_line :: "HttpRequest \<Rightarrow> string" where
  "request_first_line r = method_of r @ '' '' @ url_of r @ '' '' @ version_of r"

definition response_first_line :: "HttpResponse \<Rightarrow> string" where
  "response_first_line r =
     response_version r @ '' '' @ dec (unat (status_code_of r)) @ '' '' @
     GetMessageFromStatusCode (status_code_of r) @ kCrlf"

text \<open>The bytes of the head of a response, as \<^verbatim>\<open>HttpClient::SendHttpHeader\<close> writes them.\<close>

definition http_header_text :: "HttpResponse \<Rightarrow> string" where
  "http_header_text r = response_first_line r @ StringifyHeaders r"

text \<open>No setter changes the status code or the version of a response.\<close>

lemma emplace_header_simps [simp]:
  "headers_of (emplace_header l m) = headers_of m @ [l]" "status_code_of (emplace_header l r) = status_code_of r"
  "response_version (emplace_header l r) = response_version r"
  by (simp_all add: emplace_header_def)

section \<open>Round trip\<close>

text \<open>A header line, as the setters write it, and the header that the parser reads from it.\<close>

definition prints_as :: "string \<Rightarrow> phr_header \<Rightarrow> bool" where
  "prints_as line h \<longleftrightarrow> plain_header h \<and>
     (line = the (hname h) @ '':'' @ hvalue h \<or> line = the (hname h) @ '': '' @ hvalue h)"

lemma parse_headers_prints_as:
  assumes "prints_as line h"
  shows "parse_headers sse (Suc left) hs (line @ CR # LF # r) = parse_headers sse left (hs @ [h]) r"
proof -
  have h: "plain_header h" using assms by (simp add: prints_as_def)
  then obtain n where n: "hname h = Some n" by (auto simp: plain_header_def)
  consider "line = n @ CHR '':'' # hvalue h" | "line = n @ CHR '':'' # SP # hvalue h"
    using assms n by (auto simp: prints_as_def)
  then show ?thesis
    using parse_headers_line [OF h n, of "[]" sse left hs r] parse_headers_line [OF h n, of "[SP]" sse left hs r]
    by cases simp_all
qed

lemma parse_header_lines:
  "list_all2 prints_as lines hs \<Longrightarrow> length hs \<le> left \<Longrightarrow>
   parse_headers sse left acc (header_lines lines @ body) = POk (acc @ hs) body"
proof (induction arbitrary: left acc rule: list_all2_induct)
  case Nil
  then show ?case
    by (simp add: parse_headers.simps kCrlf_def EXPECT_CHAR_def EXPECT_CHAR_NO_CHECK_def)
next
  case (Cons line lines h hs)
  then obtain left' where "left = Suc left'" by (cases left) auto
  with Cons show ?case by (simp add: kCrlf_def parse_headers_prints_as)
qed

lemma dec_three:
  assumes "100 \<le> n" "n \<le> 999"
  shows "dec n = [dec_digit (n div 100), dec_digit (n div 10 mod 10), dec_digit (n mod 10)]"
proof -
  have "n div 10 div 10 < 10" "\<not> n div 10 < 10" "n div 10 div 10 = n div 100"
    using assms by (simp_all add: div_mult2_eq [symmetric])
  then show ?thesis
    using assms by (simp add: dec_def radix.simps [of 10 n] radix.simps [of 10 "n div 10"]
        radix.simps [of 10 "n div 100"])
qed

lemma PARSE_INT_3_dec:
  assumes "100 \<le> n" "n \<le> 999"
  shows "PARSE_INT_3 (dec n @ r) = POk n r"
proof -
  have small: "n div 100 < 10" "n div 10 mod 10 < 10" "n mod 10 < 10" using assms by simp_all
  have "n div 100 = n div 10 div 10" by (simp add: div_mult2_eq [symmetric])
  then have "100 * (n div 100) + 10 * (n div 10 mod 10) + n mod 10 = n"
    using div_mult_mod_eq [of n 10] div_mult_mod_eq [of "n div 10" 10] by linarith
  with small show ?thesis by (simp add: dec_three [OF assms] PARSE_INT_3_eq)
qed

definition message_ok :: "string \<Rightarrow> bool" where
  "message_ok m \<longleftrightarrow> m \<noteq> [] \<and> hd m \<noteq> SP \<and> list_all (\<lambda>c. \<not> line_ctl c) m"

lemma status_messages_ok: "list_all (\<lambda>(code, m). message_ok m) status_messages"
  by (simp add: status_messages_def message_ok_def line_ctl_def)

lemma message_ok: "message_ok (GetMessageFromStatusCode status_code)"
proof (cases "map_of status_messages status_code")
  case None
  then show ?thesis by (simp add: GetMessageFromStatusCode_def message_ok_def line_ctl_def)
next
  case (Some m)
  then have "(status_code, m) \<in> set status_messages" by (rule map_of_SomeD)
  with status_messages_ok Some show ?thesis by (auto simp: GetMessageFromStatusCode_def list_all_iff)
qed

lemma status_message_forward:
  assumes "message_ok m"
  shows "status_message sse (SP # m @ CR # LF # r) = POk m r"
proof -
  have "\<forall>c \<in> set (SP # m). \<not> line_ctl c"
    using assms by (auto simp: message_ok_def list_all_iff line_ctl_def)
  from get_token_to_eol_line [OF this ctl_CR, of sse "LF # r"]
  have "get_token_to_eol sse (SP # m @ CR # LF # r) = POk (SP # m) r" by simp
  moreover have "dropWhile (\<lambda>c. c = SP) m = m" using assms by (cases m) (auto simp: message_ok_def)
  ultimately show ?thesis by (simp add: status_message_def)
qed

lemma parse_response_forward:
  assumes "100 \<le> unat (status_code_of r)" "unat (status_code_of r) \<le> 999" "response_version r = kHttpVersion011"
    and "list_all2 prints_as (headers_of r) hs" "length hs \<le> m"
  shows "parse_response sse m (http_header_text r @ body) =
    POk \<lparr>resp_minor_version = 1, resp_status = unat (status_code_of r),
         resp_msg = GetMessageFromStatusCode (status_code_of r), resp_headers = hs\<rparr> body"
proof -
  let ?msg = "GetMessageFromStatusCode (status_code_of r)" and ?n = "unat (status_code_of r)"
  let ?hs = "header_lines (headers_of r) @ body"
  let ?msg_line = "SP # ?msg @ CR # LF # ?hs"
  have one: "dec_digit (Suc 0) = CHR ''1''" by code_simp
  have bytes: "http_header_text r @ body = ''HTTP/1.'' @ dec_digit 1 # SP # dec ?n @ ?msg_line"
    using assms(3) by (simp add: http_header_text_def response_first_line_def StringifyHeaders_def header_consts one)
  have version: "parse_http_version (''HTTP/1.'' @ dec_digit 1 # SP # dec ?n @ ?msg_line) =
      POk 1 (SP # dec ?n @ ?msg_line)" by (rule parse_http_version_forward) simp_all
  obtain c t where c: "dec ?n = c # t" "c \<noteq> SP" "length t = 2"
  proof -
    have "dec_digit (?n div 100) \<noteq> SP"
      using assms(1,2) by (simp add: dec_digit_def code_SP)
    then show thesis using that dec_three [OF assms(1,2)] by simp
  qed
  have spaces: "skip_spaces (SP # dec ?n @ ?msg_line) = POk () (dec ?n @ ?msg_line)"
    using c by simp
  have "\<not> length (dec ?n @ ?msg_line) < 4" using c by simp
  moreover have "parse_headers sse m [] ?hs = POk hs body"
    using parse_header_lines [OF assms(4,5), of sse "[]" body] by simp
  ultimately show ?thesis
    unfolding parse_response_message bytes version pbind.simps
    using spaces PARSE_INT_3_dec [OF assms(1,2), of ?msg_line]
      status_message_forward [OF message_ok, of sse "status_code_of r" ?hs]
    by simp
qed

section \<open>Theorems\<close>

text \<open>C35: A response that the gateway prints, with any three-digit status code and any header lines in
  the form of its setters, is read back by the response parser: version 1.1, the status code, the
  code's message and the headers in their order, and the body is what is left.\<close>

theorem response_round_trip:
  assumes "100 \<le> unat (status_code_of r)" "unat (status_code_of r) \<le> 999" "response_version r = kHttpVersion011"
    and "list_all2 prints_as (headers_of r) hs" "length hs \<le> max_headers"
  shows "phr_parse_response sse max_headers 0 (http_header_text r @ body) =
    POk \<lparr>resp_minor_version = 1, resp_status = unat (status_code_of r),
         resp_msg = GetMessageFromStatusCode (status_code_of r), resp_headers = hs\<rparr> body"
  using parse_response_forward [OF assms] by (simp add: phr_parse_response_def)

theorem response_round_trip_witness:
  "phr_parse_response True 8 0
     (http_header_text (SetKeepAlive False (SetContentType ''text/html'' (new_HttpResponse 404))) @ ''<p>'') =
   POk \<lparr>resp_minor_version = 1, resp_status = 404, resp_msg = ''Not Found'',
     resp_headers = [\<lparr>hname = Some ''Content-Type'', hvalue = ''text/html''\<rparr>,
                     \<lparr>hname = Some ''Connection'', hvalue = ''Close''\<rparr>]\<rparr> ''<p>''"
proof -
  let ?r = "SetKeepAlive False (SetContentType ''text/html'' (new_HttpResponse 404))"
  have "list_all2 prints_as (headers_of ?r)
      [\<lparr>hname = Some ''Content-Type'', hvalue = ''text/html''\<rparr>, \<lparr>hname = Some ''Connection'', hvalue = ''Close''\<rparr>]"
    by code_simp
  moreover have "GetMessageFromStatusCode 404 = ''Not Found''" by code_simp
  moreover have "status_code_of ?r = 404" "response_version ?r = kHttpVersion011"
    by (simp_all add: SetKeepAlive_def SetContentType_def new_HttpResponse_def)
  ultimately show ?thesis
    using response_round_trip [of ?r _ 8 True "''<p>''"] by simp
qed

text \<open>Every extension of the table gets its own content type, so no two of its hashes collide in a
  way that matters; but an extension that is not in the table can have the hash of one that is: a
  file named with the extension kT is served as JavaScript.\<close>

theorem content_type_by_hash:
  "list_all (\<lambda>(ext, ct). GetContentTypeFromSuffix ext = ct) content_types \<and>
   distinct (map (\<lambda>(ext, ct). HashConstantString ext) content_types) \<and>
   map_of content_types ''kT'' = None \<and> GetContentTypeFromSuffix ''kT'' = ''application/javascript''"
proof (intro conjI)
  show "list_all (\<lambda>(ext, ct). GetContentTypeFromSuffix ext = ct) content_types" by code_simp
  show "distinct (map (\<lambda>(ext, ct). HashConstantString ext) content_types)" by code_simp
  show "map_of content_types ''kT'' = None" by code_simp
  show "GetContentTypeFromSuffix ''kT'' = ''application/javascript''" by code_simp
qed
end
