(* ===== verification/Http_Parser.thy ===== *)
theory Http_Parser
  imports Crequest
begin

text \<open>
  The gateway's own request parser, \<^verbatim>\<open>core/include/http_parser.h\<close> and \<^verbatim>\<open>core/src/http_parser.cc\<close>: a state
  machine that takes one byte of an I/O buffer at a time and refills the buffer from a file or a
  socket. The machine's own state (\<open>parser_core\<close>) is kept apart from the buffer and its indices, so
  that the theorems can compare a buffered run with a run over the bytes themselves.
\<close>

section \<open>The state machine\<close>

datatype State = METHOD | URL | VERSION | HEADERS | DONE | ERR

record parser_core =
  parser_request :: HttpRequest
  msg_buffer :: string
  parser_state :: State
  n_total_read :: nat

definition isascii :: "char \<Rightarrow> bool" where
  "isascii c \<longleftrightarrow> code c < 128"

text \<open>The end of a header line.\<close>

definition end_header :: "parser_core \<Rightarrow> parser_core" where
  "end_header p =
     (if msg_buffer p \<noteq> [] then
        case find_char (CHR '':'') (msg_buffer p) of
          None \<Rightarrow> p\<lparr>parser_state := ERR\<rparr>
        | Some pos \<Rightarrow>
            p\<lparr>parser_request := emplace_header
                (take pos (msg_buffer p) @ '': '' @ drop (pos + 1) (msg_buffer p)) (parser_request p),
              msg_buffer := []\<rparr>
      else p\<lparr>parser_state := DONE\<rparr>)"

definition push_back :: "char \<Rightarrow> parser_core \<Rightarrow> parser_core" where
  "push_back c p = p\<lparr>msg_buffer := msg_buffer p @ [c]\<rparr>"

text \<open>The switch of \<^verbatim>\<open>ParseByte\<close>, on a byte that passed the checks before it.\<close>

definition parse_switch :: "parser_core \<Rightarrow> char \<Rightarrow> parser_core" where
  "parse_switch p cur_char =
     (case parser_state p of
        METHOD \<Rightarrow>
          if cur_char = SP then
            p\<lparr>parser_request := (parser_request p)\<lparr>method_of := msg_buffer p\<rparr>, msg_buffer := [], parser_state := URL\<rparr>
          else push_back cur_char p
      | URL \<Rightarrow>
          if cur_char = SP then
            p\<lparr>parser_request := (parser_request p)\<lparr>url_of := msg_buffer p\<rparr>, msg_buffer := [], parser_state := VERSION\<rparr>
          else push_back cur_char p
      | VERSION \<Rightarrow>
          if cur_char = CR then p
          else if cur_char = LF then
            p\<lparr>parser_request := (parser_request p)\<lparr>version_of := msg_buffer p\<rparr>, msg_buffer := [], parser_state := HEADERS\<rparr>
          else if cur_char = SP then p\<lparr>parser_state := ERR\<rparr>
          else push_back cur_char p
      | HEADERS \<Rightarrow>
          if cur_char = CR then p
          else if cur_char = LF then end_header p
          else if cur_char = SP then p
          else push_back (tolower cur_char) p
      | _ \<Rightarrow> p)"

definition parse_char :: "nat \<Rightarrow> parser_core \<Rightarrow> char \<Rightarrow> parser_core" where
  "parse_char kMaxMsgLength p cur_char =
     (if \<not> isascii cur_char then p\<lparr>parser_state := ERR\<rparr>
      else let p = p\<lparr>n_total_read := n_total_read p + 1\<rparr> in
        if n_total_read p > kMaxMsgLength then p\<lparr>parser_state := ERR\<rparr> else parse_switch p cur_char)"

section \<open>The buffer and its sources\<close>

record HttpParser =
  core :: parser_core
  io_buffer :: string
  cur_buf_idx :: nat
  end_buf_idx :: nat

definition empty_core :: parser_core where
  "empty_core =
     \<lparr>parser_request = \<lparr>headers_of = [], method_of = [], url_of = [], version_of = []\<rparr>, msg_buffer = [],
      parser_state = METHOD, n_total_read = 0\<rparr>"

text \<open>Both constructors: the buffer is value-initialised, the indices point at its end.\<close>

definition new_HttpParser :: "nat \<Rightarrow> HttpParser" where
  "new_HttpParser kBufferSize =
     \<lparr>core = empty_core, io_buffer = replicate kBufferSize (CHR 0x00), cur_buf_idx = kBufferSize,
      end_buf_idx = kBufferSize\<rparr>"

definition ParseByte :: "nat \<Rightarrow> HttpParser \<Rightarrow> HttpParser outcome" where
  "ParseByte kMaxMsgLength p =
     bind_outcome (read_at (io_buffer p) (cur_buf_idx p)) (\<lambda>cur_char.
       Val (p\<lparr>core := parse_char kMaxMsgLength (core p) cur_char\<rparr>))"

text \<open>
  A file stream: the bytes not yet read and \<^verbatim>\<open>failbit\<close>, which a \<^verbatim>\<open>read\<close> that meets the end of the file sets.
\<close>

record file_stream =
  frest :: string
  ffail :: bool

definition ReadFromFileStream :: "nat \<Rightarrow> HttpParser \<Rightarrow> file_stream \<Rightarrow> (HttpParser \<times> file_stream) option" where
  "ReadFromFileStream kBufferSize p fin =
     (if ffail fin then None
      else let got = take kBufferSize (frest fin) in
        Some (p\<lparr>io_buffer := got @ drop (length got) (io_buffer p), end_buf_idx := length got\<rparr>,
              fin\<lparr>frest := drop kBufferSize (frest fin), ffail := length got < kBufferSize\<rparr>))"

lemma parse_switch_n: "n_total_read (parse_switch p c) = n_total_read p"
  by (auto simp: parse_switch_def push_back_def end_header_def split: State.split option.split)

lemma parse_char_progress:
  "parser_state (parse_char m p c) = ERR \<or>
   n_total_read (parse_char m p c) = Suc (n_total_read p) \<and> Suc (n_total_read p) \<le> m"
  by (auto simp: parse_char_def parse_switch_n Let_def)

text \<open>What a loop of the parser can still do before the limit on the message length stops it.\<close>

definition budget :: "nat \<Rightarrow> parser_core \<Rightarrow> nat" where
  "budget m p = (if parser_state p = ERR then 0 else Suc (m - n_total_read p))"

lemma parse_char_budget: "parser_state p \<noteq> ERR \<Longrightarrow> budget m (parse_char m p c) < budget m p"
  using parse_char_progress [of m p c] by (auto simp: budget_def)

text \<open>\<^verbatim>\<open>ParseFileStream\<close>: the parser after the loop, and whether it returned true.\<close>

definition refill :: "nat \<Rightarrow> HttpParser \<Rightarrow> file_stream \<Rightarrow> (HttpParser \<times> file_stream) option" where
  "refill kBufferSize p fin =
     (if cur_buf_idx p = end_buf_idx p
      then map_option (\<lambda>(p, fin). (p\<lparr>cur_buf_idx := 0\<rparr>, fin)) (ReadFromFileStream kBufferSize p fin)
      else Some (p, fin))"

lemma refill_core: "refill k p fin = Some (p', fin') \<Longrightarrow> core p' = core p"
  by (auto simp: refill_def ReadFromFileStream_def Let_def split: if_splits)

function ParseFileStream :: "nat \<Rightarrow> nat \<Rightarrow> HttpParser \<Rightarrow> file_stream \<Rightarrow> (bool \<times> HttpParser) outcome" where
  "ParseFileStream kBufferSize kMaxMsgLength p fin =
     (if parser_state (core p) = ERR then Val (False, p)
      else if parser_state (core p) = DONE then Val (True, p)
      else case refill kBufferSize p fin of
             None \<Rightarrow> Val (False, p)
           | Some (p1, fin1) \<Rightarrow>
               (case ParseByte kMaxMsgLength p1 of
                  UB \<Rightarrow> UB
                | Val p2 \<Rightarrow> ParseFileStream kBufferSize kMaxMsgLength (p2\<lparr>cur_buf_idx := cur_buf_idx p2 + 1\<rparr>) fin1))"
  by pat_completeness auto
termination
  by (relation "measure (\<lambda>(k, m, p, fin). budget m (core p))")
    (auto simp: ParseByte_def refill_core intro!: parse_char_budget)

declare ParseFileStream.simps [simp del]

text \<open>
  \<^verbatim>\<open>ReadFromSocket\<close> stores what \<^verbatim>\<open>recv\<close> delivers at the front of the buffer, and leaves \<^verbatim>\<open>end_buf_idx\<close> as it
  is. A socket is the list of the answers of \<^verbatim>\<open>recv\<close>, each at most as long as the buffer; an empty
  answer is its return value 0 or -1.
\<close>

definition ReadFromSocket :: "HttpParser \<Rightarrow> string list \<Rightarrow> (HttpParser \<times> string list) option" where
  "ReadFromSocket p sock =
     (case sock of
        [] \<Rightarrow> None
      | got # sock' \<Rightarrow>
          if got = [] then None
          else Some (p\<lparr>io_buffer := got @ drop (length got) (io_buffer p)\<rparr>, sock'))"

definition refill_socket :: "HttpParser \<Rightarrow> string list \<Rightarrow> (HttpParser \<times> string list) option" where
  "refill_socket p sock =
     (if cur_buf_idx p = end_buf_idx p
      then map_option (\<lambda>(p, sock). (p\<lparr>cur_buf_idx := 0\<rparr>, sock)) (ReadFromSocket p sock)
      else Some (p, sock))"

lemma refill_socket_core: "refill_socket p sock = Some (p', sock') \<Longrightarrow> core p' = core p"
  by (auto simp: refill_socket_def ReadFromSocket_def split: if_splits list.splits)

function ParseSocketStream :: "nat \<Rightarrow> HttpParser \<Rightarrow> string list \<Rightarrow> (bool \<times> HttpParser) outcome" where
  "ParseSocketStream kMaxMsgLength p sock =
     (if parser_state (core p) = ERR then Val (False, p)
      else if parser_state (core p) = DONE then Val (True, p)
      else case refill_socket p sock of
             None \<Rightarrow> Val (False, p)
           | Some (p1, sock1) \<Rightarrow>
               (case ParseByte kMaxMsgLength p1 of
                  UB \<Rightarrow> UB
                | Val p2 \<Rightarrow> ParseSocketStream kMaxMsgLength (p2\<lparr>cur_buf_idx := cur_buf_idx p2 + 1\<rparr>) sock1))"
  by pat_completeness auto
termination
  by (relation "measure (\<lambda>(m, p, sock). budget m (core p))")
    (auto simp: ParseByte_def refill_socket_core intro!: parse_char_budget)

declare ParseSocketStream.simps [simp del]

section \<open>The run over the bytes\<close>

definition finished :: "parser_core \<Rightarrow> bool" where
  "finished p \<longleftrightarrow> parser_state p = ERR \<or> parser_state p = DONE"

fun run_chars :: "nat \<Rightarrow> parser_core \<Rightarrow> string \<Rightarrow> parser_core" where
  "run_chars m p [] = p"
| "run_chars m p (c # cs) = (if finished p then p else run_chars m (parse_char m p c) cs)"

lemma run_chars_finished: "finished p \<Longrightarrow> run_chars m p cs = p"
  by (cases cs) auto

text \<open>The bytes that the buffered parser has still to see.\<close>

abbreviation unseen :: "HttpParser \<Rightarrow> file_stream \<Rightarrow> string" where
  "unseen p fin \<equiv> drop (cur_buf_idx p) (take (end_buf_idx p) (io_buffer p)) @ frest fin"

definition buffer_ok :: "nat \<Rightarrow> HttpParser \<Rightarrow> file_stream \<Rightarrow> bool" where
  "buffer_ok k p fin \<longleftrightarrow> length (io_buffer p) = k \<and> cur_buf_idx p \<le> end_buf_idx p \<and> end_buf_idx p \<le> k \<and>
     (ffail fin \<longrightarrow> frest fin = [])"

lemma refill_ok:
  assumes "buffer_ok k p fin" "0 < k" "unseen p fin \<noteq> []"
  obtains p1 fin1 where "refill k p fin = Some (p1, fin1)" "core p1 = core p" "buffer_ok k p1 fin1"
    "unseen p1 fin1 = unseen p fin" "cur_buf_idx p1 < end_buf_idx p1"
proof (cases "cur_buf_idx p = end_buf_idx p")
  case True
  then have rest: "frest fin \<noteq> []" using assms(3) by simp
  with assms(1) have "\<not> ffail fin" by (auto simp: buffer_ok_def)
  moreover have "take (min (length xs) n) xs @ drop n xs = xs" for xs :: string and n
    by (simp add: min_def)
  ultimately show thesis using True rest assms that
    by (auto simp: refill_def ReadFromFileStream_def buffer_ok_def Let_def)
next
  case False
  with assms that show thesis by (auto simp: refill_def buffer_ok_def)
qed

lemma buffered_run:
  "buffer_ok k p fin \<Longrightarrow> 0 < k \<Longrightarrow> finished (run_chars m (core p) (unseen p fin)) \<Longrightarrow>
   \<exists>p'. ParseFileStream k m p fin = Val (parser_state (core p') = DONE, p') \<and>
     core p' = run_chars m (core p) (unseen p fin)"
proof (induction k m p fin rule: ParseFileStream.induct)
  case (1 k m p fin)
  show ?case
  proof (cases "finished (core p)")
    case True
    then show ?thesis
      by (intro exI [of _ p]) (auto simp: ParseFileStream.simps [of k m p] run_chars_finished finished_def)
  next
    case False
    then have run: "parser_state (core p) \<noteq> ERR" "parser_state (core p) \<noteq> DONE" by (simp_all add: finished_def)
    have "unseen p fin \<noteq> []" using "1.prems"(3) False by auto
    then obtain p1 fin1 where r: "refill k p fin = Some (p1, fin1)" "core p1 = core p" "buffer_ok k p1 fin1"
      "unseen p1 fin1 = unseen p fin" "cur_buf_idx p1 < end_buf_idx p1"
      using refill_ok [OF "1.prems"(1,2)] by metis
    let ?c = "io_buffer p1 ! cur_buf_idx p1"
    let ?p2 = "p1\<lparr>core := parse_char m (core p) ?c\<rparr>"
    let ?p3 = "?p2\<lparr>cur_buf_idx := cur_buf_idx ?p2 + 1\<rparr>"
    have idx: "cur_buf_idx p1 < length (io_buffer p1)" using r(3,5) by (auto simp: buffer_ok_def)
    then have byte: "ParseByte m p1 = Val ?p2" using r(2) by (simp add: ParseByte_def read_at_def)
    have "cur_buf_idx p1 < length (take (end_buf_idx p1) (io_buffer p1))" using idx r(5) by simp
    from Cons_nth_drop_Suc [OF this] have next_byte: "unseen p1 fin1 = ?c # unseen ?p3 fin1" using r(5) by simp
    have step: "ParseFileStream k m p fin = ParseFileStream k m ?p3 fin1"
      using run r(1) byte by (simp add: ParseFileStream.simps [of k m p fin])
    have unf: "run_chars m (core p) (unseen p fin) = run_chars m (core ?p3) (unseen ?p3 fin1)"
      unfolding r(4) [symmetric] next_byte using False by simp
    have "buffer_ok k ?p3 fin1" using r(3,5) by (simp add: buffer_ok_def)
    with "1.IH" [OF run r(1) refl byte] "1.prems"(2,3) step unf show ?thesis by simp
  qed
qed

lemma new_HttpParser_ok: "buffer_ok k (new_HttpParser k) \<lparr>frest = content, ffail = False\<rparr>"
  by (simp add: buffer_ok_def new_HttpParser_def)

section \<open>A well-formed request\<close>

lemma parse_char_push:
  assumes "isascii c" "n_total_read p < m" "parser_state p = st"
    and "\<And>q. parser_state q = st \<Longrightarrow> parse_switch q c = q\<lparr>msg_buffer := msg_buffer q @ g c\<rparr>"
  shows "parse_char m p c = p\<lparr>msg_buffer := msg_buffer p @ g c, n_total_read := n_total_read p + 1\<rparr>"
  using assms by (simp add: parse_char_def)

lemma run_chars_push:
  "\<forall>c \<in> set s. isascii c \<and> (\<forall>q. parser_state q = st \<longrightarrow> parse_switch q c = q\<lparr>msg_buffer := msg_buffer q @ g c\<rparr>) \<Longrightarrow>
   parser_state p = st \<Longrightarrow> st \<noteq> ERR \<Longrightarrow> st \<noteq> DONE \<Longrightarrow> n_total_read p + length s \<le> m \<Longrightarrow>
   run_chars m p (s @ r) = run_chars m
     (p\<lparr>msg_buffer := msg_buffer p @ concat (map g s), n_total_read := n_total_read p + length s\<rparr>) r"
proof (induction s arbitrary: p)
  case (Cons c s)
  let ?p = "p\<lparr>msg_buffer := msg_buffer p @ g c, n_total_read := n_total_read p + 1\<rparr>"
  have "parse_char m p c = ?p" using Cons.prems by (intro parse_char_push [where st = st]) auto
  moreover have "\<not> finished p" using Cons.prems by (simp add: finished_def)
  ultimately show ?case using Cons.IH [of ?p] Cons.prems by simp
qed simp

lemma switch_push:
  "c \<noteq> SP \<Longrightarrow> parser_state q = METHOD \<Longrightarrow> parse_switch q c = q\<lparr>msg_buffer := msg_buffer q @ [c]\<rparr>"
  "c \<noteq> SP \<Longrightarrow> parser_state q = URL \<Longrightarrow> parse_switch q c = q\<lparr>msg_buffer := msg_buffer q @ [c]\<rparr>"
  "c \<noteq> SP \<Longrightarrow> c \<noteq> LF \<Longrightarrow> parser_state q = VERSION \<Longrightarrow>
   parse_switch q c = q\<lparr>msg_buffer := msg_buffer q @ (if c = CR then [] else [c])\<rparr>"
  "c \<noteq> LF \<Longrightarrow> parser_state q = HEADERS \<Longrightarrow>
   parse_switch q c = q\<lparr>msg_buffer := msg_buffer q @ (if c = CR \<or> c = SP then [] else [tolower c])\<rparr>"
  by (auto simp: parse_switch_def push_back_def)

text \<open>What the header state keeps of a text: no blanks or carriage returns, all in lower case.\<close>

definition compact :: "string \<Rightarrow> string" where
  "compact s = concat (map (\<lambda>c. if c = CR \<or> c = SP then [] else [tolower c]) s)"

lemma compact_append [simp]: "compact (a @ b) = compact a @ compact b"
  by (simp add: compact_def)

lemma tolower_colon: "tolower c = CHR '':'' \<longleftrightarrow> c = CHR '':''"
proof -
  have char: "d = CHR '':'' \<longleftrightarrow> code d = 58" for d
    using of_char_eq_iff [of d "CHR '':''", where ?'a = nat] by simp
  show ?thesis unfolding char code_tolower by auto
qed

lemma compact_colon: "CHR '':'' \<notin> set n \<Longrightarrow> CHR '':'' \<notin> set (compact n)"
  by (auto simp: compact_def tolower_colon split: if_splits) (metis tolower_colon)

definition header_text :: "string \<times> string \<Rightarrow> string" where
  "header_text h = fst h @ '': '' @ snd h @ [CR, LF]"

definition request_text :: "string \<Rightarrow> string \<Rightarrow> string \<Rightarrow> (string \<times> string) list \<Rightarrow> string" where
  "request_text meth url ver hs =
     meth @ [SP] @ url @ [SP] @ ver @ [CR, LF] @ concat (map header_text hs) @ [CR, LF]"

definition header_text_ok :: "string \<times> string \<Rightarrow> bool" where
  "header_text_ok h \<longleftrightarrow> list_all (\<lambda>c. isascii c \<and> c \<noteq> LF) (fst h @ snd h) \<and> CHR '':'' \<notin> set (fst h)"

definition text_ok :: "string \<Rightarrow> string \<Rightarrow> string \<Rightarrow> (string \<times> string) list \<Rightarrow> bool" where
  "text_ok meth url ver hs \<longleftrightarrow> list_all isascii (meth @ url @ ver) \<and> SP \<notin> set (meth @ url @ ver) \<and>
     CR \<notin> set ver \<and> LF \<notin> set ver \<and> list_all header_text_ok hs"

lemma parse_char_switch:
  "isascii c \<Longrightarrow> n_total_read p < m \<Longrightarrow>
   parse_char m p c = parse_switch (p\<lparr>n_total_read := n_total_read p + 1\<rparr>) c"
  by (simp add: parse_char_def)

lemma isascii_controls [simp]: "isascii CR" "isascii LF" "isascii SP" "isascii (CHR '':'')"
  by (simp_all add: isascii_def)

lemma run_header:
  assumes "parser_state p = HEADERS" "msg_buffer p = []" "header_text_ok (n, v)"
    "n_total_read p + length (header_text (n, v)) \<le> m"
  shows "run_chars m p (header_text (n, v) @ r) = run_chars m
    (p\<lparr>parser_request := emplace_header (compact n @ '': '' @ compact v) (parser_request p),
       n_total_read := n_total_read p + length (header_text (n, v))\<rparr>) r"
proof -
  let ?line = "n @ '': '' @ v @ [CR]"
  let ?msg = "compact n @ CHR '':'' # compact v"
  let ?p = "p\<lparr>msg_buffer := ?msg, n_total_read := n_total_read p + length ?line\<rparr>"
  have "compact ?line = ?msg" by (simp add: compact_def tolower_def)
  then have "run_chars m p (?line @ LF # r) = run_chars m ?p (LF # r)"
    using run_chars_push [of ?line HEADERS "\<lambda>c. if c = CR \<or> c = SP then [] else [tolower c]" p m "LF # r"]
      assms by (simp add: switch_push(4) header_text_ok_def header_text_def compact_def list_all_iff)
  also have "\<not> finished ?p" using assms(1) by (simp add: finished_def)
  moreover have "find_char (CHR '':'') ?msg = Some (length (compact n))"
    using compact_colon [of n] assms(3) by (simp add: find_char_append header_text_ok_def)
  then have "parse_char m ?p LF = p\<lparr>parser_request := emplace_header (compact n @ '': '' @ compact v) (parser_request p),
      n_total_read := n_total_read p + length (header_text (n, v))\<rparr>"
    using assms by (simp add: parse_char_switch parse_switch_def end_header_def header_text_def)
  ultimately show ?thesis by (simp add: header_text_def)
qed

lemma run_headers:
  "list_all header_text_ok hs \<Longrightarrow> parser_state p = HEADERS \<Longrightarrow> msg_buffer p = [] \<Longrightarrow>
   n_total_read p + length (concat (map header_text hs)) \<le> m \<Longrightarrow>
   run_chars m p (concat (map header_text hs) @ r) = run_chars m
     (p\<lparr>parser_request := (parser_request p)\<lparr>headers_of := headers_of (parser_request p) @ map (\<lambda>(n, v). compact n @ '': '' @ compact v) hs\<rparr>,
        n_total_read := n_total_read p + length (concat (map header_text hs))\<rparr>) r"
proof (induction hs arbitrary: p)
  case (Cons h hs)
  obtain n v where h: "h = (n, v)" by fastforce
  let ?p = "p\<lparr>parser_request := emplace_header (compact n @ '': '' @ compact v) (parser_request p),
      n_total_read := n_total_read p + length (header_text (n, v))\<rparr>"
  have "run_chars m p (header_text (n, v) @ concat (map header_text hs) @ r) =
      run_chars m ?p (concat (map header_text hs) @ r)"
    using Cons.prems h by (intro run_header) simp_all
  with Cons.IH [of ?p] Cons.prems h show ?case by (simp add: add.assoc emplace_header_def)
qed simp

text \<open>The two words that end with a blank.\<close>

lemma run_word:
  assumes "st = METHOD \<or> st = URL" "parser_state p = st" "msg_buffer p = []"
    "list_all isascii s" "SP \<notin> set s" "n_total_read p + length s < m"
  shows "run_chars m p (s @ SP # r) = run_chars m
    (if st = METHOD
     then p\<lparr>n_total_read := n_total_read p + length s + 1, parser_request := (parser_request p)\<lparr>method_of := s\<rparr>,
            msg_buffer := [], parser_state := URL\<rparr>
     else p\<lparr>n_total_read := n_total_read p + length s + 1, parser_request := (parser_request p)\<lparr>url_of := s\<rparr>,
            msg_buffer := [], parser_state := VERSION\<rparr>) r"
proof -
  let ?p = "p\<lparr>msg_buffer := s, n_total_read := n_total_read p + length s\<rparr>"
  have ascii: "\<forall>c \<in> set s. isascii c \<and> c \<noteq> SP" using assms(4,5) by (auto simp: list_all_iff)
  have push: "\<forall>c \<in> set s. isascii c \<and>
      (\<forall>q :: parser_core. parser_state q = st \<longrightarrow> parse_switch q c = q\<lparr>msg_buffer := msg_buffer q @ [c]\<rparr>)"
  proof (intro ballI conjI allI impI)
    fix c and q :: parser_core assume c: "c \<in> set s"
    then show "isascii c" using ascii by blast
    assume "parser_state q = st"
    with c ascii assms(1) switch_push(1,2) [of c q] show "parse_switch q c = q\<lparr>msg_buffer := msg_buffer q @ [c]\<rparr>"
      by metis
  qed
  have "st \<noteq> ERR" "st \<noteq> DONE" "n_total_read p + length s \<le> m" using assms(1,6) by auto
  from run_chars_push [OF push assms(2) this, of "SP # r"]
  have "run_chars m p (s @ SP # r) = run_chars m ?p (SP # r)" using assms(3) by simp
  also have "\<not> finished ?p" using assms(1,2) by (auto simp: finished_def)
  then have "run_chars m ?p (SP # r) = run_chars m (parse_char m ?p SP) r" by simp
  finally show ?thesis
    using assms(1,2,6) by (elim disjE) (simp_all add: parse_char_switch parse_switch_def)
qed

lemma run_version:
  assumes "parser_state p = VERSION" "msg_buffer p = []" "list_all isascii s" "SP \<notin> set s"
    "CR \<notin> set s" "LF \<notin> set s" "n_total_read p + length s + 2 \<le> m"
  shows "run_chars m p (s @ CR # LF # r) = run_chars m
    (p\<lparr>n_total_read := n_total_read p + length s + 2, parser_request := (parser_request p)\<lparr>version_of := s\<rparr>,
       msg_buffer := [], parser_state := HEADERS\<rparr>) r"
proof -
  let ?g = "\<lambda>c. if c = CR then [] else [c]"
  let ?p = "p\<lparr>msg_buffer := s, n_total_read := n_total_read p + length s + 1\<rparr>"
  have push: "\<forall>c \<in> set (s @ [CR]). isascii c \<and>
      (\<forall>q. parser_state q = VERSION \<longrightarrow> parse_switch q c = q\<lparr>msg_buffer := msg_buffer q @ ?g c\<rparr>)"
  proof (intro ballI conjI allI impI)
    fix c and q :: parser_core assume c: "c \<in> set (s @ [CR])"
    then show "isascii c" using assms(3) by (auto simp: list_all_iff)
    have "c \<noteq> SP" "c \<noteq> LF" using c assms(4,6) by auto
    then show "parser_state q = VERSION \<Longrightarrow> parse_switch q c = q\<lparr>msg_buffer := msg_buffer q @ ?g c\<rparr>"
      by (rule switch_push(3))
  qed
  have g: "concat (map ?g (s @ [CR])) = s" using assms(5) by (induction s) auto
  have "run_chars m p (s @ CR # LF # r) = run_chars m ?p (LF # r)"
    using run_chars_push [OF push assms(1), of m "LF # r"] g assms(2,7) by simp
  also have "\<dots> = run_chars m (parse_char m ?p LF) r" using assms(1) by (simp add: finished_def)
  finally show ?thesis
    using assms(1,7) by (simp add: parse_char_switch parse_switch_def)
qed

lemma run_request:
  assumes ok: "text_ok meth url ver hs" and len: "length (request_text meth url ver hs) \<le> m"
  shows "run_chars m empty_core (request_text meth url ver hs @ body) =
    \<lparr>parser_request = \<lparr>headers_of = map (\<lambda>(n, v). compact n @ '': '' @ compact v) hs,
       method_of = meth, url_of = url, version_of = ver\<rparr>, msg_buffer = [],
     parser_state = DONE, n_total_read = length (request_text meth url ver hs)\<rparr>"
proof -
  let ?hs = "concat (map header_text hs)"
  let ?core = "\<lambda>req st n. \<lparr>parser_request = req, msg_buffer = [], parser_state = st,
      n_total_read = n\<rparr>"
  let ?req = "\<lambda>h m u v. \<lparr>headers_of = h, method_of = m, url_of = u, version_of = v\<rparr>"
  let ?n1 = "length meth + 1" and ?n2 = "length meth + 1 + length url + 1"
  let ?n3 = "length meth + 1 + length url + 1 + length ver + 2"
  have n: "?n3 + length ?hs + 2 \<le> m" using len by (simp add: request_text_def)
  have "run_chars m empty_core (request_text meth url ver hs @ body) =
      run_chars m (?core (?req [] meth [] []) URL ?n1) (url @ SP # ver @ CR # LF # ?hs @ CR # LF # body)"
    using run_word [of METHOD empty_core meth m "url @ SP # ver @ CR # LF # ?hs @ CR # LF # body"] ok n
    by (simp add: request_text_def empty_core_def text_ok_def)
  also have "\<dots> = run_chars m (?core (?req [] meth url []) VERSION ?n2) (ver @ CR # LF # ?hs @ CR # LF # body)"
    using run_word [of URL "?core (?req [] meth [] []) URL ?n1" url m "ver @ CR # LF # ?hs @ CR # LF # body"] ok n
    by (simp add: text_ok_def)
  also have "\<dots> = run_chars m (?core (?req [] meth url ver) HEADERS ?n3) (?hs @ CR # LF # body)"
    using run_version [of "?core (?req [] meth url []) VERSION ?n2" ver m "?hs @ CR # LF # body"] ok n
    by (simp add: text_ok_def)
  also have "\<dots> = run_chars m (?core (?req (map (\<lambda>(n, v). compact n @ '': '' @ compact v) hs) meth url ver)
      HEADERS (?n3 + length ?hs)) (CR # LF # body)"
    using run_headers [of hs "?core (?req [] meth url ver) HEADERS ?n3" m "CR # LF # body"] ok n
    by (simp add: text_ok_def)
  also have "\<dots> = ?core (?req (map (\<lambda>(n, v). compact n @ '': '' @ compact v) hs) meth url ver) DONE
      (length (request_text meth url ver hs))"
    using n by (simp add: finished_def parse_char_switch parse_switch_def end_header_def run_chars_finished
        request_text_def)
  finally show ?thesis .
qed

section \<open>Where the buffer management goes wrong\<close>

lemma overread_loop:
  "0 < i \<Longrightarrow> i \<le> k \<Longrightarrow> k \<le> m \<Longrightarrow>
   ParseFileStream k m \<lparr>core = empty_core\<lparr>msg_buffer := replicate i (CHR 0x00), n_total_read := i\<rparr>,
     io_buffer = replicate k (CHR 0x00), cur_buf_idx = i, end_buf_idx = 0\<rparr> fin = UB"
proof (induction "k - i" arbitrary: i)
  case 0
  then show ?case
    by (subst ParseFileStream.simps) (simp add: empty_core_def refill_def ParseByte_def read_at_def)
next
  case (Suc d)
  have "replicate i (CHR 0x00) @ [CHR 0x00] = replicate (Suc i) (CHR 0x00)" by (simp flip: replicate_append_same)
  moreover have "isascii (CHR 0x00)" by (simp add: isascii_def)
  ultimately show ?case
    using Suc.hyps(1) [of "Suc i"] Suc.hyps(2) Suc.prems by (subst ParseFileStream.simps)
      (simp add: empty_core_def refill_def ParseByte_def read_at_def parse_char_switch parse_switch_def push_back_def)
qed

text \<open>
  A file whose bytes end at a multiple of the buffer size before the message is complete: the next read
  delivers no byte, yet the parser goes on with the old content of the buffer and past its end. The
  empty file shows it for every buffer size up to the limit on the message length.
\<close>

theorem truncated_file_overread:
  assumes "0 < kBufferSize" "kBufferSize \<le> kMaxMsgLength"
  shows "ParseFileStream kBufferSize kMaxMsgLength (new_HttpParser kBufferSize)
    \<lparr>frest = [], ffail = False\<rparr> = UB"
proof -
  have "isascii (CHR 0x00)" by (simp add: isascii_def)
  then show ?thesis
    using assms overread_loop [of 1 kBufferSize kMaxMsgLength "\<lparr>frest = [], ffail = True\<rparr>"]
    by (subst ParseFileStream.simps)
      (simp add: new_HttpParser_def empty_core_def refill_def ReadFromFileStream_def ParseByte_def read_at_def
        parse_char_switch parse_switch_def push_back_def)
qed

text \<open>
  A request that a socket delivers in two pieces: the parser takes the whole buffer as received, so the
  bytes behind the first piece become part of the method.
\<close>

theorem socket_reads_stale_bytes:
  "(case ParseSocketStream 4096 (new_HttpParser 20) [''GE'', ''T / HTTP/1.1'' @ [LF, LF]] of
      Val (ret, p) \<Rightarrow> ret \<and> method_of (parser_request (core p)) = ''GE'' @ replicate 18 (CHR 0x00) @ ''T''
    | UB \<Rightarrow> False)"
  by code_simp

section \<open>Theorems\<close>

text \<open>C38: For a file whose bytes decide the outcome (they hold a complete message or an error), parsing gives
  what reading its bytes one by one gives, whatever the size of the I/O buffer: the same request, the same
  headers and the same verdict, with no read outside the buffer. Nothing is claimed of a file that ends
  before that: there the parser can go on with stale bytes of the buffer, as \<^verbatim>\<open>truncated_file_overread\<close>
  shows, and what it does depends on the buffer size.\<close>

theorem file_parse_buffer_independent:
  assumes "0 < kBufferSize" and "finished (run_chars kMaxMsgLength empty_core content)"
  shows "\<exists>p. ParseFileStream kBufferSize kMaxMsgLength (new_HttpParser kBufferSize)
      \<lparr>frest = content, ffail = False\<rparr> = Val (parser_state (core p) = DONE, p) \<and>
    core p = run_chars kMaxMsgLength empty_core content"
  using buffered_run [OF new_HttpParser_ok [of kBufferSize content] assms(1), of kMaxMsgLength] assms(2)
  by (simp add: new_HttpParser_def)

theorem file_parse_buffer_independent_witness:
  "\<exists>p. ParseFileStream 3 64 (new_HttpParser 3)
      \<lparr>frest = ''GET / HTTP/1.1'' @ [LF] @ ''A:b'' @ [LF, LF], ffail = False\<rparr> = Val (parser_state (core p) = DONE, p) \<and>
    core p = run_chars 64 empty_core (''GET / HTTP/1.1'' @ [LF] @ ''A:b'' @ [LF, LF])"
  by (rule file_parse_buffer_independent; code_simp)

text \<open>A request in standard form that fits the limit is parsed to its method, target and version;
  of every header the blanks are removed, also those inside the value, and name and value are turned
  to lower case.\<close>

theorem file_parse_request:
  assumes "0 < kBufferSize" "text_ok meth url ver hs"
    and "length (request_text meth url ver hs) \<le> kMaxMsgLength"
  shows "\<exists>p. ParseFileStream kBufferSize kMaxMsgLength (new_HttpParser kBufferSize)
      \<lparr>frest = request_text meth url ver hs @ body, ffail = False\<rparr> = Val (True, p) \<and>
    parser_request (core p) = \<lparr>headers_of = map (\<lambda>(n, v). compact n @ '': '' @ compact v) hs,
      method_of = meth, url_of = url, version_of = ver\<rparr>"
  using buffered_run [OF new_HttpParser_ok [of kBufferSize "request_text meth url ver hs @ body"] assms(1),
      of kMaxMsgLength] run_request [OF assms(2,3), of body]
  by (fastforce simp: new_HttpParser_def finished_def)

theorem file_parse_request_witness:
  "\<exists>p. ParseFileStream 512 4096 (new_HttpParser 512)
      \<lparr>frest = request_text ''GET'' ''/a'' ''HTTP/1.1'' [(''Host'', ''Ex.org''), (''Date'', ''1 May'')] @ ''x'',
       ffail = False\<rparr> = Val (True, p) \<and>
    parser_request (core p) = \<lparr>headers_of = [''host: ex.org'', ''date: 1may''],
      method_of = ''GET'', url_of = ''/a'', version_of = ''HTTP/1.1''\<rparr>"
proof -
  have "map (\<lambda>(n, v). compact n @ '': '' @ compact v) [(''Host'', ''Ex.org''), (''Date'', ''1 May'')] =
      [''host: ex.org'', ''date: 1may'']" by code_simp
  moreover have "text_ok ''GET'' ''/a'' ''HTTP/1.1'' [(''Host'', ''Ex.org''), (''Date'', ''1 May'')]" by code_simp
  moreover have "length (request_text ''GET'' ''/a'' ''HTTP/1.1'' [(''Host'', ''Ex.org''), (''Date'', ''1 May'')]) \<le> 4096"
    by code_simp
  ultimately show ?thesis
    using file_parse_request [of 512 "''GET''" "''/a''" "''HTTP/1.1''" "[(''Host'', ''Ex.org''), (''Date'', ''1 May'')]"
        4096 "''x''"] by simp
qed
end
