(* ===== verification/Compression.thy ===== *)
theory Compression
  imports Utils Chunked "HOL-Library.Monad_Syntax"
begin

text \<open>
  Compression of a response body: \<^verbatim>\<open>core/include/compression.hpp\<close>, \<^verbatim>\<open>core/src/compression.cc\<close>, and the
  functions of \<^verbatim>\<open>core/include/services.hpp\<close> that write a body to the client. The library zlib is a
  parameter; what its documentation says of \<^verbatim>\<open>deflate\<close> is the hypothesis \<open>deflate_contract\<close> where it is used.
\<close>

section \<open>Compression types\<close>

record CompressionType =
  ccode :: u32
  cstr :: string

definition kCompressionTypeStrGzip :: string where "kCompressionTypeStrGzip = ''gzip''"
definition kCompressionTypeStrBrotli :: string where "kCompressionTypeStrBrotli = ''brotli''"
definition kCompressionTypeStrDeflate :: string where "kCompressionTypeStrDeflate = ''deflate''"
definition kCompressionTypeStrZStandard :: string where "kCompressionTypeStrZStandard = ''zstd''"
definition kCompressionTypeStrNone :: string where "kCompressionTypeStrNone = []"

definition kCompressionTypeCodeGzip :: u32 where "kCompressionTypeCodeGzip = HashConstantString ''gzip''"
definition kCompressionTypeCodeBrotli :: u32 where "kCompressionTypeCodeBrotli = HashConstantString ''brotli''"
definition kCompressionTypeCodeDeflate :: u32 where "kCompressionTypeCodeDeflate = HashConstantString ''deflate''"
definition kCompressionTypeCodeZStandard :: u32 where "kCompressionTypeCodeZStandard = HashConstantString ''zstd''"
definition kCompressionTypeCodeNone :: u32 where "kCompressionTypeCodeNone = HashConstantString []"

text \<open>The three values of \<^verbatim>\<open>CompressionType\<close> that the sources build.\<close>

definition gzip_type :: CompressionType where
  "gzip_type = \<lparr>ccode = kCompressionTypeCodeGzip, cstr = kCompressionTypeStrGzip\<rparr>"

definition brotli_type :: CompressionType where
  "brotli_type = \<lparr>ccode = kCompressionTypeCodeBrotli, cstr = kCompressionTypeStrBrotli\<rparr>"

definition no_compression :: CompressionType where
  "no_compression = \<lparr>ccode = kCompressionTypeCodeNone, cstr = kCompressionTypeStrNone\<rparr>"

definition GetCompressionType :: "string \<Rightarrow> CompressionType" where
  "GetCompressionType supported =
     (if str_find kCompressionTypeStrGzip supported \<noteq> None then gzip_type
      else if str_find kCompressionTypeStrBrotli supported \<noteq> None then brotli_type
      else no_compression)"

text \<open>The codes are hashes; no two of them are equal.\<close>

lemma codes_distinct:
  "kCompressionTypeCodeNone \<noteq> kCompressionTypeCodeGzip" "kCompressionTypeCodeNone \<noteq> kCompressionTypeCodeBrotli"
  "kCompressionTypeCodeNone \<noteq> kCompressionTypeCodeZStandard" "kCompressionTypeCodeNone \<noteq> kCompressionTypeCodeDeflate"
  "kCompressionTypeCodeBrotli \<noteq> kCompressionTypeCodeGzip"
  by code_simp+

section \<open>The gzip stream\<close>

abbreviation kDefaultCompressChunkBytes :: nat where
  "kDefaultCompressChunkBytes \<equiv> 100"

datatype zret = Z_OK | Z_STREAM_END | Z_BUF_ERROR | Z_STREAM_ERROR | Z_MEM_ERROR | Z_VERSION_ERROR

text \<open>
  A call of \<^verbatim>\<open>deflate\<close> on a stream with the flag \<^verbatim>\<open>flush == Z_FINISH\<close>: the stream after it, the bytes
  written to the output buffer, and the return value. The handler is told the bytes and may refuse
  them; it carries its own state. The library also has the initialisation of a stream, with its level,
  method, window bits, memory level and strategy, and the assignment of the input.
\<close>

type_synonym 'z deflate = "'z \<Rightarrow> bool \<Rightarrow> 'z \<times> string \<times> zret"
type_synonym 's handler = "string \<Rightarrow> 's \<Rightarrow> bool \<times> 's"

record 'z zlib =
  deflateInit2 :: "int \<Rightarrow> int \<Rightarrow> int \<Rightarrow> int \<Rightarrow> int \<Rightarrow> zret \<times> 'z"
  deflate_call :: "'z deflate"
  next_in :: "'z \<Rightarrow> string \<Rightarrow> 'z"

definition MAX_WBITS :: int where "MAX_WBITS = 15"
definition Z_DEFLATED :: int where "Z_DEFLATED = 8"
definition Z_DEFAULT_STRATEGY :: int where "Z_DEFAULT_STRATEGY = 0"
definition Z_DEFAULT_COMPRESSION :: int where "Z_DEFAULT_COMPRESSION = - 1"

text \<open>
  The constructor. The sources are built with assertions, and one that fails ends the process: the call
  does not return, which is \<open>None\<close>.
\<close>

definition new_GzipCompressor :: "'z zlib \<Rightarrow> int \<Rightarrow> 'z option" where
  "new_GzipCompressor lib level =
     (let (ret, zstrm) = deflateInit2 lib level Z_DEFLATED (MAX_WBITS + 16) 8 Z_DEFAULT_STRATEGY
      in if ret = Z_OK then Some zstrm else None)"

text \<open>
  The inner loop: it goes on while the output buffer was filled, and asserts that the library found no
  error in the stream.
\<close>

partial_function (option) deflate_loop ::
  "'z deflate \<Rightarrow> 's handler \<Rightarrow> bool \<Rightarrow> 'z \<Rightarrow> 's \<Rightarrow> (bool \<times> 'z \<times> zret \<times> 's) option" where
  [code]: "deflate_loop deflate handler finish z s =
     (case deflate z finish of (z', out, ret) \<Rightarrow>
      if ret = Z_STREAM_ERROR then None else
      case (if out \<noteq> [] then handler out s else (True, s)) of (ok, s') \<Rightarrow>
        if \<not> ok then Some (False, z', ret, s')
        else if length out = kDefaultCompressChunkBytes then deflate_loop deflate handler finish z' s'
        else Some (True, z', ret, s'))"

text \<open>
  What a read of 100 bytes from the source gives: all of them, fewer with the end of the file, or an
  error. A source is the list of its reads; past them it is at its end.
\<close>

datatype source_read = Full string | Last string | Failed

fun GzipStreamCompress ::
  "'z zlib \<Rightarrow> 's handler \<Rightarrow> 'z \<Rightarrow> source_read list \<Rightarrow> 's \<Rightarrow> (bool \<times> 's) option" where
  "GzipStreamCompress lib handler z (Full bytes # reads) s =
     (case deflate_loop (deflate_call lib) handler False (next_in lib z bytes) s of
        None \<Rightarrow> None
      | Some (ok, z', ret, s') \<Rightarrow>
          if ok then GzipStreamCompress lib handler z' reads s' else Some (False, s'))"
| "GzipStreamCompress lib handler z (Last bytes # reads) s =
     (case deflate_loop (deflate_call lib) handler True (next_in lib z bytes) s of
        None \<Rightarrow> None
      | Some (ok, z', ret, s') \<Rightarrow> Some (ok \<and> ret = Z_STREAM_END, s'))"
| "GzipStreamCompress lib handler z (Failed # reads) s = Some (False, s)"
| "GzipStreamCompress lib handler z [] s =
     (case deflate_loop (deflate_call lib) handler True (next_in lib z []) s of
        None \<Rightarrow> None
      | Some (ok, z', ret, s') \<Rightarrow> Some (ok \<and> ret = Z_STREAM_END, s'))"

text \<open>The reads of a file of the given bytes; with \<open>bad\<close>, reading on after these bytes is an error.\<close>

function file_reads :: "bool \<Rightarrow> string \<Rightarrow> source_read list" where
  "file_reads bad bytes =
     (if length bytes < kDefaultCompressChunkBytes then [if bad then Failed else Last bytes]
      else Full (take kDefaultCompressChunkBytes bytes) # file_reads bad (drop kDefaultCompressChunkBytes bytes))"
  by pat_completeness auto
termination
  by (relation "measure (\<lambda>(bad, bytes). length bytes)") auto

declare file_reads.simps [simp del]

section \<open>Writing to the client\<close>

text \<open>
  A socket: the bytes it took, and what it will answer to the next calls. A \<^verbatim>\<open>write_some\<close> fails, or takes
  as many bytes as it can at once, which may be fewer than it was given; when no answer is left, it takes
  all.
\<close>

record socket =
  sent :: string
  answers :: "nat option list"

definition write_some :: "string \<Rightarrow> socket \<Rightarrow> bool \<times> socket" where
  "write_some bytes sock =
     (case answers sock of
        [] \<Rightarrow> (True, sock\<lparr>sent := sent sock @ bytes\<rparr>)
      | None # rest \<Rightarrow> (False, sock\<lparr>answers := rest\<rparr>)
      | Some n # rest \<Rightarrow> (True, sock\<lparr>sent := sent sock @ take n bytes, answers := rest\<rparr>))"

text \<open>
  The lambda \<^verbatim>\<open>compressed_output_handler\<close>. The first of its three buffers refers to the temporary string of
  \<^verbatim>\<open>fmt::format\<close>, which is destroyed before the write. To read it is undefined behaviour; here the read gives
  whatever bytes the memory \<open>mem\<close> holds in the place of the string, so that what else is written can be said.
\<close>

definition written_chunk :: "memory \<Rightarrow> string \<Rightarrow> string" where
  "written_chunk mem compressed_data =
     after_destruction mem (hex (length compressed_data) @ [CR, LF]) @ compressed_data @ [CR, LF]"

definition compressed_output_handler :: "memory \<Rightarrow> socket handler" where
  "compressed_output_handler mem compressed_data sock = write_some (written_chunk mem compressed_data) sock"

definition handleGzipCompression ::
  "memory \<Rightarrow> 'z zlib \<Rightarrow> source_read list \<Rightarrow> socket \<Rightarrow> (bool \<times> socket) option" where
  "handleGzipCompression mem lib reads sock =
     (case new_GzipCompressor lib Z_DEFAULT_COMPRESSION of
        None \<Rightarrow> None
      | Some z \<Rightarrow>
          (case GzipStreamCompress lib (compressed_output_handler mem) z reads sock of
             None \<Rightarrow> None
           | Some (ok, sock') \<Rightarrow>
               if \<not> ok then Some (False, sock') else Some (write_some kChunkedEncodingEndingStr sock')))"

text \<open>
  \<^verbatim>\<open>handleNoCompression\<close>. On a plain socket the kernel's \<^verbatim>\<open>sendfile\<close> answers with the number of bytes it
  moved or an error; on an SSL stream the file is copied through the request's header buffer with
  writes that complete or fail, and when reading ends in an error (\<open>bad\<close>) after the bytes that could be read,
  the next read finds no bytes and \<^verbatim>\<open>bad()\<close>, and the function returns false. The functions that open a file also return how many descriptors
  they leave open: a stream object closes its file, the descriptor of \<^verbatim>\<open>::open\<close> is never closed.
\<close>

definition sendfile_body :: "string option \<Rightarrow> nat \<Rightarrow> nat option \<Rightarrow> socket \<Rightarrow> bool \<times> nat \<times> socket" where
  "sendfile_body opened local_file_size answer sock =
     (case opened of
        None \<Rightarrow> (False, 0, sock)
      | Some bytes \<Rightarrow>
          (case answer of
             None \<Rightarrow> (False, 1, sock)
           | Some n \<Rightarrow> (True, 1, sock\<lparr>sent := sent sock @ take n (take local_file_size bytes)\<rparr>)))"

text \<open>
  \<^verbatim>\<open>boost::asio::write\<close>: as many calls of \<^verbatim>\<open>write_some\<close> as it takes to transfer all bytes, up to the first one
  that fails; what was transferred before it stays transferred.
\<close>

fun write_calls :: "string \<Rightarrow> string \<Rightarrow> nat option list \<Rightarrow> bool \<times> socket" where
  "write_calls out bytes [] = (True, \<lparr>sent = out @ bytes, answers = []\<rparr>)"
| "write_calls out bytes (a # rest) =
     (if bytes = [] then (True, \<lparr>sent = out, answers = a # rest\<rparr>)
      else case a of
             None \<Rightarrow> (False, \<lparr>sent = out, answers = rest\<rparr>)
           | Some n \<Rightarrow> write_calls (out @ take n bytes) (drop n bytes) rest)"

definition write_all :: "string \<Rightarrow> socket \<Rightarrow> bool \<times> socket" where
  "write_all bytes sock = write_calls (sent sock) bytes (answers sock)"

function copy_body :: "nat \<Rightarrow> string \<Rightarrow> socket \<Rightarrow> bool \<times> socket" where
  "copy_body bufsz bytes sock =
     (if bytes = [] \<or> bufsz = 0 then (True, sock)
      else case write_all (take bufsz bytes) sock of
             (False, sock') \<Rightarrow> (False, sock')
           | (True, sock') \<Rightarrow> copy_body bufsz (drop bufsz bytes) sock')"
  by pat_completeness auto
termination
  by (relation "measure (\<lambda>(n, bytes, sock). length bytes)") auto

declare copy_body.simps [simp del]

definition handleNoCompression ::
  "bool \<Rightarrow> nat \<Rightarrow> string option \<Rightarrow> bool \<Rightarrow> nat \<Rightarrow> nat option \<Rightarrow> socket \<Rightarrow> bool \<times> nat \<times> socket" where
  "handleNoCompression is_ssl header_buf_size opened bad local_file_size answer sock =
     (if \<not> is_ssl then sendfile_body opened local_file_size answer sock
      else case opened of
             None \<Rightarrow> (False, 0, sock)
           | Some bytes \<Rightarrow> (case copy_body header_buf_size bytes sock of (ok, sock) \<Rightarrow> (ok \<and> \<not> bad, 0, sock)))"

definition compressAndWriteBody ::
  "memory \<Rightarrow> 'z zlib \<Rightarrow> bool \<Rightarrow> nat \<Rightarrow> string option \<Rightarrow> bool \<Rightarrow> nat \<Rightarrow> nat option \<Rightarrow> CompressionType \<Rightarrow> socket \<Rightarrow>
   (bool \<times> nat \<times> socket) option" where
  "compressAndWriteBody mem lib is_ssl header_buf_size opened bad local_file_size answer ctype sock =
     (if ccode ctype = kCompressionTypeCodeGzip then
        (case opened of
           None \<Rightarrow> Some (False, 0, sock)
         | Some bytes \<Rightarrow>
             (case handleGzipCompression mem lib (file_reads bad bytes) sock of
                None \<Rightarrow> None
              | Some (ok, sock) \<Rightarrow> Some (ok, 0, sock)))
      else if ccode ctype = kCompressionTypeCodeBrotli then Some (False, 0, sock)
      else if ccode ctype = kCompressionTypeCodeZStandard then Some (False, 0, sock)
      else if ccode ctype = kCompressionTypeCodeDeflate then Some (False, 0, sock)
      else Some (handleNoCompression is_ssl header_buf_size opened bad local_file_size answer sock))"

section \<open>Transfers\<close>

lemma write_all_all: "answers up = [] \<Longrightarrow> write_all bytes up = (True, \<lparr>sent = sent up @ bytes, answers = []\<rparr>)"
  by (simp add: write_all_def)

lemma write_calls_prefix:
  assumes "write_calls out bytes as = (ok, sock)"
  shows "\<exists>p. sent sock = out @ p \<and> prefix p bytes \<and> (ok \<longrightarrow> p = bytes)"
  using assms
proof (induction out bytes as rule: write_calls.induct)
  case (2 out bytes a rest)
  show ?case
  proof (cases "bytes = [] \<or> a = None")
    case False
    then obtain n where n: "bytes \<noteq> []" "a = Some n" by auto
    with 2 obtain p where "sent sock = (out @ take n bytes) @ p" "prefix p (drop n bytes)" "ok \<longrightarrow> p = drop n bytes"
      by auto
    moreover from this(2) have "prefix (take n bytes @ p) bytes"
      by (metis append_take_drop_id same_prefix_prefix)
    ultimately show ?thesis by (intro exI [of _ "take n bytes @ p"]) auto
  qed (use 2 in \<open>auto split: if_splits\<close>)
qed auto

text \<open>A write transfers a prefix of its bytes, and all of them when it reports no error.\<close>

lemma write_all_prefix:
  assumes "write_all bytes sock = (ok, sock')"
  obtains p where "sent sock' = sent sock @ p" "prefix p bytes" "ok \<Longrightarrow> p = bytes"
  using write_calls_prefix [OF assms [unfolded write_all_def]] by auto

section \<open>Simulation of handlers\<close>

definition handlers_agree :: "('s \<Rightarrow> 't \<Rightarrow> bool) \<Rightarrow> 's handler \<Rightarrow> 't handler \<Rightarrow> bool" where
  "handlers_agree R h1 h2 \<longleftrightarrow> (\<forall>out s t. out \<noteq> [] \<longrightarrow> length out \<le> kDefaultCompressChunkBytes \<longrightarrow> R s t \<longrightarrow>
     fst (h1 out s) = fst (h2 out t) \<and> R (snd (h1 out s)) (snd (h2 out t)))"

definition fits_buffer :: "'z deflate \<Rightarrow> bool" where
  "fits_buffer deflate \<longleftrightarrow> (\<forall>z finish. length (fst (snd (deflate z finish))) \<le> kDefaultCompressChunkBytes)"

text \<open>Only finitely many calls fill the output buffer: \<open>pending\<close> bounds them.\<close>

definition drains :: "'z deflate \<Rightarrow> ('z \<Rightarrow> nat) \<Rightarrow> bool" where
  "drains deflate pending \<longleftrightarrow> (\<forall>z finish. length (fst (snd (deflate z finish))) = kDefaultCompressChunkBytes \<longrightarrow>
     pending (fst (deflate z finish)) < pending z)"

text \<open>No call finds an error in the stream, as documented for streams that were initialised.\<close>

definition no_stream_error :: "'z deflate \<Rightarrow> bool" where
  "no_stream_error deflate \<longleftrightarrow> (\<forall>z finish. snd (snd (deflate z finish)) \<noteq> Z_STREAM_ERROR)"

text \<open>What the code relies on, for the calls of a library.\<close>

definition zlib_ok :: "'z zlib \<Rightarrow> ('z \<Rightarrow> nat) \<Rightarrow> bool" where
  "zlib_ok lib pending \<longleftrightarrow>
     fits_buffer (deflate_call lib) \<and> drains (deflate_call lib) pending \<and> no_stream_error (deflate_call lib)"

text \<open>
  The documentation of \<^verbatim>\<open>deflate\<close>. A stream has been \<open>fed\<close> some bytes and has \<open>produced\<close> some; a new one has
  done neither. New input may be given when the old is \<open>consumed\<close>. A call produces what it writes to the
  output buffer; when it leaves room there, the input is consumed, and with \<^verbatim>\<open>Z_FINISH\<close> the stream has ended and
  decompressing what was produced (\<open>gunzip\<close>) gives what was fed. A stream that was fed \<open>n\<close> bytes never produces more
  than \<^verbatim>\<open>deflateBound\<close> of \<open>n\<close>.
\<close>

definition deflate_contract ::
  "'z zlib \<Rightarrow> ('z \<Rightarrow> string) \<Rightarrow> ('z \<Rightarrow> string) \<Rightarrow> ('z \<Rightarrow> bool) \<Rightarrow> (nat \<Rightarrow> nat) \<Rightarrow> (string \<Rightarrow> string option) \<Rightarrow> bool" where
  "deflate_contract lib fed produced consumed deflateBound gunzip \<longleftrightarrow>
     fits_buffer (deflate_call lib) \<and> no_stream_error (deflate_call lib) \<and>
     (\<forall>level meth bits mem strategy z. deflateInit2 lib level meth bits mem strategy = (Z_OK, z) \<longrightarrow>
        fed z = [] \<and> produced z = [] \<and> consumed z) \<and>
     (\<forall>z bytes. consumed z \<longrightarrow> fed (next_in lib z bytes) = fed z @ bytes \<and> produced (next_in lib z bytes) = produced z) \<and>
     (\<forall>z finish z' out ret. deflate_call lib z finish = (z', out, ret) \<longrightarrow>
        fed z' = fed z \<and> produced z' = produced z @ out \<and>
        (length out < kDefaultCompressChunkBytes \<longrightarrow>
           consumed z' \<and> (finish \<longrightarrow> ret = Z_STREAM_END \<and> gunzip (produced z') = Some (fed z')))) \<and>
     (\<forall>z. length (produced z) \<le> deflateBound (length (fed z)))"

text \<open>One call, by its contract.\<close>

lemma contract_call:
  assumes contract: "deflate_contract lib fed produced consumed deflateBound gunzip" and call: "deflate_call lib z finish = (z', out, ret)"
  shows "fed z' = fed z" "produced z' = produced z @ out" "length (produced z @ out) \<le> deflateBound (length (fed z))"
    and "length out < kDefaultCompressChunkBytes \<Longrightarrow> consumed z'"
    and "length out < kDefaultCompressChunkBytes \<Longrightarrow> finish \<Longrightarrow> ret = Z_STREAM_END \<and> gunzip (produced z @ out) = Some (fed z)"
    and "length out \<le> kDefaultCompressChunkBytes" "ret \<noteq> Z_STREAM_ERROR"
proof -
  have effect: "fed z' = fed z \<and> produced z' = produced z @ out \<and> (length out < kDefaultCompressChunkBytes \<longrightarrow>
      consumed z' \<and> (finish \<longrightarrow> ret = Z_STREAM_END \<and> gunzip (produced z') = Some (fed z')))"
    using contract call unfolding deflate_contract_def by blast
  have "length (produced z') \<le> deflateBound (length (fed z'))" using contract unfolding deflate_contract_def by blast
  with effect show "fed z' = fed z" "produced z' = produced z @ out" "length (produced z @ out) \<le> deflateBound (length (fed z))"
    "length out < kDefaultCompressChunkBytes \<Longrightarrow> consumed z'"
    "length out < kDefaultCompressChunkBytes \<Longrightarrow> finish \<Longrightarrow> ret = Z_STREAM_END \<and> gunzip (produced z @ out) = Some (fed z)"
    by auto
  show "length out \<le> kDefaultCompressChunkBytes" "ret \<noteq> Z_STREAM_ERROR"
    using contract call by (metis deflate_contract_def fits_buffer_def no_stream_error_def fst_conv snd_conv)+
qed

lemma contract_new:
  assumes "deflate_contract lib fed produced consumed deflateBound gunzip" "new_GzipCompressor lib level = Some z"
  shows "fed z = []" "produced z = []" "consumed z"
proof -
  obtain bits mem strategy meth where "deflateInit2 lib level meth bits mem strategy = (Z_OK, z)"
    using assms(2) by (auto simp: new_GzipCompressor_def Let_def split: prod.splits if_splits)
  then show "fed z = []" "produced z = []" "consumed z" using assms(1) unfolding deflate_contract_def by blast+
qed

text \<open>With the bound on what is produced, only finitely many calls fill the buffer.\<close>

lemma contract_zlib_ok:
  assumes "deflate_contract lib fed produced consumed deflateBound gunzip"
  shows "zlib_ok lib (\<lambda>z. deflateBound (length (fed z)) - length (produced z))"
proof -
  let ?room = "\<lambda>z. deflateBound (length (fed z)) - length (produced z)"
  have "?room (fst (deflate_call lib z finish)) < ?room z"
    if "length (fst (snd (deflate_call lib z finish))) = kDefaultCompressChunkBytes" for z finish
  proof -
    obtain z' out ret where call: "deflate_call lib z finish = (z', out, ret)" by (metis prod_cases3)
    from contract_call [OF assms call] that call show ?thesis by simp
  qed
  with assms show ?thesis by (simp add: zlib_ok_def drains_def deflate_contract_def)
qed

lemma deflate_loop_step:
  assumes "deflate z finish = (z1, out, ret)" and "ret \<noteq> Z_STREAM_ERROR" and "(if out \<noteq> [] then h out u else (True, u)) = (ok, u1)"
  shows "deflate_loop deflate h finish z u =
    (if \<not> ok then Some (False, z1, ret, u1)
     else if length out = kDefaultCompressChunkBytes then deflate_loop deflate h finish z1 u1
     else Some (True, z1, ret, u1))"
  using assms by (subst deflate_loop.simps) simp

text \<open>Both loops return, with the same verdict and related states.\<close>

lemma deflate_loop_sim:
  assumes agree: "handlers_agree R h1 h2" and fits: "fits_buffer deflate" and drains: "drains deflate pending" and sound: "no_stream_error deflate"
  shows "R s t \<Longrightarrow> \<exists>ok z' ret s' t'. deflate_loop deflate h1 finish z s = Some (ok, z', ret, s') \<and>
    deflate_loop deflate h2 finish z t = Some (ok, z', ret, t') \<and> R s' t'"
proof (induction "pending z" arbitrary: z s t rule: less_induct)
  case less
  obtain z1 out ret where d: "deflate z finish = (z1, out, ret)" by (metis prod_cases3)
  have out: "length out \<le> kDefaultCompressChunkBytes" using fits d by (metis fits_buffer_def fst_conv snd_conv)
  have ret: "ret \<noteq> Z_STREAM_ERROR" using sound d by (metis no_stream_error_def snd_conv)
  obtain ok1 s1 where h1: "(if out \<noteq> [] then h1 out s else (True, s)) = (ok1, s1)" by fastforce
  obtain ok2 t1 where h2: "(if out \<noteq> [] then h2 out t else (True, t)) = (ok2, t1)" by fastforce
  have agree1: "ok1 = ok2 \<and> R s1 t1"
  proof (cases "out = []")
    case True
    then show ?thesis using h1 h2 less.prems by auto
  next
    case False
    then have "fst (h1 out s) = fst (h2 out t) \<and> R (snd (h1 out s)) (snd (h2 out t))"
      using agree out less.prems by (simp add: handlers_agree_def)
    with False h1 h2 show ?thesis by simp
  qed
  note step = deflate_loop_step [where deflate = deflate and z = z and finish = finish and h = h1 and u = s, OF d ret h1]
    deflate_loop_step [where deflate = deflate and z = z and finish = finish and h = h2 and u = t, OF d ret h2]
  show ?case
  proof (cases "ok1 \<and> length out = kDefaultCompressChunkBytes")
    case True
    then have "pending z1 < pending z" using drains d by (metis drains_def fst_conv snd_conv)
    with less.hyps agree1 True step show ?thesis by simp
  next
    case False
    with agree1 step show ?thesis by auto
  qed
qed

lemma GzipStreamCompress_sim:
  assumes agree: "handlers_agree R h1 h2" and lib: "zlib_ok lib pending"
  shows "R s t \<Longrightarrow> \<exists>ok s' t'. GzipStreamCompress lib h1 z reads s = Some (ok, s') \<and>
    GzipStreamCompress lib h2 z reads t = Some (ok, t') \<and> R s' t'"
proof -
  have "fits_buffer (deflate_call lib)" "drains (deflate_call lib) pending" "no_stream_error (deflate_call lib)"
    using lib by (simp_all add: zlib_ok_def)
  note sim = deflate_loop_sim [OF agree this]
  show "R s t \<Longrightarrow> \<exists>ok s' t'. GzipStreamCompress lib h1 z reads s = Some (ok, s') \<and>
    GzipStreamCompress lib h2 z reads t = Some (ok, t') \<and> R s' t'"
proof (induction reads arbitrary: z s t)

  case Nil
  from sim [OF Nil, of True "next_in lib z []"] show ?case by auto
next
  case (Cons r reads)
  show ?case
  proof (cases r)
    case (Full bytes)
    from sim [OF Cons.prems, of False "next_in lib z bytes"] obtain ok z' ret s' t' where
      l: "deflate_loop (deflate_call lib) h1 False (next_in lib z bytes) s = Some (ok, z', ret, s')"
      "deflate_loop (deflate_call lib) h2 False (next_in lib z bytes) t = Some (ok, z', ret, t')" "R s' t'" by blast
    with Cons.IH [OF l(3), of z'] Full show ?thesis by (cases ok) auto
  next
    case (Last bytes)
    from sim [OF Cons.prems, of True "next_in lib z bytes"] Last show ?thesis by auto
  qed (use Cons.prems in auto)
qed
qed

text \<open>The handler that collects what it is told.\<close>

definition collect :: "string list handler" where
  "collect out outs = (True, outs @ [out])"

definition framed :: "memory \<Rightarrow> string \<Rightarrow> string list \<Rightarrow> socket \<Rightarrow> bool" where
  "framed mem sent0 outs sock \<longleftrightarrow> sock = \<lparr>sent = sent0 @ concat (map (written_chunk mem) outs), answers = []\<rparr> \<and>
     list_all (\<lambda>out. out \<noteq> [] \<and> length out \<le> kDefaultCompressChunkBytes) outs"

lemma written_chunk_intact: "intact mem \<Longrightarrow> written_chunk mem = chunk_frame"
  by (rule ext) (simp add: written_chunk_def intact_def chunk_frame_def)

lemma collect_agrees: "handlers_agree (framed mem sent0) collect (compressed_output_handler mem)"
  by (simp add: handlers_agree_def framed_def collect_def compressed_output_handler_def write_some_def)

lemma write_some_framed:
  "framed mem sent0 outs sock \<Longrightarrow>
   write_some bytes sock = (True, \<lparr>sent = sent0 @ concat (map (written_chunk mem) outs) @ bytes, answers = []\<rparr>)"
  by (simp add: framed_def write_some_def)

text \<open>On a client that takes all bytes it is given, a compressed body is one chunk per buffer of
  compressed data, in order, and the last chunk.\<close>

lemma gzip_body_written:
  assumes "zlib_ok lib pending" and "new_GzipCompressor lib Z_DEFAULT_COMPRESSION = Some z"
    and "GzipStreamCompress lib collect z reads [] = Some (True, outs)"
  shows "handleGzipCompression mem lib reads \<lparr>sent = sent0, answers = []\<rparr> =
      Some (True, \<lparr>sent = sent0 @ concat (map (written_chunk mem) outs) @ kChunkedEncodingEndingStr, answers = []\<rparr>) \<and>
    list_all (\<lambda>out. out \<noteq> [] \<and> length out \<le> kDefaultCompressChunkBytes) outs"
proof -
  let ?sock = "\<lparr>sent = sent0, answers = []\<rparr>"
  have "framed mem sent0 [] ?sock" by (simp add: framed_def)
  from GzipStreamCompress_sim [OF collect_agrees assms(1) this, of z reads] assms(3)
  obtain sock' where g: "GzipStreamCompress lib (compressed_output_handler mem) z reads ?sock = Some (True, sock')"
    and f: "framed mem sent0 outs sock'" by auto
  from f have "list_all (\<lambda>out. out \<noteq> [] \<and> length out \<le> kDefaultCompressChunkBytes) outs" by (simp add: framed_def)
  with g write_some_framed [OF f] assms(2) show ?thesis by (simp add: handleGzipCompression_def)
qed

text \<open>If the destroyed strings are still in their place, the chunk decoder gives back the compressed data
  with nothing lost or added.\<close>

lemma intact_chunks_decode:
  assumes "intact mem" "list_all (\<lambda>out. out \<noteq> [] \<and> length out \<le> kDefaultCompressChunkBytes) outs"
  shows "\<exists>call. phr_decode_chunked (zero_decoder True) (concat (map (written_chunk mem) outs) @ kChunkedEncodingEndingStr) = call \<and>
      take (call_bufsz call) (call_buf call) = concat outs \<and> call_ret call = 0"
proof -
  have "list_all (\<lambda>p. p \<noteq> [] \<and> length p < 2 ^ 64) outs" using assms(2) by (auto simp: list_all_iff)
  from frames_decode [OF this, of True "[]"] show ?thesis by (simp add: written_chunk_intact [OF assms(1)])
qed

section \<open>The compressed data\<close>

text \<open>The inner loop hands on what the library produces, and ends with the input consumed.\<close>

lemma deflate_loop_collects:
  assumes contract: "deflate_contract lib fed produced consumed deflateBound gunzip"
  shows "\<exists>z' ret outs. deflate_loop (deflate_call lib) collect finish z acc = Some (True, z', ret, acc @ outs) \<and>
    fed z' = fed z \<and> produced z' = produced z @ concat outs \<and> consumed z' \<and>
    (finish \<longrightarrow> ret = Z_STREAM_END \<and> gunzip (produced z') = Some (fed z'))"
proof (induction "deflateBound (length (fed z)) - length (produced z)" arbitrary: z acc rule: less_induct)
  case less
  obtain z1 out ret where d: "deflate_call lib z finish = (z1, out, ret)" by (metis prod_cases3)
  note z1 = contract_call [OF contract d]
  let ?new = "if out \<noteq> [] then [out] else []"
  have "(if out \<noteq> [] then collect out acc else (True, acc)) = (True, acc @ ?new)" by (simp add: collect_def)
  note step = deflate_loop_step [where deflate = "deflate_call lib" and h = collect and u = acc, OF d z1(7) this]
  show ?case
  proof (cases "length out = kDefaultCompressChunkBytes")
    case True
    with z1 have "deflateBound (length (fed z1)) - length (produced z1) < deflateBound (length (fed z)) - length (produced z)"
      by simp
    from less [OF this, of "acc @ ?new"] obtain z' ret' outs where
      "deflate_loop (deflate_call lib) collect finish z1 (acc @ ?new) = Some (True, z', ret', (acc @ ?new) @ outs)"
      "fed z' = fed z" "produced z' = produced z @ out @ concat outs" "consumed z'"
      "finish \<longrightarrow> ret' = Z_STREAM_END \<and> gunzip (produced z') = Some (fed z')"
      unfolding z1(1,2) by auto
    with step True show ?thesis
      by (intro exI [of _ z'] exI [of _ ret'] exI [of _ "?new @ outs"]) auto
  next
    case False
    with step z1 show ?thesis by (intro exI [of _ z1] exI [of _ ret] exI [of _ ?new]) auto
  qed
qed

text \<open>The outer loop feeds the file piece by piece, and finishes the stream with its last piece.\<close>

lemma file_compressed:
  assumes contract: "deflate_contract lib fed produced consumed deflateBound gunzip"
  shows "consumed z \<Longrightarrow> \<exists>outs. GzipStreamCompress lib collect z (file_reads False bytes) acc = Some (True, acc @ outs) \<and>
    gunzip (produced z @ concat outs) = Some (fed z @ bytes)"
proof (induction False bytes arbitrary: z acc rule: file_reads.induct)
  case (1 bytes)
  have fed: "fed (next_in lib z b) = fed z @ b" "produced (next_in lib z b) = produced z" for b
    using contract "1.prems" by (simp_all add: deflate_contract_def)
  note loop = deflate_loop_collects [OF contract]
  show ?case
  proof (cases "length bytes < kDefaultCompressChunkBytes")
    case True
    then have reads: "file_reads False bytes = [Last bytes]" by (simp add: file_reads.simps)
    from loop [of True "next_in lib z bytes" acc] show ?thesis unfolding reads fed by auto
  next
    case False
    let ?piece = "take kDefaultCompressChunkBytes bytes" and ?rest = "drop kDefaultCompressChunkBytes bytes"
    have reads: "file_reads False bytes = Full ?piece # file_reads False ?rest"
      using False by (subst file_reads.simps) simp
    from loop [of False "next_in lib z ?piece" acc] obtain z' ret outs where
      l: "deflate_loop (deflate_call lib) collect False (next_in lib z ?piece) acc = Some (True, z', ret, acc @ outs)"
      "fed z' = fed z @ ?piece" "produced z' = produced z @ concat outs" "consumed z'"
      unfolding fed by auto
    from "1.hyps" [OF False l(4), of "acc @ outs"] obtain outs' where
      "GzipStreamCompress lib collect z' (file_reads False ?rest) (acc @ outs) = Some (True, (acc @ outs) @ outs')"
      "gunzip (produced z' @ concat outs') = Some (fed z' @ ?rest)" by auto
    with l show ?thesis unfolding reads by (intro exI [of _ "outs @ outs'"]) simp
  qed
qed

section \<open>Theorems\<close>

text \<open>C34: Compression is complete and ends. With a library that does what the documentation of zlib says of
  \<^verbatim>\<open>deflate\<close>, a new compressor that is given a file of any contents returns for every output handler; and
  with a handler that takes everything it returns success, and what it was handed, in buffers of at most
  100 bytes, decompresses together to exactly the whole file. (That the inner loop ends follows from
  the documented bound on the size of the output.)\<close>

theorem gzip_compresses_file:
  assumes "deflate_contract lib fed produced consumed deflateBound gunzip" "new_GzipCompressor lib level = Some z"
  shows "(\<exists>ok s'. GzipStreamCompress lib handler z (file_reads bad bytes) s = Some (ok, s')) \<and>
    (\<exists>outs. GzipStreamCompress lib collect z (file_reads False bytes) [] = Some (True, outs) \<and> gunzip (concat outs) = Some bytes)"
proof
  have "handlers_agree (=) handler handler" by (simp add: handlers_agree_def)
  from GzipStreamCompress_sim [OF this contract_zlib_ok [OF assms(1)] refl, of z "file_reads bad bytes" s]
  show "\<exists>ok s'. GzipStreamCompress lib handler z (file_reads bad bytes) s = Some (ok, s')" by blast
  from contract_new [OF assms] show "\<exists>outs. GzipStreamCompress lib collect z (file_reads False bytes) [] = Some (True, outs) \<and> gunzip (concat outs) = Some bytes"
    using file_compressed [OF assms(1), of z bytes "[]"] by simp
qed

section \<open>Witnesses\<close>

text \<open>A library that stores its input without compressing it.\<close>

definition store_deflate :: "string deflate" where
  "store_deflate z finish =
     (drop 100 z, take 100 z, if finish \<and> length z < 100 then Z_STREAM_END else Z_OK)"

definition storing_zlib :: "string zlib" where
  "storing_zlib = \<lparr>deflateInit2 = (\<lambda>level meth bits mem strategy. (Z_OK, [])), deflate_call = store_deflate, next_in = (@)\<rparr>"

lemma storing_zlib_ok: "zlib_ok storing_zlib length"
  by (auto simp: zlib_ok_def fits_buffer_def drains_def no_stream_error_def storing_zlib_def store_deflate_def)

lemma storing_zlib_new: "new_GzipCompressor storing_zlib level = Some []"
  by (simp add: new_GzipCompressor_def storing_zlib_def)

text \<open>The same library, with a stream that remembers what it was fed and how much of it was produced.\<close>

definition tracking_zlib :: "(string \<times> nat) zlib" where
  "tracking_zlib =
     \<lparr>deflateInit2 = (\<lambda>level meth bits mem strategy. (Z_OK, ([], 0))),
      deflate_call = (\<lambda>(f, k) finish. let out = take 100 (drop k f)
        in ((f, k + length out), out, if finish \<and> length out < 100 then Z_STREAM_END else Z_OK)),
      next_in = (\<lambda>(f, k) bytes. (f @ bytes, min k (length f)))\<rparr>"

lemma tracking_zlib_contract:
  "deflate_contract tracking_zlib fst (\<lambda>(f, k). take k f) (\<lambda>_. True) id Some"
  by (auto simp: deflate_contract_def fits_buffer_def no_stream_error_def new_GzipCompressor_def tracking_zlib_def Let_def
      take_add min_def split: if_splits)

lemma tracking_zlib_new: "new_GzipCompressor tracking_zlib level = Some ([], 0)"
  by (simp add: new_GzipCompressor_def tracking_zlib_def)

theorem gzip_compresses_file_witness:
  "\<exists>outs. GzipStreamCompress tracking_zlib collect ([], 0) (file_reads False (replicate 250 (CHR ''a''))) [] = Some (True, outs) \<and>
     concat outs = replicate 250 (CHR ''a'')"
  using gzip_compresses_file [OF tracking_zlib_contract tracking_zlib_new, of collect True "replicate 250 (CHR ''a'')" "[]"]
  by simp

end
