(* ===== verification/Proxy_Read.thy ===== *)
theory Proxy_Read
  imports Config Router Compression Crequest
begin

text \<open>
  The first half of \<^verbatim>\<open>HttpProxyHandler\<close> in \<^verbatim>\<open>core/include/services.hpp\<close>: reading a request from the client
  into the header buffer, parsing it as it arrives, and taking from its headers what the gateway
  needs. The client is the sequence of results of \<^verbatim>\<open>async_read_some\<close>. A function of the handler
  returns the handler and what it waits for next; calls of \<^verbatim>\<open>async_accpet_cb_\<close> are counted.
\<close>

section \<open>The handler\<close>

text \<open>
  \<^verbatim>\<open>PicoHttpRequest\<close> of \<^verbatim>\<open>network_wrapper.hpp\<close>: the buffer, and the parser's results, which in the source point
  into it. The member \<^verbatim>\<open>request_\<close> of the handler is its first part. \<^verbatim>\<open>PicoHttpResponse\<close> is not used by any
  function.
\<close>

record PicoHttpRequest =
  header_buf :: string
  request :: phr_request

record PicoHttpResponse =
  response_buf :: string
  pico_response :: phr_response

record HttpProxyHandler = PicoHttpRequest +
  total_parsed :: nat
  extra_body_len :: nat
  compression_type :: CompressionType
  token :: string
  target_url :: string
  request_content_length :: size_t
  source_connection_info :: ConnectionInfo
  isWebSocket :: bool
  accepts :: nat

datatype next_step = Wait nat | Extract | Stop

datatype read_event = ReadError | ReadBytes string

text \<open>
  The constructor. The members it does not initialise have the values of \<open>undef\<close>, which stands for the
  memory the handler is built in.
\<close>

definition new_handler :: "HttpProxyHandler \<Rightarrow> ConnectionInfo \<Rightarrow> HttpProxyHandler" where
  "new_handler undef source =
     undef\<lparr>total_parsed := 0, token := [], target_url := [], request_content_length := 0,
           source_connection_info := source, accepts := 0\<rparr>"

definition async_accpet_cb :: "HttpProxyHandler \<Rightarrow> HttpProxyHandler" where
  "async_accpet_cb h = h\<lparr>accepts := accepts h + 1\<rparr>"

definition parseRequest :: "HttpProxyHandler \<Rightarrow> HttpProxyHandler \<times> next_step" where
  "parseRequest h =
     (if total_parsed h \<ge> kMaxHttpHeaderSize then (async_accpet_cb h, Stop)
      else (h, Wait (kMaxHttpHeaderSize - total_parsed h)))"

text \<open>The bytes of a read are in the header buffer, behind those that were there.\<close>

definition deliver :: "string \<Rightarrow> HttpProxyHandler \<Rightarrow> HttpProxyHandler" where
  "deliver bytes h =
     h\<lparr>header_buf := take (total_parsed h) (header_buf h) @ bytes @
          drop (total_parsed h + length bytes) (header_buf h)\<rparr>"

definition valid_request :: "phr_request \<Rightarrow> bool" where
  "valid_request q \<longleftrightarrow> \<not> (length (req_method q) = 0 \<or> length (req_path q) = 0 \<or>
     length (req_headers q) > kMaxHeadersNum)"

definition onRead :: "bool \<Rightarrow> read_event \<Rightarrow> HttpProxyHandler \<Rightarrow> (HttpProxyHandler \<times> next_step) outcome" where
  "onRead sse ev h =
     (case ev of
        ReadError \<Rightarrow> Val (async_accpet_cb h, Stop)
      | ReadBytes bytes \<Rightarrow>
          (let h = deliver bytes h;
               h = h\<lparr>total_parsed := total_parsed h + length bytes\<rparr>;
               buf = take (total_parsed h) (header_buf h);
               r = phr_parse_request sse kMaxHeadersNum 0 buf
           in bind_outcome (phr_ret buf r) (\<lambda>pret.
                if pret > 0 \<and> (case r of POk q _ \<Rightarrow> valid_request q | _ \<Rightarrow> False) then
                  Val (h\<lparr>request := (case r of POk q _ \<Rightarrow> q | _ \<Rightarrow> request h),
                         extra_body_len := total_parsed h - nat pret, total_parsed := nat pret\<rparr>, Extract)
                else if pret = - 2 then Val (parseRequest h)
                else Val (async_accpet_cb h, Stop))))"

text \<open>The reads of a connection, until the handler stops waiting for one.\<close>

fun read_loop :: "bool \<Rightarrow> read_event list \<Rightarrow> HttpProxyHandler \<Rightarrow>
    (HttpProxyHandler \<times> next_step \<times> read_event list) outcome" where
  "read_loop sse [] h = Val (h, Wait (kMaxHttpHeaderSize - total_parsed h), [])"
| "read_loop sse (ev # evs) h =
     bind_outcome (onRead sse ev h) (\<lambda>(h', step).
       case step of
         Wait _ \<Rightarrow> read_loop sse evs h'
       | _ \<Rightarrow> Val (h', step, evs))"

section \<open>What the headers say\<close>

definition extractAzugateAccessTokenFromCookie :: "string \<Rightarrow> string" where
  "extractAzugateAccessTokenFromCookie cookie_header =
     (case str_find ''azugate_access_token='' cookie_header of
        None \<Rightarrow> []
      | Some pos \<Rightarrow>
          let token_pos = pos + 21;
              token_end = (case find_char_from (CHR '';'') cookie_header token_pos of
                             None \<Rightarrow> length cookie_header
                           | Some e \<Rightarrow> e)
          in take (token_end - token_pos) (drop token_pos cookie_header))"

text \<open>\<^verbatim>\<open>substr\<close> throws when the position is past the end: \<open>None\<close>.\<close>

definition extractTokenFromAuthorization :: "string \<Rightarrow> string option" where
  "extractTokenFromAuthorization auth_header =
     (case str_find kHeaderAuthorizationTypeBearer auth_header of
        Some pos \<Rightarrow> if pos + 7 \<le> length auth_header then Some (drop (pos + 7) auth_header) else None
      | None \<Rightarrow> Some [])"

record header_meta =
  m_compression :: CompressionType
  m_token :: string
  m_content_length :: size_t
  m_websocket :: bool

text \<open>One round of the loop over the headers: \<open>None\<close> is \<^verbatim>\<open>return false\<close>, with what was stored before.\<close>

definition extract_header :: "phr_header \<Rightarrow> header_meta \<Rightarrow> header_meta option" where
  "extract_header h m =
     (case hname h of
        None \<Rightarrow> None
      | Some name \<Rightarrow>
          if length name = 0 \<or> length (hvalue h) = 0 then None
          else if toLower name = kHeaderFieldAcceptEncoding then
            Some (m\<lparr>m_compression := GetCompressionType (hvalue h)\<rparr>)
          else if toLower name = kHeaderFieldCookie then
            Some (m\<lparr>m_token := extractAzugateAccessTokenFromCookie (hvalue h)\<rparr>)
          else if toLower name = kHeaderFieldContentLength then
            (case from_chars (hvalue h) of
               Inl _ \<Rightarrow> None
             | Inr n \<Rightarrow> Some (m\<lparr>m_content_length := n\<rparr>))
          else if toLower name = kHeaderFieldConnection then
            Some (m\<lparr>m_websocket := (toLower (hvalue h) = toLower kConnectionUpgrade)\<rparr>)
          else Some m)"

fun extract_headers :: "phr_header list \<Rightarrow> header_meta \<Rightarrow> bool \<times> header_meta" where
  "extract_headers [] m = (True, m)"
| "extract_headers (h # hs) m =
     (case extract_header h m of None \<Rightarrow> (False, m) | Some m' \<Rightarrow> extract_headers hs m')"

definition extractMetaFromHeaders :: "config \<Rightarrow> phr_request \<Rightarrow> header_meta \<Rightarrow> bool \<times> header_meta" where
  "extractMetaFromHeaders cfg q m =
     (if length (req_headers q) = 0 then (False, m)
      else if length (req_headers q) > kMaxHeadersNum then (False, m)
      else case extract_headers (req_headers q) m of
             (False, m') \<Rightarrow> (False, m')
           | (True, m') \<Rightarrow>
               (True, if \<not> GetHttpCompression cfg
                      then m'\<lparr>m_compression := no_compression\<rparr> else m'))"

text \<open>
  \<^verbatim>\<open>VerifyToken\<close>, which \<^verbatim>\<open>authentication\<close> does not call: the library decodes the token, or throws, and checks
  it against an algorithm with its secret and the issuer.
\<close>

definition kDftTokenIssuer :: string where "kDftTokenIssuer = ''azugate''"

record 'j jwt =
  jwt_decode :: "string \<Rightarrow> 'j option"
  jwt_verify_hs256 :: "string \<Rightarrow> string \<Rightarrow> 'j \<Rightarrow> bool"

definition VerifyToken :: "'j jwt \<Rightarrow> string \<Rightarrow> string \<Rightarrow> bool" where
  "VerifyToken lib tok secret =
     (case jwt_decode lib tok of
        None \<Rightarrow> False
      | Some decoded_token \<Rightarrow> jwt_verify_hs256 lib secret kDftTokenIssuer decoded_token)"

text \<open>\<^verbatim>\<open>authentication\<close>: both branches return true.\<close>

definition authentication :: "config \<Rightarrow> phr_request \<Rightarrow> string \<Rightarrow> bool" where
  "authentication cfg q tok = (if length (g_jwt_public_key_pem cfg) \<noteq> 0 then True else True)"

definition handler_meta :: "HttpProxyHandler \<Rightarrow> header_meta" where
  "handler_meta h = \<lparr>m_compression = compression_type h, m_token = token h,
     m_content_length = request_content_length h, m_websocket = isWebSocket h\<rparr>"

definition store_meta :: "header_meta \<Rightarrow> HttpProxyHandler \<Rightarrow> HttpProxyHandler" where
  "store_meta m h = h\<lparr>compression_type := m_compression m, token := m_token m,
     request_content_length := m_content_length m, isWebSocket := m_websocket m\<rparr>"

text \<open>\<^verbatim>\<open>extractMetadata\<close>: whether \<^verbatim>\<open>route\<close> is called, with the handler then.\<close>

definition extractMetadata :: "config \<Rightarrow> HttpProxyHandler \<Rightarrow> bool \<times> HttpProxyHandler" where
  "extractMetadata cfg h =
     (let (ok, m) = extractMetaFromHeaders cfg (request h) (handler_meta h); h = store_meta m h
      in if \<not> ok then (False, async_accpet_cb h)
         else if g_http_external_authorization cfg \<and> \<not> isWebSocket h \<and>
                 \<not> authentication cfg (request h) (token h)
         then (False, async_accpet_cb h)
         else (True, h))"

section \<open>Reading refines feeding the parser\<close>

definition handler_ok :: "HttpProxyHandler \<Rightarrow> bool" where
  "handler_ok h \<longleftrightarrow> length (header_buf h) = kMaxHttpHeaderSize \<and> total_parsed h \<le> kMaxHttpHeaderSize"

abbreviation received :: "HttpProxyHandler \<Rightarrow> string" where
  "received h \<equiv> take (total_parsed h) (header_buf h)"

text \<open>The handler after the bytes of a read are in.\<close>

abbreviation arrived :: "string \<Rightarrow> HttpProxyHandler \<Rightarrow> HttpProxyHandler" where
  "arrived bytes h \<equiv> deliver bytes h\<lparr>total_parsed := total_parsed h + length bytes\<rparr>"

lemma deliver_simps [simp]:
  "total_parsed (deliver bytes h) = total_parsed h" "accepts (deliver bytes h) = accepts h"
  "request_content_length (deliver bytes h) = request_content_length h"
  by (simp_all add: deliver_def)

lemma arrived_ok:
  assumes "handler_ok h" "total_parsed h + length bytes \<le> kMaxHttpHeaderSize"
  shows "handler_ok (arrived bytes h)"
    "take (total_parsed h + length bytes) (header_buf (deliver bytes h)) = received h @ bytes"
  using assms by (auto simp: handler_ok_def deliver_def)

abbreviation parser :: "bool \<Rightarrow> string \<Rightarrow> phr_request pres" where
  "parser sse \<equiv> phr_parse_request sse kMaxHeadersNum 0"

lemma parse_consumes: "parser sse buf = POk q rest \<Longrightarrow> length rest < length buf"
  using request_consumes [of sse kMaxHeadersNum buf q rest] by (simp add: phr_parse_request_def)

lemma parsed_valid: "parser sse buf = POk q rest \<Longrightarrow> valid_request q"
  using parse_request_ok [of sse kMaxHeadersNum buf q rest]
  by (simp add: valid_request_def request_ok_def phr_parse_request_def)

lemma onRead_parse:
  assumes "handler_ok h" "total_parsed h + length bytes \<le> kMaxHttpHeaderSize"
    and "parser sse (received h @ bytes) = r"
  shows "onRead sse (ReadBytes bytes) h =
    (case r of
       POk q rest \<Rightarrow> Val ((arrived bytes h)\<lparr>request := q, extra_body_len := length rest,
         total_parsed := total_parsed h + length bytes - length rest\<rparr>, Extract)
     | PPartial \<Rightarrow> Val (parseRequest (arrived bytes h))
     | PErr \<Rightarrow> Val (async_accpet_cb (arrived bytes h), Stop)
     | PFault \<Rightarrow> UB)"
proof -
  let ?buf = "received h @ bytes"
  have len: "length ?buf = total_parsed h + length bytes" using assms(1) by (simp add: handler_ok_def)
  have "onRead sse (ReadBytes bytes) h =
      bind_outcome (phr_ret ?buf r) (\<lambda>pret.
        if pret > 0 \<and> (case r of POk q _ \<Rightarrow> valid_request q | _ \<Rightarrow> False) then
          Val ((arrived bytes h)\<lparr>request := (case r of POk q _ \<Rightarrow> q | _ \<Rightarrow> request (arrived bytes h)),
                 extra_body_len := total_parsed h + length bytes - nat pret, total_parsed := nat pret\<rparr>, Extract)
        else if pret = - 2 then Val (parseRequest (arrived bytes h))
        else Val (async_accpet_cb (arrived bytes h), Stop))"
    using assms(3) by (simp add: onRead_def Let_def arrived_ok(2) [OF assms(1,2)] cong: if_cong pres.case_cong)
  also have "\<dots> = (case r of
       POk q rest \<Rightarrow> Val ((arrived bytes h)\<lparr>request := q, extra_body_len := length rest,
         total_parsed := total_parsed h + length bytes - length rest\<rparr>, Extract)
     | PPartial \<Rightarrow> Val (parseRequest (arrived bytes h))
     | PErr \<Rightarrow> Val (async_accpet_cb (arrived bytes h), Stop)
     | PFault \<Rightarrow> UB)"
  proof (cases r)
    case (POk q rest)
    then have "length rest < length ?buf" "valid_request q"
      using assms(3) parse_consumes parsed_valid by blast+
    with POk len show ?thesis by (simp add: phr_ret_def nat_diff_distrib)
  qed (simp_all add: phr_ret_def)
  finally show ?thesis .
qed

lemma read_loop_partial:
  assumes "handler_ok h" "total_parsed h + length (concat (ch # chs)) \<le> kMaxHttpHeaderSize"
    and partial: "parser sse (received h @ ch) = PPartial"
    and feed: "feed (parser sse) (received h @ ch) chs = (r, unread)" "r \<noteq> PPartial"
  shows "read_loop sse (map ReadBytes (ch # chs)) h = read_loop sse (map ReadBytes chs) (arrived ch h)"
proof (cases "total_parsed h + length ch < kMaxHttpHeaderSize")
  case True
  then have "parseRequest (arrived ch h) = (arrived ch h, Wait (kMaxHttpHeaderSize - total_parsed (arrived ch h)))"
    by (simp add: parseRequest_def)
  with onRead_parse [OF assms(1) _ partial] True show ?thesis by simp
next
  case False
  then have "length (concat chs) = 0" using assms(2) unfolding concat.simps length_append by linarith
  then have "parser sse ((received h @ ch) @ concat chs) = PPartial"
    using partial by (simp only: length_0_conv append_Nil2)
  from req.feed_partial [OF this] feed show ?thesis by simp
qed

lemma read_loop_feed_ok:
  assumes "feed (parser sse) (received h) chunks = (POk q left, unread)"
    and "handler_ok h" "total_parsed h + length (concat chunks) \<le> kMaxHttpHeaderSize"
  shows "\<exists>h'. read_loop sse (map ReadBytes chunks) h = Val (h', Extract, map ReadBytes unread) \<and>
    request h' = q \<and> extra_body_len h' = length left \<and> accepts h' = accepts h \<and>
    handler_ok h' \<and> take (length left) (drop (total_parsed h') (header_buf h')) = left \<and>
    total_parsed h' + length left \<le> kMaxHttpHeaderSize \<and> request_content_length h' = request_content_length h"
  using assms
proof (induction chunks arbitrary: h)
  case (Cons ch chs)
  have fits: "total_parsed h + length ch \<le> kMaxHttpHeaderSize" using Cons.prems(3) by simp
  note read = onRead_parse [OF Cons.prems(2) fits]
  note arr = arrived_ok [OF Cons.prems(2) fits]
  show ?case
  proof (cases "parser sse (received h @ ch)")
    case (POk q' r)
    then have q: "q' = q" "r = left" "unread = chs" using Cons.prems(1) by auto
    obtain pre where pre: "received h @ ch = pre @ left"
      using req.ok_suffix [OF POk] q by (auto simp: suffix_def)
    have len: "length (received h @ ch) = total_parsed h + length ch"
      using Cons.prems(2) by (simp add: handler_ok_def)
    then have n: "total_parsed h + length ch - length left = length pre" "total_parsed h + length ch = length pre + length left"
      using pre by simp_all
    have "take (length left) (drop (length pre) (header_buf (deliver ch h))) =
        drop (length pre) (take (length pre + length left) (header_buf (deliver ch h)))"
      by (simp add: drop_take)
    also have "\<dots> = left" using arr(2) pre n(2) by simp
    finally show ?thesis
      using read [OF POk] q n arr(1) fits by (simp add: handler_ok_def)
  next
    case PPartial
    with read_loop_partial [OF Cons.prems(2,3) PPartial] Cons.IH [of "arrived ch h"] Cons.prems(1,3) arr
    show ?thesis by simp
  qed (use Cons.prems(1) req.no_fault in auto)
qed simp

lemma read_loop_feed_err:
  assumes "feed (parser sse) (received h) chunks = (PErr, unread)"
    and "handler_ok h" "total_parsed h + length (concat chunks) \<le> kMaxHttpHeaderSize"
  shows "\<exists>h'. read_loop sse (map ReadBytes chunks) h = Val (h', Stop, map ReadBytes unread) \<and>
    accepts h' = accepts h + 1"
  using assms
proof (induction chunks arbitrary: h)
  case (Cons ch chs)
  have fits: "total_parsed h + length ch \<le> kMaxHttpHeaderSize" using Cons.prems(3) by simp
  note read = onRead_parse [OF Cons.prems(2) fits]
  note arr = arrived_ok [OF Cons.prems(2) fits]
  show ?case
  proof (cases "parser sse (received h @ ch)")
    case PErr
    with read [OF PErr] Cons.prems(1) show ?thesis by (simp add: async_accpet_cb_def)
  next
    case PPartial
    with read_loop_partial [OF Cons.prems(2,3) PPartial] Cons.IH [of "arrived ch h"] Cons.prems(1,3) arr
    show ?thesis by simp
  qed (use Cons.prems(1) req.no_fault in auto)
qed simp

lemma parse_empty: "parser sse [] = PPartial"
  by (simp add: phr_parse_request_def parse_request_def skip_first_eol_def)

lemma new_handler_ok:
  "length (header_buf undef) = kMaxHttpHeaderSize \<Longrightarrow>
   handler_ok (new_handler undef source) \<and> received (new_handler undef source) = [] \<and>
   total_parsed (new_handler undef source) = 0 \<and> accepts (new_handler undef source) = 0"
  by (simp add: new_handler_def handler_ok_def)

lemma feed_unread: "feed parse acc chunks = (r, unread) \<Longrightarrow> set unread \<subseteq> set chunks"
  by (induction chunks arbitrary: acc) (fastforce split: pres.splits)+

lemma read_pieces:
  assumes "length (header_buf undef) = kMaxHttpHeaderSize"
    and "length (concat chunks) \<le> kMaxHttpHeaderSize"
    and "phr_parse_request sse kMaxHeadersNum 0 (concat chunks) = POk q rest"
  obtains h' left unread where "read_loop sse (map ReadBytes chunks) (new_handler undef source) =
      Val (h', Extract, map ReadBytes unread)"
    and "request h' = q" and "rest = left @ concat unread" and "extra_body_len h' = length left"
    and "take (extra_body_len h') (drop (total_parsed h') (header_buf h')) = left"
    and "total_parsed h' + extra_body_len h' \<le> kMaxHttpHeaderSize" and "accepts h' = 0"
    and "handler_ok h'" and "request_content_length h' = 0" and "set unread \<subseteq> set chunks"
proof -
  note new = new_handler_ok [OF assms(1), of source]
  obtain left unread where f: "feed (parser sse) [] chunks = (POk q left, unread)" and
    rest: "rest = left @ concat unread"
    using req.feed_ok [of sse kMaxHeadersNum "[]" chunks q rest] assms(3) parse_empty by auto
  have "request_content_length (new_handler undef source) = 0" by (simp add: new_handler_def)
  with read_loop_feed_ok [of sse "new_handler undef source" chunks q left unread] new assms(2) f
  obtain h' where "read_loop sse (map ReadBytes chunks) (new_handler undef source) =
      Val (h', Extract, map ReadBytes unread)" "request h' = q" "extra_body_len h' = length left"
    "accepts h' = 0" "take (length left) (drop (total_parsed h') (header_buf h')) = left"
    "total_parsed h' + length left \<le> kMaxHttpHeaderSize" "handler_ok h'" "request_content_length h' = 0" by auto
  with rest feed_unread [OF f] show thesis by (intro that [of h' unread left]) simp_all
qed

section \<open>Theorems\<close>

text \<open>C10: A complete request of at most 8 KiB is read correctly however the network splits it: the
  handler takes the request that the parser gives for the whole input, its extra body is the part of
  the body that had arrived, found in the buffer right behind the header, and no byte is lost
  between it and the reads that are left.\<close>

theorem request_read_in_pieces:
  assumes "length (header_buf undef) = kMaxHttpHeaderSize"
    and "length (concat chunks) \<le> kMaxHttpHeaderSize"
    and "phr_parse_request sse kMaxHeadersNum 0 (concat chunks) = POk q rest"
  shows "\<exists>h' left unread. read_loop sse (map ReadBytes chunks) (new_handler undef source) =
      Val (h', Extract, map ReadBytes unread) \<and>
    request h' = q \<and> rest = left @ concat unread \<and> extra_body_len h' = length left \<and>
    take (extra_body_len h') (drop (total_parsed h') (header_buf h')) = left \<and>
    total_parsed h' + extra_body_len h' \<le> kMaxHttpHeaderSize \<and> accepts h' = 0"
  by (rule read_pieces [OF assms, of source]) blast

text \<open>C21: A malformed request is rejected, with one call of the accept callback, however the network
  splits it, as long as it fits the header buffer.\<close>

theorem malformed_request_rejected:
  assumes "length (header_buf undef) = kMaxHttpHeaderSize"
    and "length (concat chunks) \<le> kMaxHttpHeaderSize"
    and "phr_parse_request sse kMaxHeadersNum 0 (concat chunks) = PErr"
  shows "\<exists>h' unread. read_loop sse (map ReadBytes chunks) (new_handler undef source) =
      Val (h', Stop, unread) \<and> accepts h' = 1"
proof -
  note new = new_handler_ok [OF assms(1), of source]
  obtain unread where "feed (parser sse) [] chunks = (PErr, unread)"
    using req.feed_err [of sse kMaxHeadersNum "[]" chunks] assms(3) parse_empty by auto
  with read_loop_feed_err [of sse "new_handler undef source" chunks unread] new assms(2) show ?thesis
    by auto
qed

section \<open>The metadata of a request\<close>

text \<open>The value of the last header with a name, in any case of letters.\<close>

definition named :: "string \<Rightarrow> phr_header \<Rightarrow> bool" where
  "named n h \<longleftrightarrow> (case hname h of None \<Rightarrow> False | Some name \<Rightarrow> toLower name = n)"

fun last_value :: "string \<Rightarrow> phr_header list \<Rightarrow> string option" where
  "last_value n [] = None"
| "last_value n (h # hs) =
     (case last_value n hs of
        Some v \<Rightarrow> Some v
      | None \<Rightarrow> if named n h then Some (hvalue h) else None)"

text \<open>A header the gateway accepts.\<close>

definition usable_header :: "phr_header \<Rightarrow> bool" where
  "usable_header h \<longleftrightarrow> (case hname h of None \<Rightarrow> False | Some name \<Rightarrow> name \<noteq> []) \<and> hvalue h \<noteq> [] \<and>
     (named kHeaderFieldContentLength h \<longrightarrow> (case from_chars (hvalue h) of Inl _ \<Rightarrow> False | Inr _ \<Rightarrow> True))"

definition updated :: "('v \<Rightarrow> 'a) \<Rightarrow> 'v option \<Rightarrow> 'a \<Rightarrow> 'a" where
  "updated f v a = (case v of None \<Rightarrow> a | Some x \<Rightarrow> f x)"

lemma updated_Cons:
  "updated f (last_value n (h # hs)) a = updated f (last_value n hs) (if named n h then f (hvalue h) else a)"
  by (simp add: updated_def split: option.split)

lemma field_names_distinct:
  "kHeaderFieldAcceptEncoding \<noteq> kHeaderFieldCookie" "kHeaderFieldAcceptEncoding \<noteq> kHeaderFieldContentLength"
  "kHeaderFieldAcceptEncoding \<noteq> kHeaderFieldConnection" "kHeaderFieldCookie \<noteq> kHeaderFieldContentLength"
  "kHeaderFieldCookie \<noteq> kHeaderFieldConnection" "kHeaderFieldContentLength \<noteq> kHeaderFieldConnection"
  by (simp_all add: kHeaderFieldAcceptEncoding_def kHeaderFieldCookie_def kHeaderFieldContentLength_def
      kHeaderFieldConnection_def)

definition is_upgrade :: "string \<Rightarrow> bool" where
  "is_upgrade v \<longleftrightarrow> toLower v = toLower kConnectionUpgrade"

definition content_length_of :: "string \<Rightarrow> size_t" where
  "content_length_of v = (case from_chars v of Inr n \<Rightarrow> n | Inl _ \<Rightarrow> 0)"

definition step_meta :: "phr_header \<Rightarrow> header_meta \<Rightarrow> header_meta" where
  "step_meta h m =
     \<lparr>m_compression = (if named kHeaderFieldAcceptEncoding h then GetCompressionType (hvalue h) else m_compression m),
      m_token = (if named kHeaderFieldCookie h then extractAzugateAccessTokenFromCookie (hvalue h) else m_token m),
      m_content_length = (if named kHeaderFieldContentLength h then content_length_of (hvalue h) else m_content_length m),
      m_websocket = (if named kHeaderFieldConnection h then is_upgrade (hvalue h) else m_websocket m)\<rparr>"

lemma extract_header_step: "extract_header h m = (if usable_header h then Some (step_meta h m) else None)"
proof (cases "hname h")
  case None
  then show ?thesis by (simp add: extract_header_def usable_header_def)
next
  case (Some name)
  note d = field_names_distinct field_names_distinct [symmetric]
  show ?thesis
  proof (cases "name = [] \<or> hvalue h = []")
    case True
    with Some show ?thesis by (auto simp: extract_header_def usable_header_def)
  next
    case False
    consider "toLower name = kHeaderFieldAcceptEncoding" | "toLower name = kHeaderFieldCookie"
      | "toLower name = kHeaderFieldContentLength" | "toLower name = kHeaderFieldConnection"
      | "toLower name \<noteq> kHeaderFieldAcceptEncoding" "toLower name \<noteq> kHeaderFieldCookie"
        "toLower name \<noteq> kHeaderFieldContentLength" "toLower name \<noteq> kHeaderFieldConnection" by blast
    then show ?thesis
      using Some False d
      by cases (simp_all add: extract_header_def usable_header_def named_def step_meta_def content_length_of_def is_upgrade_def
          split: sum.split)
  qed
qed

lemma extract_headers_result:
  "extract_headers hs m = (ok, m') \<Longrightarrow> (ok \<longleftrightarrow> list_all usable_header hs) \<and>
   (ok \<longrightarrow> m' = \<lparr>m_compression = updated GetCompressionType (last_value kHeaderFieldAcceptEncoding hs) (m_compression m),
      m_token = updated extractAzugateAccessTokenFromCookie (last_value kHeaderFieldCookie hs) (m_token m),
      m_content_length = updated content_length_of (last_value kHeaderFieldContentLength hs) (m_content_length m),
      m_websocket = updated is_upgrade (last_value kHeaderFieldConnection hs) (m_websocket m)\<rparr>)"
proof (induction hs arbitrary: m)
  case Nil
  then show ?case by (auto simp: updated_def)
next
  case (Cons h hs)
  show ?case
  proof (cases "usable_header h")
    case True
    with Cons.prems have "extract_headers hs (step_meta h m) = (ok, m')" by (simp add: extract_header_step)
    from Cons.IH [OF this] True show ?thesis
      by (simp add: updated_Cons step_meta_def del: last_value.simps split del: if_split)
  next
    case False
    with Cons.prems show ?thesis by (simp add: extract_header_step)
  qed
qed

text \<open>The metadata of a request is taken if and only if it has between 1 and 256 headers, each with a
  name and a value that is not empty, and every content length starts with a number that fits; then
  the compression type, the access token, the content length and the upgrade flag are those of the last
  header of each kind, or unchanged when there is none, and no compression is used when it is switched
  off.\<close>

theorem metadata_of_request:
  "\<exists>m'. extractMetaFromHeaders cfg q m = (0 < length (req_headers q) \<and>
      length (req_headers q) \<le> kMaxHeadersNum \<and> list_all usable_header (req_headers q), m') \<and>
    (0 < length (req_headers q) \<and> length (req_headers q) \<le> kMaxHeadersNum \<and>
       list_all usable_header (req_headers q) \<longrightarrow>
     m_compression m' = (if GetHttpCompression cfg
       then updated GetCompressionType (last_value kHeaderFieldAcceptEncoding (req_headers q)) (m_compression m)
       else no_compression) \<and>
     m_token m' = updated extractAzugateAccessTokenFromCookie (last_value kHeaderFieldCookie (req_headers q)) (m_token m) \<and>
     m_content_length m' = updated content_length_of (last_value kHeaderFieldContentLength (req_headers q)) (m_content_length m) \<and>
     m_websocket m' = updated is_upgrade (last_value kHeaderFieldConnection (req_headers q)) (m_websocket m))"
proof -
  obtain ok m1 where e: "extract_headers (req_headers q) m = (ok, m1)" by fastforce
  from extract_headers_result [OF e] e show ?thesis
    by (cases ok) (auto simp: extractMetaFromHeaders_def)
qed

section \<open>Witnesses\<close>

definition some_memory :: HttpProxyHandler where
  "some_memory = \<lparr>header_buf = replicate kMaxHttpHeaderSize (CHR 0x00),
     request = \<lparr>req_method = [], req_path = [], req_minor_version = 0, req_headers = []\<rparr>, total_parsed = 7,
     extra_body_len = 9, compression_type = brotli_type, token = [], target_url = [],
     request_content_length = 0, source_connection_info = new_connection False, isWebSocket = True, accepts = 0\<rparr>"

lemma some_memory_size: "length (header_buf some_memory) = kMaxHttpHeaderSize"
  by (simp add: some_memory_def)

theorem request_read_in_pieces_witness:
  "\<exists>h' left unread. read_loop True (map ReadBytes [''POST /a HTTP/1.1'' @ [CR, LF] @ ''Ho'', ''st: b'' @ [CR, LF, CR, LF] @ ''xy'', ''z''])
      (new_handler some_memory (new_connection False)) = Val (h', Extract, map ReadBytes unread) \<and>
    request h' = \<lparr>req_method = ''POST'', req_path = ''/a'', req_minor_version = 1,
      req_headers = [\<lparr>hname = Some ''Host'', hvalue = ''b''\<rparr>]\<rparr> \<and>
    ''xyz'' = left @ concat unread \<and> extra_body_len h' = length left \<and>
    take (extra_body_len h') (drop (total_parsed h') (header_buf h')) = left \<and>
    total_parsed h' + extra_body_len h' \<le> kMaxHttpHeaderSize \<and> accepts h' = 0"
  by (rule request_read_in_pieces [OF some_memory_size]; code_simp)

theorem malformed_request_rejected_witness:
  "\<exists>h' unread. read_loop False (map ReadBytes [''GET /a HT'', ''TQ/1.1'' @ [CR, LF, CR, LF]])
      (new_handler some_memory (new_connection False)) = Val (h', Stop, unread) \<and> accepts h' = 1"
  by (rule malformed_request_rejected [OF some_memory_size]; code_simp)

theorem metadata_of_request_witness:
  "\<exists>m'. extractMetaFromHeaders initial_config \<lparr>req_method = ''POST'', req_path = ''/'', req_minor_version = 1,
       req_headers = [\<lparr>hname = Some ''Content-Length'', hvalue = ''12''\<rparr>, \<lparr>hname = Some ''Connection'', hvalue = ''upgrade''\<rparr>]\<rparr>
     (handler_meta some_memory) = (True, m') \<and> m_content_length m' = 12 \<and> m_websocket m'"
proof -
  let ?q = "\<lparr>req_method = ''POST'', req_path = ''/'', req_minor_version = 1,
    req_headers = [\<lparr>hname = Some ''Content-Length'', hvalue = ''12''\<rparr>, \<lparr>hname = Some ''Connection'', hvalue = ''upgrade''\<rparr>]\<rparr>"
  have "dec 12 = ''12''" by code_simp
  then have number: "from_chars ''12'' = Inr 12" using from_chars_dec [of 12 "[]"] by simp
  have "usable_header \<lparr>hname = Some ''Connection'', hvalue = ''upgrade''\<rparr>" by code_simp
  then have "list_all usable_header (req_headers ?q)" by (simp add: usable_header_def number)
  moreover have "length (req_headers ?q) \<le> kMaxHeadersNum" by code_simp
  moreover have "last_value kHeaderFieldContentLength (req_headers ?q) = Some ''12''" by code_simp
  then have "updated content_length_of (last_value kHeaderFieldContentLength (req_headers ?q))
      (m_content_length (handler_meta some_memory)) = 12" by (simp add: updated_def content_length_of_def number)
  moreover have "last_value kHeaderFieldConnection (req_headers ?q) = Some ''upgrade''" by code_simp
  moreover have "is_upgrade ''upgrade''" by code_simp
  ultimately show ?thesis
    using metadata_of_request [of initial_config ?q "handler_meta some_memory"] by (auto simp: updated_def)
qed

end
