(* ===== verification/Proxy_Serve.thy ===== *)
theory Proxy_Serve
  imports Proxy_Read
begin

text \<open>
  The second half of \<^verbatim>\<open>HttpProxyHandler\<close> in \<^verbatim>\<open>core/include/services.hpp\<close>: what the gateway does with a
  request it has read. It looks up a target, answers 404, serves a local file, or forwards the request
  to the target and the target's response to the client. The libraries the handler calls (Boost.Beast
  for messages, Boost.Asio for the connection to the target, the file system, zlib) are parameters: a
  record per library holds what its calls return.
\<close>

section \<open>What the handler works on\<close>

text \<open>
  The results of \<^verbatim>\<open>read_some\<close> on the client's socket while a body is read. A list of them is all that
  the client does; when it is used up, the next call does not return.
\<close>

datatype body_read = BodyData string | BodyEof | BodyError

text \<open>\<open>open_files\<close> counts the descriptors of files that the process holds.\<close>

record exchange =
  handler :: HttpProxyHandler
  client :: socket
  client_reads :: "body_read list"
  upstream :: socket
  open_files :: nat

text \<open>
  Whether a function of the handler has returned, is still running (it waits for the client or
  compresses without end), or has left a pair of WebSocket relays behind.
\<close>

datatype progress = Returned | Running | Relaying

text \<open>The exchange after a call of \<^verbatim>\<open>async_accpet_cb_\<close>.\<close>

definition accept_next :: "exchange \<Rightarrow> exchange" where
  "accept_next ex = ex\<lparr>handler := async_accpet_cb (handler ex)\<rparr>"

abbreviation give_up :: "exchange \<Rightarrow> (progress \<times> exchange) outcome" where
  "give_up ex \<equiv> Val (Returned, accept_next ex)"

text \<open>Boost.Beast: a request under construction, its fields, and the texts it is serialised to.\<close>

datatype verb = Get | Post | Put | Delete | Head | Options | Patch | Connect | Trace

record 'f beast =
  new_request :: "verb \<Rightarrow> string \<Rightarrow> 'f"
  set_field :: "string \<Rightarrow> string \<Rightarrow> 'f \<Rightarrow> 'f"
  request_text :: "'f \<Rightarrow> string"
  not_found_text :: string

text \<open>
  The network: whether each call succeeds, and what \<^verbatim>\<open>http::read\<close> with a limit on the body gives: its error
  code, if any, and the response that the parser then holds, as it is printed.
\<close>

datatype http_error = End_Of_Stream | Other_Error

record network =
  resolve_ok :: "string \<Rightarrow> string \<Rightarrow> bool"
  connect_ok :: bool
  tls_ok :: bool
  http_read :: "nat \<Rightarrow> http_error option \<times> string"
  ws_accept_ok :: "string \<Rightarrow> bool"
  ws_handshake_ok :: "string \<Rightarrow> string \<Rightarrow> bool"

text \<open>
  The file system, with the answer of \<^verbatim>\<open>sendfile\<close>. \<open>open_file\<close> gives the bytes that can be read through a stream;
  \<open>read_error\<close> says that reading on after them is an error and not the end of the file.
\<close>

record filesystem =
  file_exists :: "string \<Rightarrow> bool"
  is_regular_file :: "string \<Rightarrow> bool"
  file_size :: "string \<Rightarrow> size_t"
  open_file :: "string \<Rightarrow> string option"
  sendfile_answer :: "nat option"
  read_error :: "string \<Rightarrow> bool"

text \<open>
  The two functions of \<^verbatim>\<open>network_wrapper.hpp\<close> that open a connection, which no other function calls:
  whether \<^verbatim>\<open>ResolveAndConnect\<close> returns a stream, and \<^verbatim>\<open>HttpClient::Connect\<close>, which sets the member
  \<^verbatim>\<open>sock_ptr_\<close> on TLS streams only. \<open>new_stream\<close> is the stream that is made.
\<close>

definition ResolveAndConnect :: "network \<Rightarrow> string \<Rightarrow> string \<Rightarrow> 's \<Rightarrow> 's option" where
  "ResolveAndConnect net host service new_stream =
     (if \<not> resolve_ok net host service then None
      else if \<not> connect_ok net then None
      else Some new_stream)"

record 's HttpClient =
  client_sock :: "'s option"

definition new_HttpClient :: "'s HttpClient" where
  "new_HttpClient = \<lparr>client_sock = None\<rparr>"

definition HttpClient_of :: "'s \<Rightarrow> 's HttpClient" where
  "HttpClient_of sock = \<lparr>client_sock = Some sock\<rparr>"

definition HttpClient_Connect ::
  "network \<Rightarrow> bool \<Rightarrow> string \<Rightarrow> string \<Rightarrow> 's \<Rightarrow> 's HttpClient \<Rightarrow> bool \<times> 's HttpClient" where
  "HttpClient_Connect net is_ssl host service new_stream cl =
     (if \<not> resolve_ok net host service then (False, cl)
      else if \<not> connect_ok net then (False, cl)
      else if is_ssl then
        (let cl = cl\<lparr>client_sock := Some new_stream\<rparr>
         in if \<not> tls_ok net then (False, cl) else (True, cl))
      else (True, cl))"

definition GetSocket :: "'s HttpClient \<Rightarrow> 's option" where
  "GetSocket cl = client_sock cl"

text \<open>A successful connection over TLS can be used; one over a plain socket has no socket afterwards.\<close>

lemma connected_socket:
  assumes "HttpClient_Connect net is_ssl host service new_stream new_HttpClient = (True, cl)"
  shows "GetSocket cl = (if is_ssl then Some new_stream else None)"
  using assms by (auto simp: HttpClient_Connect_def GetSocket_def new_HttpClient_def Let_def split: if_splits)

section \<open>Local files\<close>

abbreviation NUL :: char where "NUL \<equiv> CHR 0x00"

definition assembleFullLocalFilePath :: "memory \<Rightarrow> string \<Rightarrow> string \<Rightarrow> string outcome" where
  "assembleFullLocalFilePath mem path_base_folder target =
     (let len_path = length target;
          len_base_folder = length path_base_folder;
          len_full_path = len_base_folder + len_path + 1;
          full_path = new_chars mem len_full_path
      in bind_outcome (memcpy full_path 0 path_base_folder 0 len_base_folder) (\<lambda>full_path.
         bind_outcome (memcpy full_path len_base_folder target 0 len_path) (\<lambda>full_path.
         memcpy full_path (len_base_folder + len_path) [NUL] 0 1)))"

text \<open>The file name that a C string names.\<close>

definition c_string :: "string \<Rightarrow> string" where
  "c_string bytes = takeWhile (\<lambda>c. c \<noteq> NUL) bytes"

text \<open>
  \<^verbatim>\<open>HttpClient::SendHttpHeader\<close> for a message of any class; the virtual function \<^verbatim>\<open>StringifyFirstLine\<close> of the
  message's class is an argument.
\<close>

definition SendHttpHeader ::
  "('a HttpMessage_scheme \<Rightarrow> string) \<Rightarrow> 'a HttpMessage_scheme \<Rightarrow> socket \<Rightarrow> bool \<times> socket" where
  "SendHttpHeader StringifyFirstLine msg sock =
     (case write_some (StringifyFirstLine msg) sock of
        (False, sock) \<Rightarrow> (False, sock)
      | (True, sock) \<Rightarrow> write_some (StringifyHeaders msg) sock)"

text \<open>The response that \<^verbatim>\<open>handleLocalFileRequest\<close> builds.\<close>

definition local_response :: "string \<Rightarrow> CompressionType \<Rightarrow> size_t \<Rightarrow> HttpResponse" where
  "local_response url ct local_file_size =
     (let resp = new_HttpResponse kHttpOk;
          ext = FindFileExtension url;
          resp = SetContentType (GetContentTypeFromSuffix ext) resp;
          resp = SetKeepAlive False resp
      in if ccode ct \<noteq> kCompressionTypeCodeNone
         then SetTransferEncoding kTransferEncodingChunked (SetContentEncoding (cstr ct) resp)
         else SetContentLength local_file_size resp)"

definition handleLocalFileRequest ::
  "'z zlib \<Rightarrow> filesystem \<Rightarrow> memory \<Rightarrow> bool \<Rightarrow> exchange \<Rightarrow> (progress \<times> exchange) outcome" where
  "handleLocalFileRequest z fs mem is_ssl ex =
     bind_outcome (assembleFullLocalFilePath mem [] (target_url (handler ex))) (\<lambda>full_path.
       let path = c_string full_path in
       if \<not> file_exists fs path \<or> \<not> is_regular_file fs path then give_up ex
       else
         let local_file_size = file_size fs path;
             ct = compression_type (handler ex);
             resp = local_response (target_url (handler ex)) ct local_file_size
         in case SendHttpHeader response_first_line resp (client ex) of
              (False, sock) \<Rightarrow> give_up (ex\<lparr>client := sock\<rparr>)
            | (True, sock) \<Rightarrow>
                let h = (handler ex)\<lparr>header_buf := replicate kMaxHttpHeaderSize NUL\<rparr> in
                case compressAndWriteBody mem z is_ssl kMaxHttpHeaderSize
                       (open_file fs path) (read_error fs path) (unat local_file_size) (sendfile_answer fs) ct sock of
                  None \<Rightarrow> Val (Running, ex\<lparr>handler := h, client := sock\<rparr>)
                | Some (_, left_open, sock) \<Rightarrow>
                    give_up (ex\<lparr>handler := h, client := sock, open_files := open_files ex + left_open\<rparr>))"

section \<open>Forwarding a request\<close>

definition stringToVerb :: "string \<Rightarrow> verb option" where
  "stringToVerb methodStr = map_of
     [(''GET'', Get), (''POST'', Post), (''PUT'', Put), (''DELETE'', Delete), (''HEAD'', Head),
      (''OPTIONS'', Options), (''PATCH'', Patch), (''CONNECT'', Connect), (''TRACE'', Trace)] methodStr"

text \<open>Each method that \<^verbatim>\<open>crequest.h\<close> names has its verb.\<close>

lemma methods_have_verbs:
  "map stringToVerb [kHttpGet, kHttpPost, kHttpPut, kHttpDelete, kHttpHead, kHttpOptions, kHttpPatch, kHttpConnect, kHttpTrace] =
   map Some [Get, Post, Put, Delete, Head, Options, Patch, Connect, Trace]"
  by code_simp

text \<open>The headers that are not forwarded.\<close>

definition dropped_header :: "string \<Rightarrow> bool" where
  "dropped_header header_name =
     (let lower_header_name = toLower header_name
      in lower_header_name = kHeaderFieldConnection \<or>
         lower_header_name = kHeaderFieldHost \<or> lower_header_name = kHeaderFieldReferer \<or>
         lower_header_name = kHeaderFieldAcceptEncoding \<or> lower_header_name = kHeaderFieldAccept \<or>
         str_find ''sec-'' lower_header_name \<noteq> None)"

text \<open>The loop over the headers; a null name is the empty string.\<close>

definition header_name :: "phr_header \<Rightarrow> string" where
  "header_name h = (case hname h of None \<Rightarrow> [] | Some n \<Rightarrow> n)"

fun rewrite_headers :: "'f beast \<Rightarrow> phr_header list \<Rightarrow> 'f \<Rightarrow> 'f" where
  "rewrite_headers b [] req = req"
| "rewrite_headers b (h # hs) req =
     rewrite_headers b hs
       (if dropped_header (header_name h) then req else set_field b (header_name h) (hvalue h) req)"

text \<open>The request for the target; \<^verbatim>\<open>field::connection\<close> and \<^verbatim>\<open>field::host\<close> stand for these names.\<close>

definition target_request :: "'f beast \<Rightarrow> verb \<Rightarrow> string \<Rightarrow> phr_header list \<Rightarrow> string \<Rightarrow> 'f" where
  "target_request b http_verb url hs target_host =
     set_field b ''Host'' target_host
       (set_field b ''Connection'' kConnectionClose (rewrite_headers b hs (new_request b http_verb url)))"

text \<open>
  The part of the body that was read with the header goes through a buffer of \<^verbatim>\<open>kDefaultBufSize\<close> bytes.
\<close>

definition send_extra_body :: "HttpProxyHandler \<Rightarrow> socket \<Rightarrow> (bool \<times> socket) outcome" where
  "send_extra_body h up =
     (if extra_body_len h > 0 then
        bind_outcome (memcpy (replicate kDefaultBufSize NUL) 0 (header_buf h) (total_parsed h) (extra_body_len h))
          (\<lambda>src_read_buffer. Val (write_all (take (extra_body_len h) src_read_buffer) up))
      else Val (True, up))"

datatype relay_result = RelayDone | RelayFailed | RelayWaits

fun relay_body :: "size_t \<Rightarrow> size_t \<Rightarrow> body_read list \<Rightarrow> socket \<Rightarrow> relay_result \<times> body_read list \<times> socket" where
  "relay_body n_read left_body_length [] up =
     (if n_read < left_body_length then RelayWaits else RelayDone, [], up)"
| "relay_body n_read left_body_length (r # rs) up =
     (if n_read < left_body_length then
        (case r of
           BodyEof \<Rightarrow> (RelayDone, rs, up)
         | BodyError \<Rightarrow> (RelayFailed, rs, up)
         | BodyData bytes \<Rightarrow>
             (case write_all bytes up of
                (False, up') \<Rightarrow> (RelayFailed, rs, up')
              | (True, up') \<Rightarrow> relay_body (n_read + word_of_nat (length bytes)) left_body_length rs up'))
      else (RelayDone, r # rs, up))"

text \<open>
  The target's response is read, with a body of at most \<^verbatim>\<open>kMaxBodyBufferSize\<close> bytes, and written to the client;
  an error other than the end of the stream ends the request.
\<close>

definition read_response :: "network \<Rightarrow> string option" where
  "read_response net =
     (let (ec, res) = http_read net kMaxBodyBufferSize
      in if ec \<noteq> None \<and> ec \<noteq> Some End_Of_Stream then None else Some res)"

definition return_response :: "network \<Rightarrow> exchange \<Rightarrow> (progress \<times> exchange) outcome" where
  "return_response net ex =
     (case read_response net of
        None \<Rightarrow> give_up ex
      | Some response_str \<Rightarrow> give_up (ex\<lparr>client := snd (write_all response_str (client ex))\<rparr>))"

definition handleHttpRequest ::
  "'f beast \<Rightarrow> network \<Rightarrow> bool \<Rightarrow> string \<Rightarrow> u16 \<Rightarrow> exchange \<Rightarrow> (progress \<times> exchange) outcome" where
  "handleHttpRequest b net is_ssl target_host target_port ex =
     (let h = handler ex in
      if \<not> resolve_ok net target_host (dec (unat target_port)) then give_up ex
      else if \<not> connect_ok net then give_up ex
      else if is_ssl \<and> \<not> tls_ok net then give_up ex
      else case stringToVerb (req_method (request h)) of
        None \<Rightarrow> give_up ex
      | Some http_verb \<Rightarrow>
          (case write_all (request_text b (target_request b http_verb (target_url h) (req_headers (request h)) target_host))
                  (upstream ex) of
             (False, up) \<Rightarrow> give_up (ex\<lparr>upstream := up\<rparr>)
           | (True, up) \<Rightarrow>
               bind_outcome (send_extra_body h up) (\<lambda>(ok, up).
                 if \<not> ok then give_up (ex\<lparr>upstream := up\<rparr>)
                 else case relay_body 0 (request_content_length h - word_of_nat (extra_body_len h))
                             (client_reads ex) up of
                   (RelayWaits, rs, up) \<Rightarrow> Val (Running, ex\<lparr>client_reads := rs, upstream := up\<rparr>)
                 | (RelayFailed, rs, up) \<Rightarrow> give_up (ex\<lparr>client_reads := rs, upstream := up\<rparr>)
                 | (RelayDone, rs, up) \<Rightarrow> return_response net (ex\<lparr>client_reads := rs, upstream := up\<rparr>))))"

section \<open>WebSocket\<close>

definition handleWebSocketRequest ::
  "network \<Rightarrow> bool \<Rightarrow> string \<Rightarrow> u16 \<Rightarrow> exchange \<Rightarrow> (progress \<times> exchange) outcome" where
  "handleWebSocketRequest net is_ssl target_host target_port ex =
     (let h = handler ex in
      if is_ssl then give_up ex
      else if \<not> ws_accept_ok net (take (total_parsed h) (header_buf h)) then give_up ex
      else if \<not> resolve_ok net target_host (dec (unat target_port)) then give_up ex
      else if \<not> connect_ok net then give_up ex
      else if \<not> ws_handshake_ok net target_host (target_url h) then give_up ex
      else Val (Relaying, ex))"

text \<open>
  One direction of a relay: the buffer, the messages written to the other side, the answers of its
  writes, and the calls of \<^verbatim>\<open>async_accpet_cb_\<close>.
\<close>

datatype ws_event = WsError | WsMessage string

record ws_relay =
  data_buffer :: string
  ws_written :: "string list"
  ws_answers :: "bool list"
  ws_accepts :: nat

text \<open>\<^verbatim>\<open>onWebSocketRead\<close>: whether it starts the next read.\<close>

definition onWebSocketRead :: "ws_event \<Rightarrow> ws_relay \<Rightarrow> bool \<times> ws_relay" where
  "onWebSocketRead ev w =
     (case ev of
        WsError \<Rightarrow> (False, w\<lparr>ws_accepts := ws_accepts w + 1\<rparr>)
      | WsMessage bytes \<Rightarrow>
          (let buf = data_buffer w @ bytes in
           case ws_answers w of
             False # rest \<Rightarrow>
               (False, w\<lparr>data_buffer := buf, ws_answers := rest, ws_accepts := ws_accepts w + 1\<rparr>)
           | rest \<Rightarrow>
               (True, w\<lparr>data_buffer := drop (length bytes) buf, ws_written := ws_written w @ [buf],
                        ws_answers := tl rest\<rparr>)))"

fun readWebSocketPayloadFromSource :: "ws_event list \<Rightarrow> ws_relay \<Rightarrow> bool \<times> ws_relay" where
  "readWebSocketPayloadFromSource [] w = (True, w)"
| "readWebSocketPayloadFromSource (ev # evs) w =
     (case onWebSocketRead ev w of
        (False, w') \<Rightarrow> (False, w')
      | (True, w') \<Rightarrow> readWebSocketPayloadFromSource evs w')"

text \<open>
  While the other side takes all messages, the relay writes exactly the messages it reads, in order; and it
  calls the accept callback once, when a read or a write fails.
\<close>

lemma websocket_relay_in_order:
  assumes "data_buffer w = []" "False \<notin> set (ws_answers w)"
  shows "\<exists>w'. readWebSocketPayloadFromSource (map WsMessage ms) w = (True, w') \<and> data_buffer w' = [] \<and>
    ws_written w' = ws_written w @ ms \<and> ws_accepts w' = ws_accepts w"
  using assms
proof (induction ms arbitrary: w)
  case (Cons m ms)
  let ?w = "w\<lparr>data_buffer := [], ws_written := ws_written w @ [m], ws_answers := tl (ws_answers w)\<rparr>"
  have "onWebSocketRead (WsMessage m) w = (True, ?w)"
    using Cons.prems by (cases "ws_answers w") (auto simp: onWebSocketRead_def Let_def)
  moreover have "False \<notin> set (tl (ws_answers w))" using Cons.prems(2) by (cases "ws_answers w") auto
  ultimately show ?case using Cons.IH [of ?w] by simp
qed simp

lemma websocket_stops_once:
  "readWebSocketPayloadFromSource evs w = (False, w') \<Longrightarrow> ws_accepts w' = ws_accepts w + 1"
proof (induction evs arbitrary: w)
  case (Cons ev evs)
  then show ?case
    by (auto simp: onWebSocketRead_def Let_def split: ws_event.splits list.splits bool.splits)
qed simp

section \<open>gRPC-Web\<close>

text \<open>
  \<^verbatim>\<open>handleGrpcWebRequest\<close>, which no function calls. \<open>incoming\<close> is what the client sends before it closes;
  the read takes the bytes of the frame that are missing, or as many as the buffer holds, and fails
  when there are fewer.
\<close>

definition grpc_frame_word :: "char \<Rightarrow> char \<Rightarrow> char \<Rightarrow> char \<Rightarrow> u32" where
  "grpc_frame_word c1 c2 c3 c4 =
     or (or (or (push_bit 24 (word_of_nat (code c1))) (push_bit 16 (word_of_nat (code c2))))
       (push_bit 8 (word_of_nat (code c3)))) (word_of_nat (code c4))"

definition handleGrpcWebRequest ::
  "string \<Rightarrow> string \<Rightarrow> string \<Rightarrow> HttpProxyHandler \<Rightarrow> (string \<times> string \<times> HttpProxyHandler) outcome" where
  "handleGrpcWebRequest incoming buffer response_str h =
     (let kGrpcFrameLength = (5 :: size_t);
          left_frame_bytes = kGrpcFrameLength - word_of_nat (extra_body_len h);
          wanted = min (unat left_frame_bytes) (length buffer);
          n_read = (word_of_nat wanted :: size_t);
          buffer' = (if left_frame_bytes \<noteq> 0 then take wanted incoming @ drop wanted buffer else buffer)
      in if left_frame_bytes \<noteq> 0 \<and> length incoming < wanted then
           Val (take (length incoming) incoming @ drop (length incoming) buffer, response_str, async_accpet_cb h)
         else if left_frame_bytes \<noteq> 0 \<and> n_read + left_frame_bytes < kGrpcFrameLength then
           Val (buffer', response_str, async_accpet_cb h)
         else
           bind_outcome (read_at buffer' 0) (\<lambda>compressed.
           bind_outcome (read_at buffer' 1) (\<lambda>c1. bind_outcome (read_at buffer' 2) (\<lambda>c2.
           bind_outcome (read_at buffer' 3) (\<lambda>c3. bind_outcome (read_at buffer' 4) (\<lambda>c4.
             let msg_len = grpc_frame_word c1 c2 c3 c4 in
             if 5 + unat msg_len > length buffer' then Val (buffer', response_str, async_accpet_cb h)
             else Val (buffer', take (unat msg_len) (drop 5 buffer'), h)))))))"

section \<open>Routing\<close>

text \<open>
  \<^verbatim>\<open>route\<close>. The address, the port and the protocol of the target are overwritten with constants, as in the
  source, before they are looked at.
\<close>

definition route ::
  "'f beast \<Rightarrow> network \<Rightarrow> 'z zlib \<Rightarrow> filesystem \<Rightarrow> memory \<Rightarrow> bool \<Rightarrow> router \<Rightarrow> exchange \<Rightarrow>
   (progress \<times> exchange \<times> router) outcome" where
  "route b net z fs mem is_ssl r ex =
     (let h = handler ex;
          source_url = (if req_path (request h) = ''/'' then [] else req_path (request h));
          ci = (source_connection_info h)\<lparr>http_url := source_url,
                 ctype := (if isWebSocket h then kProtocolTypeWebSocket else kProtocolTypeHttp)\<rparr>;
          h = h\<lparr>source_connection_info := ci\<rparr>
      in bind_outcome (GetRouteTarget source_url r) (\<lambda>(target_conn_info_opt, r').
           case target_conn_info_opt of
             None \<Rightarrow>
               Val (Returned, accept_next (ex\<lparr>handler := h, client := snd (write_all (not_found_text b) (client ex))\<rparr>), r')
           | Some target \<Rightarrow>
               let h = h\<lparr>target_url := (if http_url target = [] then ''/'' else http_url target)\<rparr>;
                   ex = ex\<lparr>handler := h\<rparr>
               in if \<not> is_remote target then
                    bind_outcome (handleLocalFileRequest z fs mem is_ssl ex) (\<lambda>(p, ex).
                      Val (p, if p = Returned then accept_next ex else ex, r'))
                  else
                    let target_address = ''baidu.com''; target_port = 80; target_protocol = kProtocolTypeHttp
                    in if target_address = [] then Val (Returned, accept_next ex, r')
                       else if target_protocol = kProtocolTypeWebSocket then
                         bind_outcome (handleWebSocketRequest net is_ssl target_address target_port ex)
                           (\<lambda>(p, ex). Val (p, ex, r'))
                       else if target_protocol = kProtocolTypeHttp then
                         bind_outcome (handleHttpRequest b net is_ssl target_address target_port ex)
                           (\<lambda>(p, ex). Val (p, ex, r'))
                       else Val (Returned, accept_next ex, r')))"

text \<open>\<^verbatim>\<open>extractMetadata\<close> with the call of \<^verbatim>\<open>route\<close> at its end.\<close>

definition serve_request ::
  "config \<Rightarrow> 'f beast \<Rightarrow> network \<Rightarrow> 'z zlib \<Rightarrow> filesystem \<Rightarrow> memory \<Rightarrow> bool \<Rightarrow> router \<Rightarrow> exchange \<Rightarrow>
   (progress \<times> exchange \<times> router) outcome" where
  "serve_request cfg b net z fs mem is_ssl r ex =
     (case extractMetadata cfg (handler ex) of
        (False, h) \<Rightarrow> Val (Returned, ex\<lparr>handler := h\<rparr>, r)
      | (True, h) \<Rightarrow> route b net z fs mem is_ssl r (ex\<lparr>handler := h\<rparr>))"


section \<open>The response for a local file\<close>

lemma assembleFullLocalFilePath_bytes [simp]: "assembleFullLocalFilePath mem base url = Val (base @ url @ [NUL])"
proof -
  let ?n = "length base + length url + 1"
  have first: "memcpy (new_chars mem ?n) 0 base 0 (length base) = Val (base @ drop (length base) (new_chars mem ?n))"
    using memcpy_behind [of "[]" 0 0 "length base" base "new_chars mem ?n"] by simp
  have second: "memcpy (base @ drop (length base) (new_chars mem ?n)) (length base) url 0 (length url) =
      Val ((base @ url) @ drop (length url) (drop (length base) (new_chars mem ?n)))"
    by (subst memcpy_behind) simp_all
  have third: "memcpy ((base @ url) @ drop (length url) (drop (length base) (new_chars mem ?n)))
      (length base + length url) [NUL] 0 1 = Val ((base @ url) @ [NUL])"
    by (subst memcpy_behind) simp_all
  show ?thesis
    unfolding assembleFullLocalFilePath_def Let_def first bind_outcome.simps second third by simp
qed

lemma c_string_terminated: "NUL \<notin> set url \<Longrightarrow> c_string (url @ [NUL]) = url"
  unfolding c_string_def by (induction url) auto

lemma SendHttpHeader_text:
  "answers sock = [] \<Longrightarrow>
   SendHttpHeader response_first_line r sock = (True, \<lparr>sent = sent sock @ http_header_text r, answers = []\<rparr>)"
  by (cases sock) (simp add: SendHttpHeader_def write_some_def http_header_text_def)

lemma copy_body_all:
  "answers sock = [] \<Longrightarrow> 0 < n \<Longrightarrow> copy_body n bytes sock = (True, sock\<lparr>sent := sent sock @ bytes\<rparr>)"
proof (induction n bytes sock rule: copy_body.induct)
  case (1 n bytes sock)
  let ?sock' = "sock\<lparr>sent := sent sock @ take n bytes\<rparr>"
  show ?case
  proof (cases "bytes = []")
    case False
    have w: "write_all (take n bytes) sock = (True, ?sock')" using 1 by (cases sock) (simp add: write_all_all)
    have "copy_body n (drop n bytes) ?sock' = (True, ?sock'\<lparr>sent := sent ?sock' @ drop n bytes\<rparr>)"
      using 1 False w by simp
    then show ?thesis using False 1 w by (simp add: copy_body.simps [of n bytes])
  qed (simp add: copy_body.simps)
qed

text \<open>The headers that a client reads from the response.\<close>

definition local_response_headers :: "string \<Rightarrow> CompressionType \<Rightarrow> size_t \<Rightarrow> phr_header list" where
  "local_response_headers url ct len =
     [\<lparr>hname = Some ''Content-Type'', hvalue = GetContentTypeFromSuffix (FindFileExtension url)\<rparr>,
      \<lparr>hname = Some ''Connection'', hvalue = ''Close''\<rparr>] @
     (if ccode ct \<noteq> kCompressionTypeCodeNone
      then [\<lparr>hname = Some ''content-encoding'', hvalue = cstr ct\<rparr>,
            \<lparr>hname = Some ''transfer-encoding'', hvalue = ''chunked''\<rparr>]
      else [\<lparr>hname = Some ''Content-Length'', hvalue = dec (unat len)\<rparr>])"

lemma GetContentTypeFromSuffix_cases:
  "GetContentTypeFromSuffix ext = kContentTypeAppOctet \<or> GetContentTypeFromSuffix ext \<in> snd ` set content_type_cases"
proof (cases "map_of content_type_cases (HashConstantString ext)")
  case (Some ct)
  then have "(HashConstantString ext, ct) \<in> set content_type_cases" by (rule map_of_SomeD)
  with Some show ?thesis by (force simp: GetContentTypeFromSuffix_def)
qed (simp add: GetContentTypeFromSuffix_def)

definition content_type_line_ok :: "string \<Rightarrow> bool" where
  "content_type_line_ok ct = prints_as (''Content-Type:'' @ ct) \<lparr>hname = Some ''Content-Type'', hvalue = ct\<rparr>"

lemma content_type_line:
  "prints_as (''Content-Type:'' @ GetContentTypeFromSuffix ext)
     \<lparr>hname = Some ''Content-Type'', hvalue = GetContentTypeFromSuffix ext\<rparr>"
proof -
  have "list_all content_type_line_ok (kContentTypeAppOctet # map snd content_type_cases)" by code_simp
  then show ?thesis
    using GetContentTypeFromSuffix_cases [of ext] by (auto simp: list_all_iff content_type_line_ok_def)
qed

lemma digit_plain: "is_digit c \<Longrightarrow> \<not> line_ctl c \<and> \<not> blank c"
  by (auto simp: is_digit_def line_ctl_def)

lemma content_length_line:
  "prints_as (''Content-Length:'' @ dec n) \<lparr>hname = Some ''Content-Length'', hvalue = dec n\<rparr>"
proof -
  have "hd (dec n) \<in> set (dec n)" "last (dec n) \<in> set (dec n)" by simp_all
  then have "is_digit (hd (dec n))" "is_digit (last (dec n))" using dec_digits by blast+
  moreover have "list_all is_token_char ''Content-Length''" by code_simp
  ultimately show ?thesis
    by (simp add: prints_as_def plain_header_def header_ok_def digit_plain list_all_iff)
qed

lemma local_response_prints:
  assumes "ct \<in> {gzip_type, brotli_type, no_compression}"
  shows "list_all2 prints_as (headers_of (local_response url ct len)) (local_response_headers url ct len)"
proof -
  have close: "prints_as (''Connection:'' @ kConnectionClose) \<lparr>hname = Some ''Connection'', hvalue = ''Close''\<rparr>"
    "prints_as (kHeaderFieldTransferEncoding @ '': '' @ kTransferEncodingChunked)
       \<lparr>hname = Some ''transfer-encoding'', hvalue = ''chunked''\<rparr>" by code_simp+
  have encoding: "prints_as (kHeaderFieldContentEncoding @ '': '' @ cstr ct)
      \<lparr>hname = Some ''content-encoding'', hvalue = cstr ct\<rparr>"
    if "ccode ct \<noteq> kCompressionTypeCodeNone"
  proof -
    have "prints_as (kHeaderFieldContentEncoding @ '': '' @ s) \<lparr>hname = Some ''content-encoding'', hvalue = s\<rparr>"
      if "s = ''gzip'' \<or> s = ''brotli''" for s using that by (elim disjE) (simp; code_simp)+
    with assms that show ?thesis
      by (auto simp: gzip_type_def brotli_type_def no_compression_def kCompressionTypeStrGzip_def
          kCompressionTypeStrBrotli_def)
  qed
  show ?thesis
    using content_type_line content_length_line close encoding
    by (simp add: local_response_def Let_def new_HttpResponse_def local_response_headers_def SetKeepAlive_def
        SetContentType_def SetContentLength_def SetContentEncoding_def SetTransferEncoding_def)
qed

text \<open>A regular file with the given contents, under the name that the target URL gives.\<close>

definition serves_file :: "filesystem \<Rightarrow> exchange \<Rightarrow> string \<Rightarrow> bool" where
  "serves_file fs ex content \<longleftrightarrow>
     (let url = target_url (handler ex)
      in NUL \<notin> set url \<and> file_exists fs url \<and> is_regular_file fs url \<and>
         open_file fs url = Some content \<and> length content < 2 ^ 64 \<and>
         file_size fs url = word_of_nat (length content))"

lemma handleLocalFileRequest_step:
  assumes "serves_file fs ex content" "answers (client ex) = []"
    and "compressAndWriteBody mem z is_ssl kMaxHttpHeaderSize
      (Some content) (read_error fs (target_url (handler ex))) (length content) (sendfile_answer fs) (compression_type (handler ex))
      \<lparr>sent = sent (client ex) @ http_header_text (local_response (target_url (handler ex))
         (compression_type (handler ex)) (word_of_nat (length content))), answers = []\<rparr> = Some (ok, left_open, sock)"
  shows "handleLocalFileRequest z fs mem is_ssl ex = Val (Returned, accept_next
    (ex\<lparr>handler := (handler ex)\<lparr>header_buf := replicate kMaxHttpHeaderSize NUL\<rparr>, client := sock,
        open_files := open_files ex + left_open\<rparr>))"
proof -
  have size: "unat (file_size fs (target_url (handler ex))) = length content"
    using assms(1) by (simp add: serves_file_def Let_def unat_of_nat take_bit_nat_eq_self)
  with assms show ?thesis
    by (simp add: handleLocalFileRequest_def Let_def SendHttpHeader_text serves_file_def c_string_terminated)
qed

lemma local_response_parses:
  assumes "ct \<in> {gzip_type, brotli_type, no_compression}"
  shows "phr_parse_response sse kMaxHeadersNum 0 (http_header_text (local_response url ct len) @ body) =
    POk \<lparr>resp_minor_version = 1, resp_status = 200, resp_msg = ''OK'',
         resp_headers = local_response_headers url ct len\<rparr> body"
proof -
  have "GetMessageFromStatusCode kHttpOk = ''OK''" by code_simp
  moreover have "status_code_of (local_response url ct len) = kHttpOk"
    "response_version (local_response url ct len) = kHttpVersion011"
    by (simp_all add: local_response_def Let_def new_HttpResponse_def SetKeepAlive_def SetContentType_def
        SetContentLength_def SetContentEncoding_def SetTransferEncoding_def)
  ultimately show ?thesis
    using parse_response_forward [OF _ _ _ local_response_prints [OF assms], of url len kMaxHeadersNum]
    by (simp add: phr_parse_response_def local_response_headers_def kMaxHeadersNum_def)
qed

lemma handleNoCompression_all:
  assumes "is_ssl \<or> (\<exists>n. sendfile_answer fs = Some n \<and> length content \<le> n)"
  shows "handleNoCompression is_ssl kMaxHttpHeaderSize (Some content) bad (length content) (sendfile_answer fs)
    \<lparr>sent = s, answers = []\<rparr> = (\<not> (is_ssl \<and> bad), if is_ssl then 0 else 1, \<lparr>sent = s @ content, answers = []\<rparr>)"
  using assms by (auto simp: handleNoCompression_def sendfile_body_def copy_body_all kMaxHttpHeaderSize_def)

section \<open>Theorems on local files\<close>

text \<open>A response 200 for the file of the URL, with further headers.\<close>

abbreviation file_response :: "string \<Rightarrow> phr_header list \<Rightarrow> phr_response" where
  "file_response url hs \<equiv>
     \<lparr>resp_minor_version = 1, resp_status = 200, resp_msg = ''OK'',
      resp_headers = [\<lparr>hname = Some ''Content-Type'', hvalue = GetContentTypeFromSuffix (FindFileExtension url)\<rparr>,
        \<lparr>hname = Some ''Connection'', hvalue = ''Close''\<rparr>] @ hs\<rparr>"

text \<open>C3: A local file is served as it is: when no compression was asked for and the client takes all bytes,
  what is written to the client is a response that the parser reads as 200 with the content type of the
  file's extension, \<^verbatim>\<open>Connection: Close\<close> and the length of the file, followed by the bytes of the file;
  \<^verbatim>\<open>handleLocalFileRequest\<close> then calls the accept callback once. On a plain socket each such request leaves
  a descriptor of the file open for ever.\<close>

theorem local_file_served:
  assumes "serves_file fs ex content" "answers (client ex) = []"
    and "compression_type (handler ex) = no_compression"
    and "is_ssl \<or> (\<exists>n. sendfile_answer fs = Some n \<and> length content \<le> n)"
  shows "\<exists>ex' bytes. handleLocalFileRequest z fs mem is_ssl ex = Val (Returned, ex') \<and>
    sent (client ex') = sent (client ex) @ bytes \<and> accepts (handler ex') = accepts (handler ex) + 1 \<and>
    open_files ex' = open_files ex + (if is_ssl then 0 else 1) \<and>
    phr_parse_response sse kMaxHeadersNum 0 bytes =
      POk (file_response (target_url (handler ex))
        [\<lparr>hname = Some ''Content-Length'', hvalue = dec (length content)\<rparr>]) content"
proof -
  let ?head = "http_header_text (local_response (target_url (handler ex))
    (compression_type (handler ex)) (word_of_nat (length content)))"
  let ?ex = "accept_next (ex\<lparr>handler := (handler ex)\<lparr>header_buf := replicate kMaxHttpHeaderSize NUL\<rparr>,
    client := \<lparr>sent = (sent (client ex) @ ?head) @ content, answers = []\<rparr>,
    open_files := open_files ex + (if is_ssl then 0 else 1)\<rparr>)"
  have "compressAndWriteBody mem z is_ssl kMaxHttpHeaderSize
      (Some content) (read_error fs (target_url (handler ex))) (length content) (sendfile_answer fs) (compression_type (handler ex))
      \<lparr>sent = sent (client ex) @ ?head, answers = []\<rparr> =
    Some (\<not> (is_ssl \<and> read_error fs (target_url (handler ex))), if is_ssl then 0 else 1, \<lparr>sent = (sent (client ex) @ ?head) @ content, answers = []\<rparr>)"
    using codes_distinct
    unfolding compressAndWriteBody_def assms(3) handleNoCompression_all [OF assms(4)] by (simp add: no_compression_def)
  from handleLocalFileRequest_step [OF assms(1,2) this]
  have "handleLocalFileRequest z fs mem is_ssl ex = Val (Returned, ?ex)" .
  moreover have "unat (word_of_nat (length content) :: size_t) = length content"
    using assms(1) by (simp add: serves_file_def Let_def unat_of_nat take_bit_nat_eq_self)
  then have "phr_parse_response sse kMaxHeadersNum 0 (?head @ content) =
      POk (file_response (target_url (handler ex))
        [\<lparr>hname = Some ''Content-Length'', hvalue = dec (length content)\<rparr>]) content"
    using assms(3) by (simp add: local_response_parses local_response_headers_def no_compression_def)
  ultimately show ?thesis
    by (intro exI [of _ ?ex] exI [of _ "?head @ content"] conjI) (simp_all add: accept_next_def async_accpet_cb_def)
qed

text \<open>C24: What is sent when a local file is served compressed. When gzip was asked for, the file can be read to
  its end, the client takes all bytes and zlib does what its documentation says, the response is read as
  200 with \<^verbatim>\<open>content-encoding: gzip\<close> and \<^verbatim>\<open>transfer-encoding: chunked\<close>. Its body is exactly one frame for each
  buffer of at most 100 compressed bytes, and then the last chunk, and the buffers together decompress to the
  whole file; no descriptor stays open, and the accept callback is called once. The size line
  at the start of each frame is read from a string that is already destroyed, so it may hold any bytes
  (\<open>written_chunk\<close>): nothing is claimed of how a client decodes the frames.\<close>

theorem local_file_compressed:
  assumes "serves_file fs ex content" "\<not> read_error fs (target_url (handler ex))" "answers (client ex) = []"
    and "compression_type (handler ex) = gzip_type"
    and "deflate_contract z fed produced consumed deflateBound gunzip"
    and "new_GzipCompressor z Z_DEFAULT_COMPRESSION = Some stream"
  shows "\<exists>ex' bytes outs. handleLocalFileRequest z fs mem is_ssl ex = Val (Returned, ex') \<and>
    sent (client ex') = sent (client ex) @ bytes \<and> accepts (handler ex') = accepts (handler ex) + 1 \<and>
    open_files ex' = open_files ex \<and>
    phr_parse_response sse kMaxHeadersNum 0 bytes =
      POk (file_response (target_url (handler ex))
        [\<lparr>hname = Some ''content-encoding'', hvalue = ''gzip''\<rparr>,
             \<lparr>hname = Some ''transfer-encoding'', hvalue = ''chunked''\<rparr>])
        (concat (map (written_chunk mem) outs) @ ''0'' @ [CR, LF, CR, LF]) \<and>
    list_all (\<lambda>out. out \<noteq> [] \<and> length out \<le> 100) outs \<and> gunzip (concat outs) = Some content"
proof -
  let ?head = "http_header_text (local_response (target_url (handler ex))
    (compression_type (handler ex)) (word_of_nat (length content)))"
  let ?sent = "sent (client ex) @ ?head"
  from file_compressed [OF assms(5), of stream content "[]"] contract_new [OF assms(5,6)] obtain outs where
    outs: "GzipStreamCompress z collect stream (file_reads False content) [] = Some (True, outs)" "gunzip (concat outs) = Some content"
    by auto
  note gzip = gzip_body_written [OF contract_zlib_ok [OF assms(5)] assms(6) outs(1), of mem ?sent]
  let ?body = "concat (map (written_chunk mem) outs) @ kChunkedEncodingEndingStr"
  let ?ex = "accept_next (ex\<lparr>handler := (handler ex)\<lparr>header_buf := replicate kMaxHttpHeaderSize NUL\<rparr>,
    client := \<lparr>sent = ?sent @ ?body, answers = []\<rparr>, open_files := open_files ex + 0\<rparr>)"
  have "compressAndWriteBody mem z is_ssl kMaxHttpHeaderSize
      (Some content) (read_error fs (target_url (handler ex))) (length content) (sendfile_answer fs) (compression_type (handler ex))
      \<lparr>sent = ?sent, answers = []\<rparr> = Some (True, 0, \<lparr>sent = ?sent @ ?body, answers = []\<rparr>)"
    using gzip assms(2) unfolding compressAndWriteBody_def assms(4) by (simp add: gzip_type_def)
  from handleLocalFileRequest_step [OF assms(1,3) this]
  have "handleLocalFileRequest z fs mem is_ssl ex = Val (Returned, ?ex)" .
  moreover have "phr_parse_response sse kMaxHeadersNum 0 (?head @ ?body) =
      POk (file_response (target_url (handler ex))
        [\<lparr>hname = Some ''content-encoding'', hvalue = ''gzip''\<rparr>,
             \<lparr>hname = Some ''transfer-encoding'', hvalue = ''chunked''\<rparr>]) ?body"
    using assms(4) codes_distinct(1) local_response_parses [of "compression_type (handler ex)" sse _ _ ?body]
    by (simp add: local_response_headers_def gzip_type_def) (simp add: kCompressionTypeStrGzip_def)
  moreover have "kChunkedEncodingEndingStr = ''0'' @ [CR, LF, CR, LF]" by (simp add: kChunkedEncodingEndingStr_def)
  ultimately show ?thesis
    using gzip outs(2) by (intro exI [of _ ?ex] exI [of _ "?head @ ?body"] exI [of _ outs] conjI)
      (simp_all add: accept_next_def async_accpet_cb_def)
qed


section \<open>Witnesses\<close>

text \<open>A memory in which destroyed strings stay where they were.\<close>

definition quiet_memory :: memory where
  "quiet_memory = \<lparr>fresh = (\<lambda>_. CHR ''?''), stale = (\<lambda>s i. if i < length s then s ! i else CHR ''?'')\<rparr>"

lemma quiet_memory_intact: "intact quiet_memory"
  by (auto simp: intact_def after_destruction_def quiet_memory_def intro: nth_equalityI)

definition open_socket :: socket where "open_socket = \<lparr>sent = [], answers = []\<rparr>"

definition one_file :: filesystem where
  "one_file = \<lparr>file_exists = (\<lambda>p. p = ''/a.html''), is_regular_file = (\<lambda>p. p = ''/a.html''), file_size = (\<lambda>p. 5),
     open_file = (\<lambda>p. if p = ''/a.html'' then Some ''hello'' else None), sendfile_answer = Some 5,
     read_error = (\<lambda>p. False)\<rparr>"

text \<open>A memory in which destroyed strings are overwritten.\<close>

definition reused_memory :: memory where
  "reused_memory = \<lparr>fresh = (\<lambda>_. CHR ''?''), stale = (\<lambda>s i. CHR ''#'')\<rparr>"

definition file_exchange :: "CompressionType \<Rightarrow> exchange" where
  "file_exchange ct = \<lparr>handler = some_memory\<lparr>target_url := ''/a.html'', compression_type := ct\<rparr>,
     client = open_socket, client_reads = [], upstream = open_socket, open_files = 0\<rparr>"

lemma file_exchange_facts:
  "serves_file one_file (file_exchange ct) ''hello''" "answers (client (file_exchange ct)) = []"
  "compression_type (handler (file_exchange ct)) = ct" "sendfile_answer one_file = Some 5"
  "accepts (handler (file_exchange ct)) = 0" "open_files (file_exchange ct) = 0" "sent (client (file_exchange ct)) = []"
  "target_url (handler (file_exchange ct)) = ''/a.html''"
  by (simp_all add: serves_file_def one_file_def file_exchange_def open_socket_def some_memory_def)

lemma html_type: "GetContentTypeFromSuffix (FindFileExtension ''/a.html'') = ''text/html''"
  by code_simp

lemma dec_5: "dec (Suc (Suc (Suc (Suc (Suc 0))))) = ''5''"
  by code_simp

theorem local_file_served_witness:
  "\<exists>ex' bytes. handleLocalFileRequest storing_zlib one_file quiet_memory False
      (file_exchange (no_compression)) = Val (Returned, ex') \<and>
    sent (client ex') = bytes \<and> accepts (handler ex') = 1 \<and> open_files ex' = 1 \<and>
    phr_parse_response True kMaxHeadersNum 0 bytes =
      POk \<lparr>resp_minor_version = 1, resp_status = 200, resp_msg = ''OK'',
        resp_headers = [\<lparr>hname = Some ''Content-Type'', hvalue = ''text/html''\<rparr>,
          \<lparr>hname = Some ''Connection'', hvalue = ''Close''\<rparr>, \<lparr>hname = Some ''Content-Length'', hvalue = ''5''\<rparr>]\<rparr> ''hello''"
  using local_file_served [OF file_exchange_facts(1,2) file_exchange_facts(3), of False storing_zlib quiet_memory True]
  by (simp add: file_exchange_facts html_type dec_5)

theorem local_file_compressed_witness:
  "\<exists>ex' bytes outs. handleLocalFileRequest tracking_zlib one_file reused_memory False
      (file_exchange (gzip_type)) = Val (Returned, ex') \<and>
    sent (client ex') = bytes \<and> accepts (handler ex') = 1 \<and> open_files ex' = 0 \<and>
    phr_parse_response False kMaxHeadersNum 0 bytes =
      POk \<lparr>resp_minor_version = 1, resp_status = 200, resp_msg = ''OK'',
        resp_headers = [\<lparr>hname = Some ''Content-Type'', hvalue = ''text/html''\<rparr>,
          \<lparr>hname = Some ''Connection'', hvalue = ''Close''\<rparr>, \<lparr>hname = Some ''content-encoding'', hvalue = ''gzip''\<rparr>,
          \<lparr>hname = Some ''transfer-encoding'', hvalue = ''chunked''\<rparr>]\<rparr>
        (concat (map (written_chunk reused_memory) outs) @ ''0'' @ [CR, LF, CR, LF]) \<and>
    concat outs = ''hello''"
proof -
  have "\<not> read_error one_file (target_url (handler (file_exchange gzip_type)))" by (simp add: one_file_def)
  from local_file_compressed [OF file_exchange_facts(1) this file_exchange_facts(2,3) tracking_zlib_contract
      tracking_zlib_new, of reused_memory False False]
  show ?thesis by (fastforce simp: file_exchange_facts html_type)
qed

end
