(* ===== verification/Proxy_Forward.thy ===== *)
theory Proxy_Forward
  imports Proxy_Serve
begin

text \<open>
  What the gateway does with a request for a remote target, over the definitions of \<open>Proxy_Serve\<close>: the bytes
  the target receives, the headers it sees, when the handler waits, where a large body makes the code
  undefined, and how often each way through \<^verbatim>\<open>route\<close> calls the accept callback.
\<close>

section \<open>The body loop\<close>

lemma relay_body_done: "\<not> n < left \<Longrightarrow> relay_body n left reads up = (RelayDone, reads, up)"
  by (cases reads) simp_all

lemma relay_body_data:
  assumes "answers up = []" and "n < left"
  shows "relay_body n left (BodyData bytes # rs) up =
    relay_body (n + word_of_nat (length bytes)) left rs \<lparr>sent = sent up @ bytes, answers = []\<rparr>"
  using assms by (simp add: write_all_all)

lemma word_less_nat: "n < 2 ^ 64 \<Longrightarrow> m < 2 ^ 64 \<Longrightarrow> (word_of_nat n < (word_of_nat m :: size_t)) = (n < m)"
  by (simp add: word_less_nat_alt unat_of_nat take_bit_nat_eq_self)

lemma relay_body_exact:
  assumes "n + length (concat chunks) = left" "left < 2 ^ 64" "[] \<notin> set chunks" "answers up = []"
  shows "relay_body (word_of_nat n) (word_of_nat left) (map BodyData chunks @ rest) up =
    (RelayDone, rest, \<lparr>sent = sent up @ concat chunks, answers = []\<rparr>)"
  using assms
proof (induction chunks arbitrary: n up)
  case Nil
  then show ?case by (cases up) (simp add: relay_body_done)
next
  case (Cons c cs)
  then have "0 < length c" by auto
  then have "n < left" using Cons.prems(1) unfolding concat.simps length_append by linarith
  then have "(word_of_nat n :: size_t) < word_of_nat left" using Cons.prems(2) by (simp add: word_less_nat)
  then have "relay_body (word_of_nat n) (word_of_nat left) (map BodyData (c # cs) @ rest) up =
      relay_body (word_of_nat (n + length c)) (word_of_nat left) (map BodyData cs @ rest)
        \<lparr>sent = sent up @ c, answers = []\<rparr>"
    using Cons.prems(4) by (simp add: relay_body_data del: relay_body.simps)
  with Cons.IH [of "n + length c" "\<lparr>sent = sent up @ c, answers = []\<rparr>"] Cons.prems show ?case by simp
qed

lemma relay_body_waits:
  assumes "n + length (concat chunks) < left" "left < 2 ^ 64" "answers up = []"
  shows "relay_body (word_of_nat n) (word_of_nat left) (map BodyData chunks) up =
    (RelayWaits, [], \<lparr>sent = sent up @ concat chunks, answers = []\<rparr>)"
  using assms
proof (induction chunks arbitrary: n up)
  case Nil
  then show ?case by (cases up) (simp add: word_less_nat)
next
  case (Cons c cs)
  then have "(word_of_nat n :: size_t) < word_of_nat left" by (simp add: word_less_nat)
  then have "relay_body (word_of_nat n) (word_of_nat left) (map BodyData (c # cs)) up =
      relay_body (word_of_nat (n + length c)) (word_of_nat left) (map BodyData cs)
        \<lparr>sent = sent up @ c, answers = []\<rparr>"
    using Cons.prems(3) by (simp add: relay_body_data del: relay_body.simps)
  with Cons.IH [of "n + length c" "\<lparr>sent = sent up @ c, answers = []\<rparr>"] Cons.prems show ?case by simp
qed

section \<open>One request\<close>

text \<open>The part of the body that was read with the header.\<close>

definition extra_body :: "HttpProxyHandler \<Rightarrow> string" where
  "extra_body h = take (extra_body_len h) (drop (total_parsed h) (header_buf h))"

definition in_buffer :: "HttpProxyHandler \<Rightarrow> bool" where
  "in_buffer h \<longleftrightarrow> total_parsed h + extra_body_len h \<le> length (header_buf h)"

text \<open>The target can be reached and takes all bytes it is given.\<close>

definition reaches_target :: "network \<Rightarrow> bool \<Rightarrow> string \<Rightarrow> u16 \<Rightarrow> exchange \<Rightarrow> bool" where
  "reaches_target net is_ssl host tport ex \<longleftrightarrow>
     resolve_ok net host (dec (unat tport)) \<and> connect_ok net \<and> (is_ssl \<longrightarrow> tls_ok net) \<and>
     stringToVerb (req_method (request (handler ex))) \<noteq> None \<and> answers (upstream ex) = []"

definition request_head :: "'f beast \<Rightarrow> string \<Rightarrow> HttpProxyHandler \<Rightarrow> string" where
  "request_head b host h =
     request_text b (target_request b (the (stringToVerb (req_method (request h)))) (target_url h)
       (req_headers (request h)) host)"

lemma send_extra_body_cases:
  assumes "in_buffer h" "answers up = []"
  shows "send_extra_body h up =
    (if extra_body_len h \<le> kDefaultBufSize then Val (True, \<lparr>sent = sent up @ extra_body h, answers = []\<rparr>) else UB)"
proof (cases "extra_body_len h = 0")
  case True
  with assms(2) show ?thesis by (cases up) (simp add: send_extra_body_def extra_body_def)
next
  case False
  with assms show ?thesis
    by (simp add: send_extra_body_def memcpy_def in_buffer_def write_all_all extra_body_def)
qed

lemma handleHttpRequest_reached:
  assumes "reaches_target net is_ssl host tport ex" "in_buffer (handler ex)"
  shows "handleHttpRequest b net is_ssl host tport ex =
    (if extra_body_len (handler ex) \<le> kDefaultBufSize then
       (case relay_body 0 (request_content_length (handler ex) - word_of_nat (extra_body_len (handler ex)))
               (client_reads ex)
               \<lparr>sent = sent (upstream ex) @ request_head b host (handler ex) @ extra_body (handler ex), answers = []\<rparr> of
          (RelayWaits, rs, up) \<Rightarrow> Val (Running, ex\<lparr>client_reads := rs, upstream := up\<rparr>)
        | (RelayFailed, rs, up) \<Rightarrow> give_up (ex\<lparr>client_reads := rs, upstream := up\<rparr>)
        | (RelayDone, rs, up) \<Rightarrow> return_response net (ex\<lparr>client_reads := rs, upstream := up\<rparr>))
     else UB)"
proof -
  obtain v where v: "stringToVerb (req_method (request (handler ex))) = Some v"
    using assms(1) by (auto simp: reaches_target_def)
  have up: "answers (upstream ex) = []" and tls: "\<not> (is_ssl \<and> \<not> tls_ok net)"
    using assms(1) by (auto simp: reaches_target_def)
  show ?thesis
    using assms(1) v up tls by (cases is_ssl) (simp_all add: handleHttpRequest_def Let_def reaches_target_def write_all_all
        send_extra_body_cases [OF assms(2)] request_head_def)
qed


section \<open>What the target and the client receive\<close>

lemma handleHttpRequest_forwards:
  assumes "reaches_target net is_ssl host tport ex" "in_buffer (handler ex)"
    and "extra_body_len (handler ex) \<le> kDefaultBufSize"
    and "extra_body_len (handler ex) + length (concat chunks) = unat (request_content_length (handler ex))"
    and "[] \<notin> set chunks" "client_reads ex = map BodyData chunks @ later"
    and "read_response net = Some response" "answers (client ex) = []"
  shows "\<exists>ex'. handleHttpRequest b net is_ssl host tport ex = Val (Returned, ex') \<and>
    sent (upstream ex') = sent (upstream ex) @ request_head b host (handler ex) @
      extra_body (handler ex) @ concat chunks \<and>
    sent (client ex') = sent (client ex) @ response \<and> client_reads ex' = later \<and>
    accepts (handler ex') = accepts (handler ex) + 1"
proof -
  let ?h = "handler ex" and ?n = "length (concat chunks)"
  have "request_content_length ?h = word_of_nat (extra_body_len ?h + ?n)"
    unfolding assms(4) by simp
  then have left: "request_content_length ?h - word_of_nat (extra_body_len ?h) = (word_of_nat ?n :: size_t)"
    by simp
  have "?n < 2 ^ 64" using assms(4) unsigned_less [where 'a = nat and w = "request_content_length ?h"] by simp
  from relay_body_exact [OF _ this assms(5), of 0] handleHttpRequest_reached [OF assms(1,2), of b]
    assms(3,6,7) left write_all_all [OF assms(8)]
  show ?thesis by (simp add: return_response_def accept_next_def async_accpet_cb_def)
qed

text \<open>C23: A request whose body is longer than it declares blocks its worker: when more of the body was read with
  the header than the declared length, the count of the bytes that are left wraps around, so whatever
  the client sends afterwards is forwarded to the target, the target's response is not read, and the
  function does not return, up to almost \<open>2^64\<close> bytes.\<close>

theorem short_content_length_blocks:
  assumes "reaches_target net is_ssl host tport ex" "in_buffer (handler ex)"
    and "extra_body_len (handler ex) \<le> kDefaultBufSize"
    and "unat (request_content_length (handler ex)) < extra_body_len (handler ex)"
    and "client_reads ex = map BodyData chunks"
    and "length (concat chunks) < 2 ^ 64 - kDefaultBufSize"
  shows "\<exists>ex'. handleHttpRequest b net is_ssl host tport ex = Val (Running, ex') \<and>
    sent (upstream ex') = sent (upstream ex) @ request_head b host (handler ex) @
      extra_body (handler ex) @ concat chunks \<and>
    client ex' = client ex \<and> accepts (handler ex') = accepts (handler ex)"
proof -
  let ?h = "handler ex" and ?n = "length (concat chunks)"
  let ?over = "extra_body_len ?h - unat (request_content_length ?h)"
  have over: "0 < ?over" "?over \<le> kDefaultBufSize" using assms(3,4) by simp_all
  have "word_of_nat (extra_body_len ?h) = request_content_length ?h + (word_of_nat ?over :: size_t)"
  proof -
    have "extra_body_len ?h = unat (request_content_length ?h) + ?over" using assms(4) by simp
    then have "(word_of_nat (extra_body_len ?h) :: size_t) = word_of_nat (unat (request_content_length ?h) + ?over)"
      by (rule arg_cong)
    then show ?thesis by (simp only: of_nat_add) simp
  qed
  then have "request_content_length ?h - word_of_nat (extra_body_len ?h) = - (word_of_nat ?over :: size_t)" by simp
  also have "\<dots> = word_of_nat (2 ^ 64 - ?over)"
  proof -
    have "(word_of_nat (2 ^ 64 - ?over + ?over) :: size_t) = 0"
      using over(2) by (simp add: kDefaultBufSize_def)
    then show ?thesis by (metis add_eq_0_iff2 minus_equation_iff of_nat_add)
  qed
  finally have left: "request_content_length ?h - word_of_nat (extra_body_len ?h) = (word_of_nat (2 ^ 64 - ?over) :: size_t)" .
  have "0 + ?n < 2 ^ 64 - ?over" "2 ^ 64 - ?over < (2 ^ 64 :: nat)" using assms(6) over by linarith+
  from relay_body_waits [OF this] handleHttpRequest_reached [OF assms(1,2), of b] assms(3,5) left
  show ?thesis by simp
qed

section \<open>The headers that the target sees\<close>

text \<open>
  What the documentation of Boost.Beast says of a message's fields: a new request has none, and setting
  a field removes all fields of that name, in any case of letters, and inserts the new one.
\<close>

definition fields_laws :: "'f beast \<Rightarrow> ('f \<Rightarrow> string \<Rightarrow> string option) \<Rightarrow> bool" where
  "fields_laws b field \<longleftrightarrow>
     (\<forall>v url n. field (new_request b v url) n = None) \<and>
     (\<forall>n v f m. field (set_field b n v f) m = (if toLower m = toLower n then Some v else field f m))"

lemma dropped_header_case: "toLower m = toLower n \<Longrightarrow> dropped_header m = dropped_header n"
  by (simp add: dropped_header_def)

lemma rewrite_headers_field:
  assumes "fields_laws b field" "list_all (\<lambda>h. hname h \<noteq> None) hs"
  shows "field (rewrite_headers b hs f) n =
    (if dropped_header n then field f n else
       case last_value (toLower n) hs of Some v \<Rightarrow> Some v | None \<Rightarrow> field f n)"
  using assms(2)
proof (induction hs arbitrary: f)
  case (Cons h hs)
  then obtain m where m: "hname h = Some m" by auto
  have set: "field (set_field b m v f') n = (if toLower n = toLower m then Some v else field f' n)" for v f'
    using assms(1) by (simp add: fields_laws_def)
  show ?case
    using Cons m set dropped_header_case [of n m]
    by (auto simp: header_name_def named_def split: option.split)
qed simp

text \<open>C22: The headers of the forwarded request: \<^verbatim>\<open>Connection\<close> is always \<^verbatim>\<open>Close\<close> and \<^verbatim>\<open>Host\<close> is the target; the
  client's \<^verbatim>\<open>Referer\<close>, \<^verbatim>\<open>Accept\<close>, \<^verbatim>\<open>Accept-Encoding\<close> and every header with \<^verbatim>\<open>sec-\<close> anywhere in its name
  do not reach the target; every other header has the value of its last occurrence, and no header
  is added. Names are compared without regard to case.\<close>

theorem forwarded_headers:
  assumes "fields_laws b field" "list_all (\<lambda>h. hname h \<noteq> None) hs"
  shows "field (target_request b v url hs host) n =
    (if toLower n = ''host'' then Some host
     else if toLower n = ''connection'' then Some ''Close''
     else if dropped_header n then None
     else last_value (toLower n) hs)"
proof -
  have set: "field (set_field b m x f) n = (if toLower n = toLower m then Some x else field f n)" for m x f
    using assms(1) by (simp add: fields_laws_def)
  have fresh: "field (new_request b v url) n = None" using assms(1) by (simp add: fields_laws_def)
  have lower: "toLower ''Host'' = ''host''" "toLower ''Connection'' = ''connection''" by code_simp+
  show ?thesis
    unfolding target_request_def set lower rewrite_headers_field [OF assms] fresh
    by (simp add: kConnectionClose_def split: option.split)
qed

section \<open>Calls of the accept callback\<close>

text \<open>A function that returns has called the callback once; one that is still running has not.\<close>

definition one_accept :: "exchange \<Rightarrow> (progress \<times> exchange) outcome \<Rightarrow> bool" where
  "one_accept ex out \<longleftrightarrow> (\<forall>p ex'. out = Val (p, ex') \<longrightarrow>
     p \<noteq> Relaying \<and> accepts (handler ex') = accepts (handler ex) + (if p = Returned then 1 else 0))"

lemma one_accept_simps [simp]:
  "one_accept ex UB"
  "one_accept ex (Val (Running, ex')) \<longleftrightarrow> accepts (handler ex') = accepts (handler ex)"
  "one_accept ex (give_up ex') \<longleftrightarrow> accepts (handler ex') = accepts (handler ex)"
  by (auto simp: one_accept_def accept_next_def async_accpet_cb_def)

lemma one_accept_bind: "(\<And>x. m = Val x \<Longrightarrow> one_accept ex (f x)) \<Longrightarrow> one_accept ex (bind_outcome m f)"
  by (cases m) auto

lemma return_response_accepts:
  "accepts (handler ex') = accepts (handler ex) \<Longrightarrow> one_accept ex (return_response net ex')"
  by (simp add: return_response_def split: option.split)

lemma handleHttpRequest_accepts: "one_accept ex (handleHttpRequest b net is_ssl host tport ex)"
  unfolding handleHttpRequest_def Let_def
  by (auto intro!: one_accept_bind return_response_accepts split: option.split bool.split relay_result.split prod.split)

lemma handleLocalFileRequest_accepts: "one_accept ex (handleLocalFileRequest z fs mem is_ssl ex)"
  by (auto simp: handleLocalFileRequest_def Let_def split: option.split bool.split prod.split)

definition request_url :: "HttpProxyHandler \<Rightarrow> string" where
  "request_url h = (if req_path (request h) = ''/'' then [] else req_path (request h))"

lemma route_accepts:
  assumes "route b net z fs mem is_ssl r ex = Val (p, ex', r')"
  shows "p \<noteq> Relaying \<and> accepts (handler ex') = accepts (handler ex) +
    (if p = Running then 0
     else case GetRouteTarget (request_url (handler ex)) r of
            Val (Some t, _) \<Rightarrow> if is_remote t then 1 else 2
          | _ \<Rightarrow> 1)"
proof -
  let ?ci = "(source_connection_info (handler ex))\<lparr>http_url := request_url (handler ex),
    ctype := (if isWebSocket (handler ex) then kProtocolTypeWebSocket else kProtocolTypeHttp)\<rparr>"
  let ?h = "(handler ex)\<lparr>source_connection_info := ?ci\<rparr>"
  have proto: "kProtocolTypeHttp \<noteq> kProtocolTypeWebSocket" by (simp add: cpp_defs)
  obtain t_opt r1 where g: "GetRouteTarget (request_url (handler ex)) r = Val (t_opt, r1)"
    using assms by (auto simp: route_def Let_def request_url_def)
  show ?thesis
  proof (cases t_opt)
    case None
    with assms g show ?thesis
      by (auto simp: route_def Let_def request_url_def accept_next_def async_accpet_cb_def)
  next
    case (Some t)
    let ?ex = "ex\<lparr>handler := ?h\<lparr>target_url := (if http_url t = [] then ''/'' else http_url t)\<rparr>\<rparr>"
    show ?thesis
    proof (cases "is_remote t")
      case True
      with assms g Some have "handleHttpRequest b net is_ssl ''baidu.com'' 80 ?ex = Val (p, ex')"
        by (simp add: route_def Let_def request_url_def proto)
      with handleHttpRequest_accepts [of ?ex b net is_ssl "''baidu.com''" 80] g Some True show ?thesis
        by (cases p) (auto simp: one_accept_def)
    next
      case False
      with assms g Some obtain ex1 where "handleLocalFileRequest z fs mem is_ssl ?ex = Val (p, ex1)"
        and "ex' = (if p = Returned then accept_next ex1 else ex1)"
        by (auto simp: route_def Let_def request_url_def)
      with handleLocalFileRequest_accepts [of ?ex z fs mem is_ssl] g Some False show ?thesis
        by (cases p) (auto simp: one_accept_def accept_next_def async_accpet_cb_def)
    qed
  qed
qed

lemma route_router:
  assumes "route b net z fs mem is_ssl r ex = Val (p, ex', r')"
  shows "\<exists>t. GetRouteTarget (request_url (handler ex)) r = Val (t, r')"
proof -
  obtain t r1 where g: "GetRouteTarget (request_url (handler ex)) r = Val (t, r1)"
    using assms by (auto simp: route_def Let_def request_url_def)
  with assms have "r1 = r'"
  proof (cases t)
    case (Some target)
    with assms g show ?thesis
      by (cases "is_remote target") (auto simp: route_def Let_def request_url_def cpp_defs)
  qed (auto simp: route_def Let_def request_url_def)
  with g show ?thesis by blast
qed

text \<open>Every request that \<^verbatim>\<open>route\<close> finishes has called the accept callback once, or twice when it was answered
  from a local file, because \<^verbatim>\<open>handleLocalFileRequest\<close> has called it already; a request that is still
  running has not called it; and WebSocket relays are never set up, even when the client asked for an
  upgrade.\<close>

theorem route_accept_calls:
  assumes "route b net z fs mem is_ssl r ex = Val (p, ex', r')"
  shows "p \<noteq> Relaying \<and> accepts (handler ex') = accepts (handler ex) +
    (if p = Running then 0
     else case GetRouteTarget (request_url (handler ex)) r of
            Val (Some t, _) \<Rightarrow> if is_remote t then 1 else 2
          | _ \<Rightarrow> 1)"
  using route_accepts [OF assms] .

section \<open>Large bodies\<close>

lemma extractMetadata_ok:
  assumes "0 < length (req_headers (request h))" "length (req_headers (request h)) \<le> kMaxHeadersNum"
    "list_all usable_header (req_headers (request h))"
  shows "\<exists>m. extractMetadata cfg h = (True, store_meta m h) \<and> m_content_length m =
    updated content_length_of (last_value kHeaderFieldContentLength (req_headers (request h))) (request_content_length h)"
proof -
  obtain ok m1 where e: "extract_headers (req_headers (request h)) (handler_meta h) = (ok, m1)" by fastforce
  with extract_headers_result [OF e] assms show ?thesis
    by (auto simp: extractMetadata_def extractMetaFromHeaders_def authentication_def handler_meta_def Let_def)
qed

lemma store_meta_simps [simp]:
  "request (store_meta m h) = request h" "extra_body_len (store_meta m h) = extra_body_len h"
  "total_parsed (store_meta m h) = total_parsed h" "header_buf (store_meta m h) = header_buf h"
  "isWebSocket (store_meta m h) = m_websocket m" "source_connection_info (store_meta m h) = source_connection_info h"
  "request_content_length (store_meta m h) = m_content_length m" "accepts (store_meta m h) = accepts h"
  by (simp_all add: store_meta_def)

text \<open>The exchange with which \<^verbatim>\<open>route\<close> calls \<^verbatim>\<open>handleHttpRequest\<close>.\<close>

definition routed :: "ConnectionInfo \<Rightarrow> exchange \<Rightarrow> exchange" where
  "routed t ex = ex\<lparr>handler := (handler ex)\<lparr>
     source_connection_info := (source_connection_info (handler ex))\<lparr>http_url := request_url (handler ex),
       ctype := (if isWebSocket (handler ex) then kProtocolTypeWebSocket else kProtocolTypeHttp)\<rparr>,
     target_url := (if http_url t = [] then ''/'' else http_url t)\<rparr>\<rparr>"

lemma route_remote:
  assumes "GetRouteTarget (request_url (handler ex)) r = Val (Some t, r')" "is_remote t"
  shows "route b net z fs mem is_ssl r ex =
    bind_outcome (handleHttpRequest b net is_ssl ''baidu.com'' 80 (routed t ex)) (\<lambda>(p, ex). Val (p, ex, r'))"
proof -
  have "kProtocolTypeHttp \<noteq> kProtocolTypeWebSocket" by (simp add: cpp_defs)
  with assms show ?thesis by (simp add: route_def Let_def request_url_def routed_def)
qed

lemma routed_simps [simp]:
  "reaches_target net is_ssl host tport (routed t ex) = reaches_target net is_ssl host tport ex"
  "in_buffer (handler (routed t ex)) = in_buffer (handler ex)"
  "extra_body (handler (routed t ex)) = extra_body (handler ex)"
  "extra_body_len (handler (routed t ex)) = extra_body_len (handler ex)"
  "request_content_length (handler (routed t ex)) = request_content_length (handler ex)"
  "accepts (handler (routed t ex)) = accepts (handler ex)" "request (handler (routed t ex)) = request (handler ex)"
  "client (routed t ex) = client ex" "client_reads (routed t ex) = client_reads ex" "upstream (routed t ex) = upstream ex"
  "target_url (handler (routed t ex)) = (if http_url t = [] then ''/'' else http_url t)"
  by (simp_all add: routed_def reaches_target_def in_buffer_def extra_body_def)

lemma route_remote_overflow:
  assumes "GetRouteTarget (request_url (handler ex)) r = Val (Some t, r')" "is_remote t"
    and "reaches_target net is_ssl ''baidu.com'' 80 ex" "in_buffer (handler ex)"
    and "kDefaultBufSize < extra_body_len (handler ex)"
  shows "route b net z fs mem is_ssl r ex = UB"
  using assms handleHttpRequest_reached [of net is_ssl "''baidu.com''" 80 "routed t ex" b]
  by (simp add: route_remote [OF assms(1,2)])

text \<open>A handler that has read a whole header forwards its request and returns.\<close>

lemma serve_request_forwards:
  assumes "request h = q" "extra_body_len h = length left"
    and "take (extra_body_len h) (drop (total_parsed h) (header_buf h)) = left"
    and "total_parsed h + extra_body_len h \<le> kMaxHttpHeaderSize" "handler_ok h" "request_content_length h = 0" "accepts h = 0"
    and "req_headers q \<noteq> []" "length (req_headers q) \<le> kMaxHeadersNum" "list_all usable_header (req_headers q)"
    and "unat (updated content_length_of (last_value kHeaderFieldContentLength (req_headers q)) 0) =
      length (left @ concat chunks)"
    and "length left \<le> kDefaultBufSize" "[] \<notin> set chunks"
    and "GetRouteTarget (if req_path q = ''/'' then [] else req_path q) r = Val (Some t, r')" "is_remote t"
    and "stringToVerb (req_method q) = Some v" "resolve_ok net ''baidu.com'' (dec 80)" "connect_ok net" "tls_ok net"
    and "read_response net = Some response"
  shows "\<exists>ex'. serve_request cfg b net z fs mem is_ssl r
      \<lparr>handler = h, client = open_socket, client_reads = map BodyData chunks @ later, upstream = open_socket,
       open_files = fds\<rparr> = Val (Returned, ex', r') \<and>
    sent (upstream ex') = request_text b (target_request b v (if http_url t = [] then ''/'' else http_url t)
      (req_headers q) ''baidu.com'') @ left @ concat chunks \<and>
    sent (client ex') = response \<and> client_reads ex' = later \<and> accepts (handler ex') = 1"
proof -
  obtain m where m: "extractMetadata cfg h = (True, store_meta m h)" and
    len: "m_content_length m = updated content_length_of (last_value kHeaderFieldContentLength (req_headers q)) 0"
    using extractMetadata_ok [of h cfg] assms(1,6,8-10) by auto
  let ?ex = "\<lparr>handler = store_meta m h, client = open_socket, client_reads = map BodyData chunks @ later,
    upstream = open_socket, open_files = fds\<rparr>"
  have route: "GetRouteTarget (request_url (handler ?ex)) r = Val (Some t, r')"
    using assms(1,14) by (cases "req_path q = ''/''") (simp_all add: request_url_def)
  have extra: "extra_body (store_meta m h) = left" using assms(3) by (simp add: extra_body_def)
  have "reaches_target net is_ssl ''baidu.com'' 80 (routed t ?ex)"
    using assms(1,16-19) unfolding routed_simps by (simp add: reaches_target_def open_socket_def)
  moreover have "in_buffer (handler (routed t ?ex))"
    using assms(4,5) unfolding routed_simps by (simp add: in_buffer_def handler_ok_def)
  ultimately obtain ex' where run: "handleHttpRequest b net is_ssl ''baidu.com'' 80 (routed t ?ex) = Val (Returned, ex')"
    and ex': "sent (upstream ex') = request_head b ''baidu.com'' (handler (routed t ?ex)) @ left @ concat chunks"
      "sent (client ex') = response" "client_reads ex' = later" "accepts (handler ex') = 1"
    using handleHttpRequest_forwards [of net is_ssl "''baidu.com''" 80 "routed t ?ex" chunks later response b]
      assms(2,7,11-13,20) len extra by (auto simp: open_socket_def)
  have "route b net z fs mem is_ssl r ?ex = Val (Returned, ex', r')"
    unfolding route_remote [OF route assms(15)] run by simp
  with m ex' assms(1,16) show ?thesis by (intro exI [of _ ex']) (simp add: serve_request_def request_head_def)
qed

text \<open>C9: A client can make the gateway write outside a buffer with one packet: a well-formed request for a
  remote route, of at most 8 KiB in all, whose body has more than 4 KiB that arrive together with the
  header, is read, accepted and routed, and then the copy of the body into a buffer of 4 KiB is undefined
  behaviour, whatever the request's declared length.\<close>

theorem large_first_packet_undefined:
  assumes "length (header_buf undef) = kMaxHttpHeaderSize"
    and "request_ok kMaxHeadersNum q" "list_all plain_header (req_headers q)"
    and "req_headers q \<noteq> []" "list_all usable_header (req_headers q)"
    and "length (render_request q @ body) \<le> kMaxHttpHeaderSize" "kDefaultBufSize < length body"
    and "GetRouteTarget (if req_path q = ''/'' then [] else req_path q) r = Val (Some t, r')" "is_remote t"
    and "stringToVerb (req_method q) \<noteq> None" "resolve_ok net ''baidu.com'' (dec 80)" "connect_ok net" "tls_ok net"
    and "answers up = []"
  shows "\<exists>h. read_loop sse [ReadBytes (render_request q @ body)] (new_handler undef source) = Val (h, Extract, []) \<and>
    serve_request cfg b net z fs mem is_ssl r
      \<lparr>handler = h, client = c, client_reads = reads, upstream = up, open_files = fds\<rparr> = UB"
proof -
  note new = new_handler_ok [OF assms(1), of source]
  have "feed (parser sse) (received (new_handler undef source)) [render_request q @ body] = (POk q body, [])"
    using new parse_request_forward [OF assms(2,3)] by (simp add: phr_parse_request_def)
  from read_loop_feed_ok [OF this] new assms(6)
  obtain h where h: "read_loop sse [ReadBytes (render_request q @ body)] (new_handler undef source) = Val (h, Extract, [])"
    "request h = q" "extra_body_len h = length body" "handler_ok h" "total_parsed h + length body \<le> kMaxHttpHeaderSize"
    by auto
  have len: "length (req_headers q) \<le> kMaxHeadersNum" using assms(2) by (simp add: request_ok_def)
  obtain m where m: "extractMetadata cfg h = (True, store_meta m h)"
    using extractMetadata_ok [of h cfg] h(2) assms(4,5) len by auto
  let ?ex = "\<lparr>handler = store_meta m h, client = c, client_reads = reads, upstream = up, open_files = fds\<rparr>"
  have "route b net z fs mem is_ssl r ?ex = UB"
    using assms h by (intro route_remote_overflow)
      (auto simp: request_url_def reaches_target_def in_buffer_def handler_ok_def)
  with m h(1) show ?thesis by (auto simp: serve_request_def)
qed

section \<open>Witnesses\<close>

text \<open>Fields as a list of pairs, and a network on which everything succeeds.\<close>

definition list_beast :: "(string \<times> string) list beast" where
  "list_beast = \<lparr>new_request = (\<lambda>v url. []),
     set_field = (\<lambda>n v f. filter (\<lambda>(m, _). toLower m \<noteq> toLower n) f @ [(n, v)]),
     request_text = (\<lambda>f. concat (map (\<lambda>(n, v). n @ '':'' @ v @ kCrlf) f)), not_found_text = ''404''\<rparr>"

definition list_field :: "(string \<times> string) list \<Rightarrow> string \<Rightarrow> string option" where
  "list_field f n = map_option snd (find (\<lambda>(m, _). toLower m = toLower n) f)"

lemma list_beast_laws: "fields_laws list_beast list_field"
proof -
  have "list_field (filter (\<lambda>(m, _). toLower m \<noteq> toLower n) f @ [(n, v)]) k =
      (if toLower k = toLower n then Some v else list_field f k)" for n v f k
    by (induction f) (auto simp: list_field_def)
  then show ?thesis by (simp add: fields_laws_def list_beast_def list_field_def)
qed

definition good_network :: network where
  "good_network = \<lparr>resolve_ok = (\<lambda>h p. True), connect_ok = True, tls_ok = True, http_read = (\<lambda>limit. (None, ''pong'')),
     ws_accept_ok = (\<lambda>s. True), ws_handshake_ok = (\<lambda>h u. True)\<rparr>"

definition post_request :: phr_request where
  "post_request = \<lparr>req_method = ''POST'', req_path = ''/'', req_minor_version = 1,
     req_headers = [\<lparr>hname = Some ''X-Id'', hvalue = ''7''\<rparr>]\<rparr>"

text \<open>A handler that has read the request and the bytes \<open>ab\<close> of its body.\<close>

definition post_exchange :: "size_t \<Rightarrow> string list \<Rightarrow> exchange" where
  "post_exchange n chunks = \<lparr>handler = some_memory\<lparr>header_buf := ''0123456789ab'', request := post_request,
     total_parsed := 10, extra_body_len := 2, target_url := ''/'', request_content_length := n\<rparr>,
     client = open_socket, client_reads = map BodyData chunks, upstream = open_socket, open_files = 0\<rparr>"

lemma post_exchange_facts:
  "reaches_target good_network is_ssl host tport (post_exchange n chunks)" "in_buffer (handler (post_exchange n chunks))"
  "extra_body_len (handler (post_exchange n chunks)) = 2" "request_content_length (handler (post_exchange n chunks)) = n"
  "extra_body (handler (post_exchange n chunks)) = ''ab''" "client_reads (post_exchange n chunks) = map BodyData chunks"
  "answers (client (post_exchange n chunks)) = []" "sent (client (post_exchange n chunks)) = []"
  "sent (upstream (post_exchange n chunks)) = []" "accepts (handler (post_exchange n chunks)) = 0"
  "read_response good_network = Some ''pong''"
  by (simp_all add: post_exchange_def reaches_target_def in_buffer_def extra_body_def good_network_def open_socket_def
      post_request_def stringToVerb_def some_memory_def read_response_def)

theorem short_content_length_blocks_witness:
  "\<exists>ex'. handleHttpRequest list_beast good_network True ''t'' 80 (post_exchange 1 [''GET'', '' /'']) = Val (Running, ex') \<and>
    sent (upstream ex') = request_head list_beast ''t'' (handler (post_exchange 1 [''GET'', '' /''])) @ ''abGET /'' \<and>
    client ex' = client (post_exchange 1 [''GET'', '' /'']) \<and> accepts (handler ex') = 0"
  using short_content_length_blocks [OF post_exchange_facts(1,2), of 1 "[''GET'', '' /'']" "[''GET'', '' /'']"
      list_beast True "''t''" 80]
  by (simp add: post_exchange_facts kDefaultBufSize_def)

theorem forwarded_headers_witness:
  "list_field (target_request list_beast Post ''/'' [\<lparr>hname = Some ''X-Id'', hvalue = ''7''\<rparr>,
      \<lparr>hname = Some ''ACCEPT'', hvalue = ''a''\<rparr>, \<lparr>hname = Some ''x-id'', hvalue = ''8''\<rparr>] ''t'') ''X-ID'' = Some ''8''"
proof -
  have "toLower ''X-ID'' = ''x-id''" "\<not> dropped_header ''X-ID''"
    "last_value (toLower ''X-ID'') [\<lparr>hname = Some ''X-Id'', hvalue = ''7''\<rparr>,
      \<lparr>hname = Some ''ACCEPT'', hvalue = ''a''\<rparr>, \<lparr>hname = Some ''x-id'', hvalue = ''8''\<rparr>] = Some ''8''" by code_simp+
  then show ?thesis by (subst forwarded_headers [OF list_beast_laws]) simp_all
qed

text \<open>A table with one exact route, to a remote or a local target.\<close>

definition one_route :: "string \<Rightarrow> bool \<Rightarrow> router" where
  "one_route url local = AddPathMatchRoute 0 url ''/a.html'' local empty_router"

lemma one_route_lookup: "GetRouteTarget url (one_route url local) = Val (Some (http_target ''/a.html'' local), one_route url local)"
  by (simp add: one_route_def AddPathMatchRoute_def empty_router_def AddTarget_def GetRouteTarget_def GetNextTarget_def
      read_at_def)

lemma http_target_remote: "is_remote (http_target url local) = (\<not> local)"
  by (simp add: http_target_def)

definition no_files :: filesystem where
  "no_files = one_file\<lparr>file_exists := (\<lambda>p. False)\<rparr>"

theorem route_accept_calls_witness:
  "\<exists>ex' r'. route list_beast good_network storing_zlib no_files quiet_memory False (one_route [] True)
      (post_exchange 0 []) = Val (Returned, ex', r') \<and> accepts (handler ex') = 2"
proof -
  have url: "request_url (handler (post_exchange 0 [])) = []"
    by (simp add: request_url_def post_exchange_def post_request_def)
  have "\<exists>ex' r'. route list_beast good_network storing_zlib no_files quiet_memory False (one_route [] True)
      (post_exchange 0 []) = Val (Returned, ex', r')"
    using url one_route_lookup [of "[]" True]
    by (simp add: route_def Let_def request_url_def handleLocalFileRequest_def no_files_def http_target_remote)
  then obtain ex' r' where run: "route list_beast good_network storing_zlib no_files quiet_memory False (one_route [] True)
      (post_exchange 0 []) = Val (Returned, ex', r')" by blast
  with route_accept_calls [OF run] url one_route_lookup [of "[]" True] http_target_remote show ?thesis
    by (auto simp: post_exchange_facts)
qed

theorem large_first_packet_undefined_witness:
  "\<exists>h. read_loop True [ReadBytes (render_request post_request @ replicate 5000 (CHR ''x''))]
      (new_handler some_memory (new_connection False)) = Val (h, Extract, []) \<and>
    serve_request initial_config list_beast good_network storing_zlib one_file quiet_memory False (one_route [] False)
      \<lparr>handler = h, client = open_socket, client_reads = [], upstream = open_socket, open_files = 0\<rparr> = UB"
proof (rule large_first_packet_undefined [OF some_memory_size])
  show "request_ok kMaxHeadersNum post_request" by code_simp
  show "list_all plain_header (req_headers post_request)" by code_simp
  have "list_all usable_header [\<lparr>hname = Some ''X-Id'', hvalue = ''7''\<rparr>]"
    by (simp add: usable_header_def named_def kHeaderFieldContentLength_def toLower_def)
  then show "list_all usable_header (req_headers post_request)" by (simp add: post_request_def)
  have "length (render_request post_request) < 100" by code_simp
  then show "length (render_request post_request @ replicate 5000 (CHR ''x'')) \<le> kMaxHttpHeaderSize"
    by (simp add: kMaxHttpHeaderSize_def)
  show "GetRouteTarget (if req_path post_request = ''/'' then [] else req_path post_request) (one_route [] False) =
      Val (Some (http_target ''/a.html'' False), one_route [] False)"
    using one_route_lookup [of "[]" False] by (simp add: post_request_def)
qed (simp_all add: post_request_def stringToVerb_def good_network_def open_socket_def http_target_remote
    kDefaultBufSize_def)
end
