(* ===== verification/Proxy_Failures.thy ===== *)
theory Proxy_Failures
  imports Proxy_Forward
begin

text \<open>
  What arrives when a transfer does not go through at once. A forwarded request and its response are written with
  \<^verbatim>\<open>boost::asio::write\<close>, which repeats \<^verbatim>\<open>write_some\<close>: whatever fails and whenever, each side has received a prefix of
  what it should. A compressed file is written with single calls of \<^verbatim>\<open>write_some\<close>, whose short transfers go unnoticed,
  and the sizes of its chunks come from strings that were destroyed.
\<close>

section \<open>Forwarding\<close>

text \<open>The bytes among the results of reads.\<close>

fun body_data :: "body_read list \<Rightarrow> string" where
  "body_data [] = []"
| "body_data (BodyData bytes # rs) = bytes @ body_data rs"
| "body_data (BodyEof # rs) = body_data rs"
| "body_data (BodyError # rs) = body_data rs"

lemma relay_body_prefix:
  assumes "relay_body n left rs up = (res, rs', up')"
  shows "\<exists>p. sent up' = sent up @ p \<and> prefix p (body_data rs) \<and> (res \<noteq> RelayFailed \<longrightarrow> body_data rs = p @ body_data rs')"
  using assms
proof (induction rs arbitrary: n up)
  case Nil
  then show ?case by auto
next
  case (Cons r rs)
  show ?case
  proof (cases "n < left \<and> (\<exists>bytes. r = BodyData bytes)")
    case False
    with Cons.prems show ?thesis by (cases r) (auto split: if_splits)
  next
    case True
    then obtain bytes where r: "n < left" "r = BodyData bytes" by blast
    obtain ok up1 where w: "write_all bytes up = (ok, up1)" by fastforce
    then obtain p where p: "sent up1 = sent up @ p" "prefix p bytes" "ok \<longrightarrow> p = bytes" by (blast elim: write_all_prefix)
    show ?thesis
    proof (cases ok)
      case True
      with Cons.prems r w have "relay_body (n + word_of_nat (length bytes)) left rs up1 = (res, rs', up')" by simp
      from Cons.IH [OF this] obtain p1 where "sent up' = sent up1 @ p1" "prefix p1 (body_data rs)"
        "res \<noteq> RelayFailed \<longrightarrow> body_data rs = p1 @ body_data rs'" by blast
      with p True r show ?thesis by (intro exI [of _ "bytes @ p1"]) auto
    next
      case False
      with Cons.prems r w p show ?thesis by (intro exI [of _ p]) (auto intro: prefix_prefix)
    qed
  qed
qed

lemma send_extra_body_prefix:
  assumes "send_extra_body h up = Val (ok, up')" "in_buffer h"
  shows "\<exists>p. sent up' = sent up @ p \<and> prefix p (extra_body h) \<and> (ok \<longrightarrow> p = extra_body h)"
proof (cases "extra_body_len h > 0")
  case True
  with assms have "write_all (extra_body h) up = (ok, up')"
    by (auto simp: send_extra_body_def memcpy_def extra_body_def in_buffer_def split: if_splits)
  then show ?thesis by (rule write_all_prefix) blast
qed (use assms in \<open>auto simp: send_extra_body_def extra_body_def\<close>)

text \<open>The header, the first part of the body and its rest, one write after the other.\<close>

lemma handleHttpRequest_cases:
  assumes "handleHttpRequest b net is_ssl host tport ex = Val (pr, ex')"
  obtains (early) "pr = Returned" "ex' = accept_next ex"
  | (head) up where "write_all (request_head b host (handler ex)) (upstream ex) = (False, up)"
      "pr = Returned" "ex' = accept_next (ex\<lparr>upstream := up\<rparr>)"
  | (extra) up1 up where "write_all (request_head b host (handler ex)) (upstream ex) = (True, up1)"
      "send_extra_body (handler ex) up1 = Val (False, up)" "pr = Returned" "ex' = accept_next (ex\<lparr>upstream := up\<rparr>)"
  | (relay) up1 up2 res rs up where "write_all (request_head b host (handler ex)) (upstream ex) = (True, up1)"
      "send_extra_body (handler ex) up1 = Val (True, up2)"
      "relay_body 0 (request_content_length (handler ex) - word_of_nat (extra_body_len (handler ex))) (client_reads ex) up2 = (res, rs, up)"
      "(pr, ex') = (case res of
          RelayWaits \<Rightarrow> (Running, ex\<lparr>client_reads := rs, upstream := up\<rparr>)
        | RelayFailed \<Rightarrow> (Returned, accept_next (ex\<lparr>client_reads := rs, upstream := up\<rparr>))
        | RelayDone \<Rightarrow> (Returned, accept_next (case read_response net of
            None \<Rightarrow> ex\<lparr>client_reads := rs, upstream := up\<rparr>
          | Some response \<Rightarrow> ex\<lparr>client_reads := rs, upstream := up, client := snd (write_all response (client ex))\<rparr>)))"
  using assms
  by (auto simp: handleHttpRequest_def Let_def request_head_def return_response_def
      split: if_splits option.splits prod.splits bool.splits relay_result.splits)

section \<open>Theorems\<close>

text \<open>C5: Whatever goes wrong, nothing is garbled: when forwarding ends or waits, after any failures of the network,
  of the client or of the target and with writes that take any number of bytes at a time, the target has received a
  prefix of the rewritten header, the body read with it and what the client sent afterwards; the client has received
  nothing, or a prefix of the response, and then the target had received all that was read. The accept callback is
  called exactly once, unless the function still waits.\<close>

theorem forwarding_never_garbles:
  assumes "handleHttpRequest b net is_ssl host tport ex = Val (pr, ex')" "in_buffer (handler ex)"
  shows "\<exists>p p'. sent (upstream ex') = sent (upstream ex) @ p \<and> sent (client ex') = sent (client ex) @ p' \<and>
    prefix p (request_head b host (handler ex) @ extra_body (handler ex) @ body_data (client_reads ex)) \<and>
    (p' \<noteq> [] \<longrightarrow> (\<exists>response. read_response net = Some response \<and> prefix p' response) \<and>
      p @ body_data (client_reads ex') =
        request_head b host (handler ex) @ extra_body (handler ex) @ body_data (client_reads ex)) \<and>
    accepts (handler ex') = accepts (handler ex) + (if pr = Running then 0 else 1)"
  using assms(1)
proof (cases rule: handleHttpRequest_cases)
  case early
  then show ?thesis by (simp add: accept_next_def async_accpet_cb_def)
next
  case (head up)
  from head(1) obtain p where "sent up = sent (upstream ex) @ p" "prefix p (request_head b host (handler ex))"
    by (blast elim: write_all_prefix)
  with head show ?thesis by (intro exI [of _ p] exI [of _ "[]"]) (simp add: accept_next_def async_accpet_cb_def prefix_prefix)
next
  case (extra up1 up)
  from extra(1) have "sent up1 = sent (upstream ex) @ request_head b host (handler ex)" by (auto elim: write_all_prefix)
  with send_extra_body_prefix [OF extra(2) assms(2)] obtain p where
    "sent up = sent (upstream ex) @ request_head b host (handler ex) @ p" "prefix p (extra_body (handler ex))" by auto
  with extra show ?thesis
    by (intro exI [of _ "request_head b host (handler ex) @ p"] exI [of _ "[]"])
      (simp add: accept_next_def async_accpet_cb_def prefix_prefix)
next
  case (relay up1 up2 res rs up)
  from relay(1) have "sent up1 = sent (upstream ex) @ request_head b host (handler ex)" by (auto elim: write_all_prefix)
  with send_extra_body_prefix [OF relay(2) assms(2)] relay_body_prefix [OF relay(3)] obtain p where
    p: "sent up = sent (upstream ex) @ request_head b host (handler ex) @ extra_body (handler ex) @ p"
    "prefix p (body_data (client_reads ex))" "res \<noteq> RelayFailed \<Longrightarrow> body_data (client_reads ex) = p @ body_data rs" by auto
  let ?p = "request_head b host (handler ex) @ extra_body (handler ex) @ p"
  show ?thesis
  proof (cases "res = RelayDone \<and> read_response net \<noteq> None")
    case False
    with relay(4) p show ?thesis
      by (intro exI [of _ ?p] exI [of _ "[]"])
        (auto simp: accept_next_def async_accpet_cb_def split: relay_result.splits option.splits)
  next
    case True
    then obtain response where response: "read_response net = Some response" by blast
    obtain ok c where w: "write_all response (client ex) = (ok, c)" by fastforce
    then obtain p' where "sent c = sent (client ex) @ p'" "prefix p' response" by (blast elim: write_all_prefix)
    with relay(4) p w True response show ?thesis
      by (intro exI [of _ ?p] exI [of _ p']) (simp add: accept_next_def async_accpet_cb_def)
  qed
qed

section \<open>Short writes of a compressed file\<close>

text \<open>What arrives of a sequence of texts when the calls take at most the given numbers of bytes, one after the other,
  and all bytes afterwards.\<close>

fun taken :: "nat list \<Rightarrow> string list \<Rightarrow> string" where
  "taken ns [] = []"
| "taken [] (f # fs) = f @ taken [] fs"
| "taken (n # ns) (f # fs) = take n f @ taken ns fs"

lemma taken_snoc:
  "taken ns (fs @ [f]) = taken ns fs @ (case drop (length fs) ns of [] \<Rightarrow> f | n # _ \<Rightarrow> take n f)"
  by (induction ns fs rule: taken.induct) (auto split: list.split)

definition cut_frames :: "memory \<Rightarrow> string \<Rightarrow> nat list \<Rightarrow> string list \<Rightarrow> socket \<Rightarrow> bool" where
  "cut_frames mem sent0 ns outs sock \<longleftrightarrow>
     sock = \<lparr>sent = sent0 @ taken ns (map (written_chunk mem) outs), answers = map Some (drop (length outs) ns)\<rparr>"

lemma write_some_cut:
  "write_some bytes \<lparr>sent = s, answers = map Some ns\<rparr> =
     (True, \<lparr>sent = s @ (case ns of [] \<Rightarrow> bytes | n # _ \<Rightarrow> take n bytes), answers = map Some (drop 1 ns)\<rparr>)"
  by (cases ns) (simp_all add: write_some_def)

lemma collect_agrees_cut: "handlers_agree (cut_frames mem sent0 ns) collect (compressed_output_handler mem)"
  by (simp add: handlers_agree_def cut_frames_def collect_def compressed_output_handler_def write_some_cut taken_snoc)

text \<open>C25: A compressed file is written with single calls of \<^verbatim>\<open>write_some\<close>: when the client's socket takes fewer bytes
  of a chunk than there are, the rest of the chunk is lost, the transfer goes on with the next one, and success is
  reported. The size of each chunk is what the memory of a destroyed string holds at that time.\<close>

theorem gzip_short_writes_lose_bytes:
  assumes "zlib_ok lib pending" "new_GzipCompressor lib Z_DEFAULT_COMPRESSION = Some z"
    and "GzipStreamCompress lib collect z reads [] = Some (True, outs)"
  shows "\<exists>rest. handleGzipCompression mem lib reads \<lparr>sent = sent0, answers = map Some ns\<rparr> =
    Some (True, \<lparr>sent = sent0 @ taken ns (map (written_chunk mem) outs @ [kChunkedEncodingEndingStr]), answers = rest\<rparr>)"
proof -
  have "cut_frames mem sent0 ns [] \<lparr>sent = sent0, answers = map Some ns\<rparr>" by (simp add: cut_frames_def)
  from GzipStreamCompress_sim [OF collect_agrees_cut assms(1) this, of z reads] assms(3)
  obtain sock where "GzipStreamCompress lib (compressed_output_handler mem) z reads \<lparr>sent = sent0, answers = map Some ns\<rparr> =
      Some (True, sock)" "cut_frames mem sent0 ns outs sock" by auto
  with assms(2) show ?thesis
    by (simp add: handleGzipCompression_def cut_frames_def write_some_cut taken_snoc)
qed

section \<open>Witnesses\<close>

text \<open>A target that takes the header in two pieces and one byte of the body, and then fails.\<close>

definition cut_exchange :: exchange where
  "cut_exchange = (post_exchange 5 [''cde''])\<lparr>upstream := \<lparr>sent = [], answers = [Some 3, Some 1000, Some 1, None]\<rparr>\<rparr>"

theorem forwarding_never_garbles_witness:
  "\<exists>pr ex'. handleHttpRequest list_beast good_network True ''t'' 80 cut_exchange = Val (pr, ex') \<and>
    sent (upstream ex') = request_head list_beast ''t'' (handler cut_exchange) @ ''a'' \<and>
    prefix (sent (upstream ex')) (request_head list_beast ''t'' (handler cut_exchange) @ ''abcde'')"
proof -
  have "case handleHttpRequest list_beast good_network True ''t'' 80 cut_exchange of
      Val (pr, ex') \<Rightarrow> sent (upstream ex') = request_head list_beast ''t'' (handler cut_exchange) @ ''a'' | UB \<Rightarrow> False"
    by code_simp
  then obtain pr ex' where run: "handleHttpRequest list_beast good_network True ''t'' 80 cut_exchange = Val (pr, ex')"
    "sent (upstream ex') = request_head list_beast ''t'' (handler cut_exchange) @ ''a''"
    by (auto split: outcome.splits)
  have facts: "in_buffer (handler cut_exchange)" "sent (upstream cut_exchange) = []" "extra_body (handler cut_exchange) = ''ab''"
    "body_data (client_reads cut_exchange) = ''cde''"
    by (simp_all add: cut_exchange_def post_exchange_facts)
  from forwarding_never_garbles [OF run(1) facts(1)] run facts show ?thesis by auto
qed

text \<open>The compressor that stores its input; the socket takes four of the ten bytes of the only chunk.\<close>

theorem gzip_short_writes_lose_bytes_witness:
  "\<exists>rest. handleGzipCompression quiet_memory storing_zlib [Last ''hello''] \<lparr>sent = [], answers = [Some 4]\<rparr> =
    Some (True, \<lparr>sent = ''5'' @ [CR, LF] @ ''h'' @ kChunkedEncodingEndingStr, answers = rest\<rparr>)"
proof -
  have "GzipStreamCompress storing_zlib collect [] [Last ''hello''] [] = Some (True, [''hello''])" by code_simp
  from gzip_short_writes_lose_bytes [OF storing_zlib_ok storing_zlib_new this, of quiet_memory "[]" "[4]"]
  have "\<exists>rest. handleGzipCompression quiet_memory storing_zlib [Last ''hello''] \<lparr>sent = [], answers = [Some 4]\<rparr> =
      Some (True, \<lparr>sent = taken [4] [written_chunk quiet_memory ''hello'', kChunkedEncodingEndingStr], answers = rest\<rparr>)" by simp
  moreover have "taken [4] [written_chunk quiet_memory ''hello'', kChunkedEncodingEndingStr] = ''5'' @ [CR, LF] @ ''h'' @ kChunkedEncodingEndingStr"
    by code_simp
  ultimately show ?thesis by simp
qed
end
