(* ===== verification/Router_Threads.thy ===== *)
theory Router_Threads
  imports Router
begin

text \<open>
  Lookups on several threads. The worker threads call \<^verbatim>\<open>GetRouteTarget\<close> at the same time, and the route
  tables of \<^verbatim>\<open>core/src/router.cc\<close> have no lock. Here \<^verbatim>\<open>RouteAction::GetNextTarget\<close> is split into its
  accesses to the shared action: the test for emptiness, the load of the index that binds the reference
  \<^verbatim>\<open>result\<close>, the load of the index and the size for the new index, its store, and the copy of what the
  reference refers to. The vector has a capacity; when it grows beyond it, its elements move and
  references to them dangle. Neither \<^verbatim>\<open>next_index\<close> nor the vector is atomic, so two threads that are
  about to access the same one, one of them to write it, are a data race, which is undefined
  behaviour in C++. The step relation runs the accesses one at a time; what it shows beyond the
  first race is what happens on a machine whose loads and stores of a word are indivisible.
\<close>

section \<open>The accesses\<close>

text \<open>
  Where a thread is in \<^verbatim>\<open>GetNextTarget\<close>. A reference is the number of moves the vector had made when it was
  bound, and an index.
\<close>

datatype lookup_pc = Outside | NonEmpty | Bound nat nat | Computed nat nat size_t | Stored nat nat

text \<open>\<open>returned\<close> holds the results in their order; \<open>undefined\<close> says that an access was undefined behaviour.\<close>

record shared_action =
  sh_action :: RouteAction
  sh_capacity :: nat
  sh_moves :: nat
  sh_pcs :: "lookup_pc list"
  returned :: "ConnectionInfo option list"
  undefined_access :: bool

definition at :: "shared_action \<Rightarrow> nat \<Rightarrow> lookup_pc \<Rightarrow> bool" where
  "at s i pc \<longleftrightarrow> i < length (sh_pcs s) \<and> sh_pcs s ! i = pc"

definition goto :: "nat \<Rightarrow> lookup_pc \<Rightarrow> shared_action \<Rightarrow> shared_action" where
  "goto i pc s = s\<lparr>sh_pcs := (sh_pcs s)[i := pc]\<rparr>"

definition return_target :: "nat \<Rightarrow> nat \<Rightarrow> shared_action \<Rightarrow> shared_action" where
  "return_target m k s =
     (if m = sh_moves s \<and> k < length (targets (sh_action s))
      then s\<lparr>returned := returned s @ [Some (targets (sh_action s) ! k)]\<rparr>
      else s\<lparr>undefined_access := True\<rparr>)"

inductive lookup_step :: "shared_action \<Rightarrow> shared_action \<Rightarrow> bool" where
  empty: "at s i Outside \<Longrightarrow> targets (sh_action s) = [] \<Longrightarrow>
    lookup_step s (s\<lparr>returned := returned s @ [None]\<rparr>)"
| check: "at s i Outside \<Longrightarrow> targets (sh_action s) \<noteq> [] \<Longrightarrow> lookup_step s (goto i NonEmpty s)"
| bind: "at s i NonEmpty \<Longrightarrow>
    lookup_step s (goto i (Bound (sh_moves s) (unat (next_index (sh_action s))))
      (s\<lparr>undefined_access := undefined_access s \<or> \<not> unat (next_index (sh_action s)) < length (targets (sh_action s))\<rparr>))"
| compute: "at s i (Bound m k) \<Longrightarrow>
    lookup_step s (goto i (Computed m k ((next_index (sh_action s) + 1) mod word_of_nat (length (targets (sh_action s))))) s)"
| store: "at s i (Computed m k v) \<Longrightarrow>
    lookup_step s (goto i (Stored m k) (s\<lparr>sh_action := (sh_action s)\<lparr>next_index := v\<rparr>\<rparr>))"
| copy: "at s i (Stored m k) \<Longrightarrow> lookup_step s (goto i Outside (return_target m k s))"

text \<open>\<^verbatim>\<open>AddTarget\<close> on another thread: \<^verbatim>\<open>emplace_back\<close> moves the elements when the capacity is used up.\<close>

definition add_target :: "ConnectionInfo \<Rightarrow> shared_action \<Rightarrow> shared_action" where
  "add_target conn s =
     (let ra = AddTarget conn (sh_action s);
          full = (length (targets ra) > sh_capacity s)
      in s\<lparr>sh_action := ra, sh_capacity := (if full then max (length (targets ra)) (2 * sh_capacity s) else sh_capacity s),
           sh_moves := (if full then sh_moves s + 1 else sh_moves s)\<rparr>)"

inductive thread_step :: "shared_action \<Rightarrow> shared_action \<Rightarrow> bool" where
  lookup: "lookup_step s t \<Longrightarrow> thread_step s t"
| add: "thread_step s (add_target conn s)"

text \<open>What the next statement of a thread reads and writes (\<open>True\<close>) of the shared action.\<close>

datatype shared_location = Next_Index | Targets

fun next_accesses :: "lookup_pc \<Rightarrow> (shared_location \<times> bool) list" where
  "next_accesses Outside = [(Targets, False)]"
| "next_accesses NonEmpty = [(Next_Index, False), (Targets, False)]"
| "next_accesses (Bound m k) = [(Next_Index, False), (Targets, False)]"
| "next_accesses (Computed m k v) = [(Next_Index, True)]"
| "next_accesses (Stored m k) = [(Targets, False)]"

definition race_on :: "shared_location \<Rightarrow> shared_action \<Rightarrow> bool" where
  "race_on l s \<longleftrightarrow> (\<exists>i < length (sh_pcs s). \<exists>j < length (sh_pcs s). i \<noteq> j \<and>
     (l, True) \<in> set (next_accesses (sh_pcs s ! i)) \<and> l \<in> fst ` set (next_accesses (sh_pcs s ! j)))"

text \<open>\<open>n\<close> threads at an action, before any of them looks up a target.\<close>

definition at_action :: "RouteAction \<Rightarrow> nat \<Rightarrow> nat \<Rightarrow> shared_action" where
  "at_action ra cap n = \<lparr>sh_action = ra, sh_capacity = cap, sh_moves = 0, sh_pcs = replicate n Outside,
     returned = [], undefined_access = False\<rparr>"

section \<open>Lookups stay in range\<close>

text \<open>What holds of a thread: its index and its new value of the index are in range.\<close>

fun pc_ok :: "nat \<Rightarrow> lookup_pc \<Rightarrow> bool" where
  "pc_ok n Outside = True"
| "pc_ok n NonEmpty = True"
| "pc_ok n (Bound m k) = (m = 0 \<and> k < n)"
| "pc_ok n (Computed m k v) = (m = 0 \<and> k < n \<and> unat v < n)"
| "pc_ok n (Stored m k) = (m = 0 \<and> k < n)"

definition shared_ok :: "RouteAction \<Rightarrow> shared_action \<Rightarrow> bool" where
  "shared_ok ra s \<longleftrightarrow> targets (sh_action s) = targets ra \<and> action_ok (sh_action s) \<and> sh_moves s = 0 \<and>
     \<not> undefined_access s \<and> list_all (pc_ok (length (targets ra))) (sh_pcs s) \<and> set (returned s) \<subseteq> Some ` set (targets ra)"

lemma pc_ok_goto:
  "list_all (pc_ok n) (sh_pcs s) \<Longrightarrow> pc_ok n pc \<Longrightarrow> list_all (pc_ok n) (sh_pcs (goto i pc s))"
  unfolding goto_def list_all_iff using set_update_subset_insert [of "sh_pcs s" i pc] by auto

lemma pc_ok_at: "list_all (pc_ok n) (sh_pcs s) \<Longrightarrow> at s i pc \<Longrightarrow> pc_ok n pc"
  by (auto simp: at_def list_all_iff)

lemma goto_simps [simp]:
  "sh_action (goto i pc s) = sh_action s" "sh_moves (goto i pc s) = sh_moves s" "returned (goto i pc s) = returned s"
  "undefined_access (goto i pc s) = undefined_access s" "sh_capacity (goto i pc s) = sh_capacity s"
  "sh_pcs (goto i pc s) = (sh_pcs s)[i := pc]"
  by (simp_all add: goto_def)

lemma shared_ok_start: "action_ok ra \<Longrightarrow> shared_ok ra (at_action ra cap n)"
  by (simp add: shared_ok_def at_action_def list_all_iff)

lemma lookup_step_ok:
  assumes "lookup_step s t" "shared_ok ra s"
  shows "shared_ok ra t"
proof -
  let ?n = "length (targets ra)"
  have ok: "targets (sh_action s) = targets ra" "action_ok (sh_action s)" "sh_moves s = 0" "\<not> undefined_access s"
    "list_all (pc_ok ?n) (sh_pcs s)" "set (returned s) \<subseteq> Some ` set (targets ra)"
    using assms(2) by (simp_all add: shared_ok_def)
  have range: "unat (next_index (sh_action s)) < ?n" "?n < 2 ^ 64" using ok(1,2) by (auto simp: action_ok_def)
  have next_range: "unat ((next_index (sh_action s) + 1) mod word_of_nat ?n :: size_t) < ?n"
    unfolding unat_advance [OF range] using range(1) by (intro mod_less_divisor) (auto intro: le_less_trans)
  note goto_ok = pc_ok_goto [OF ok(5)] and at_ok = pc_ok_at [OF ok(5)]
  show ?thesis
    using assms(1)
  proof (cases rule: lookup_step.cases)
    case (empty i)
    then show ?thesis using ok range(1) by (simp add: shared_ok_def)
  next
    case (check i)
    then show ?thesis using ok goto_ok [of NonEmpty i] by (simp add: shared_ok_def)
  next
    case (bind i)
    then show ?thesis using ok range(1) goto_ok [of "Bound 0 (unat (next_index (sh_action s)))" i] by (simp add: shared_ok_def)
  next
    case (compute i m k)
    then show ?thesis
      using ok next_range at_ok [OF compute(2)] goto_ok [of "Computed m k ((next_index (sh_action s) + 1) mod word_of_nat ?n)" i]
      by (simp add: shared_ok_def)
  next
    case (store i m k v)
    then show ?thesis
      using ok at_ok [OF store(2)] goto_ok [of "Stored m k" i] by (simp add: shared_ok_def action_ok_def)
  next
    case (copy i m k)
    then have "t = goto i Outside (s\<lparr>returned := returned s @ [Some (targets ra ! k)]\<rparr>)" "k < ?n"
      using ok(1,3) at_ok [OF copy(2)] by (simp_all add: return_target_def)
    then show ?thesis using ok goto_ok [of Outside i] by (simp add: shared_ok_def)
  qed
qed

lemma lookups_ok: "lookup_step\<^sup>*\<^sup>* s t \<Longrightarrow> shared_ok ra s \<Longrightarrow> shared_ok ra t"
  by (induction rule: rtranclp_induct) (auto intro: lookup_step_ok)

section \<open>A lookup that is not overlapped\<close>

lemma four_steps:
  assumes "r a b" "r b c" "r c d" "r d e"
  shows "r\<^sup>*\<^sup>* a e"
  using assms by (meson converse_rtranclp_into_rtranclp rtranclp.rtrancl_refl)

text \<open>One thread that makes its accesses without interruption does what \<open>GetNextTarget\<close> does.\<close>

lemma lookup_alone:
  assumes "at s i Outside" "action_ok (sh_action s)" "GetNextTarget (sh_action s) = Val (r, ra')"
  shows "lookup_step\<^sup>*\<^sup>* s (s\<lparr>sh_action := ra', returned := returned s @ [r]\<rparr>)"
proof -
  let ?ra = "sh_action s" and ?k = "unat (next_index (sh_action s))" and ?m = "sh_moves s"
  let ?v = "(next_index ?ra + 1) mod word_of_nat (length (targets ?ra)) :: size_t"
  have i: "i < length (sh_pcs s)" "sh_pcs s ! i = Outside" using assms(1) by (simp_all add: at_def)
  have k: "?k < length (targets ?ra)" using assms(2) by (simp add: action_ok_def)
  have r: "r = Some (targets ?ra ! ?k)" "ra' = ?ra\<lparr>next_index := ?v\<rparr>"
    using assms(3) GetNextTarget_ok [OF assms(2)] by (simp_all add: advance_def)
  have home: "goto i Outside (s\<lparr>sh_action := ra', returned := out\<rparr>) = s\<lparr>sh_action := ra', returned := out\<rparr>" for out
    using i list_update_id [of "sh_pcs s" i] by (simp add: goto_def)
  have "lookup_step s (goto i NonEmpty s)" using check [of s i] assms(1) k by force
  moreover have "lookup_step (goto i NonEmpty s) (goto i (Bound ?m ?k) s)"
    using bind [of "goto i NonEmpty s" i] i k by (cases s) (simp add: at_def goto_def)
  moreover have "lookup_step (goto i (Bound ?m ?k) s) (goto i (Computed ?m ?k ?v) s)"
    using compute [of "goto i (Bound ?m ?k) s" i ?m ?k] i by (simp add: at_def goto_def)
  moreover have "lookup_step (goto i (Computed ?m ?k ?v) s) (goto i (Stored ?m ?k) (s\<lparr>sh_action := ra'\<rparr>))"
    using store [of "goto i (Computed ?m ?k ?v) s" i ?m ?k ?v] i r by (simp add: at_def goto_def)
  moreover have "lookup_step (goto i (Stored ?m ?k) (s\<lparr>sh_action := ra'\<rparr>))
      (goto i Outside (s\<lparr>sh_action := ra', returned := returned s @ [r]\<rparr>))"
    using copy [of "goto i (Stored ?m ?k) (s\<lparr>sh_action := ra'\<rparr>)" i ?m ?k] i k r
    by (simp add: at_def goto_def return_target_def)
  ultimately show ?thesis unfolding home by (intro rtranclp.rtrancl_into_rtrancl [OF four_steps])
qed

section \<open>Lookups that overlap\<close>

text \<open>If thread \<open>k\<close> leads from \<open>f k\<close> to \<open>f (k + 1)\<close>, all threads together lead from the first state to the last.\<close>

lemma all_threads: "(\<And>k. k < n \<Longrightarrow> lookup_step (f k) (f (Suc k))) \<Longrightarrow> lookup_step\<^sup>*\<^sup>* (f 0) (f n)"
proof (induction n)
  case (Suc n)
  then have "lookup_step\<^sup>*\<^sup>* (f 0) (f n)" "lookup_step (f n) (f (Suc n))" by simp_all
  then show ?case by (rule rtranclp.rtrancl_into_rtrancl)
qed simp

text \<open>The first \<open>k\<close> of \<open>n\<close> threads have made their step.\<close>

definition moved :: "nat \<Rightarrow> lookup_pc \<Rightarrow> lookup_pc \<Rightarrow> nat \<Rightarrow> lookup_pc list" where
  "moved n old new k = replicate k new @ replicate (n - k) old"

lemma moved_simps [simp]:
  "moved n old new 0 = replicate n old" "moved n old new n = replicate n new" "k < n \<Longrightarrow> length (moved n old new k) = n"
  "k < n \<Longrightarrow> moved n old new k ! k = old" "k < n \<Longrightarrow> (moved n old new k)[k := new] = moved n old new (Suc k)"
proof -
  show "k < n \<Longrightarrow> (moved n old new k)[k := new] = moved n old new (Suc k)"
    by (cases "n - k") (auto simp: moved_def list_update_append replicate_app_Cons_same)
qed (simp_all add: moved_def nth_append)

lemma at_moved: "k < n \<Longrightarrow> sh_pcs s = moved n old new k \<Longrightarrow> at s k old"
  by (simp add: at_def)

text \<open>
  All threads make the same access one after the other, in five rounds. The results are all the same
  target, and the index moves by one.
\<close>

lemma overlapping_lookups:
  assumes "action_ok ra" "0 < n"
  shows "lookup_step\<^sup>*\<^sup>* (at_action ra cap n)
    ((at_action (advance ra) cap n)\<lparr>returned := replicate n (Some (targets ra ! unat (next_index ra)))\<rparr>)"
proof -
  let ?k = "unat (next_index ra)" and ?v = "(next_index ra + 1) mod word_of_nat (length (targets ra)) :: size_t"
  let ?st = "\<lambda>ra pcs out. \<lparr>sh_action = ra, sh_capacity = cap, sh_moves = 0, sh_pcs = pcs, returned = out, undefined_access = False\<rparr>"
  let ?all = "\<lambda>pc. replicate n pc"
  let ?t = "Some (targets ra ! ?k)"
  have k: "?k < length (targets ra)" "targets ra \<noteq> []" using assms(1) by (auto simp: action_ok_def)
  have adv: "advance ra = ra\<lparr>next_index := ?v\<rparr>" by (simp add: advance_def)
  let ?now = "\<lambda>i :: nat. if i = 0 then ra else advance ra"
  let ?check = "\<lambda>i. ?st ra (moved n Outside NonEmpty i) []"
  let ?bind = "\<lambda>i. ?st ra (moved n NonEmpty (Bound 0 ?k) i) []"
  let ?compute = "\<lambda>i. ?st ra (moved n (Bound 0 ?k) (Computed 0 ?k ?v) i) []"
  let ?store = "\<lambda>i. ?st (?now i) (moved n (Computed 0 ?k ?v) (Stored 0 ?k) i) []"
  let ?copy = "\<lambda>i. ?st (advance ra) (moved n (Stored 0 ?k) Outside i) (replicate i ?t)"
  have "lookup_step (?check i) (?check (Suc i))" if "i < n" for i
    using check [of "?check i" i] that k by (simp add: at_def goto_def)
  then have "lookup_step\<^sup>*\<^sup>* (?check 0) (?check n)" by (rule all_threads)
  moreover have "lookup_step (?bind i) (?bind (Suc i))" if "i < n" for i
    using bind [of "?bind i" i] that k by (simp add: at_def goto_def)
  then have "lookup_step\<^sup>*\<^sup>* (?bind 0) (?bind n)" by (rule all_threads)
  moreover have "lookup_step (?compute i) (?compute (Suc i))" if "i < n" for i
    using compute [of "?compute i" i 0 ?k] that by (simp add: at_def goto_def)
  then have "lookup_step\<^sup>*\<^sup>* (?compute 0) (?compute n)" by (rule all_threads)
  moreover have "lookup_step (?store i) (?store (Suc i))" if "i < n" for i
    using store [of "?store i" i 0 ?k ?v] that by (simp add: at_def goto_def adv split: if_splits)
  then have "lookup_step\<^sup>*\<^sup>* (?store 0) (?store n)" by (rule all_threads)
  moreover have "lookup_step (?copy i) (?copy (Suc i))" if "i < n" for i
    using copy [of "?copy i" i 0 ?k] that k by (simp add: at_def goto_def return_target_def adv replicate_append_same)
  then have "lookup_step\<^sup>*\<^sup>* (?copy 0) (?copy n)" by (rule all_threads)
  ultimately show ?thesis using assms(2) by (simp add: at_action_def)
qed

section \<open>The data race\<close>

text \<open>The first thread is about to store the index, the others have done nothing yet.\<close>

lemma one_ahead:
  assumes "unat (next_index ra) < length (targets ra)" "0 < n"
  shows "\<exists>v. lookup_step\<^sup>*\<^sup>* (at_action ra cap n) (goto 0 (Computed 0 (unat (next_index ra)) v) (at_action ra cap n))"
proof -
  let ?s = "at_action ra cap n" and ?k = "unat (next_index ra)"
  let ?v = "(next_index ra + 1) mod word_of_nat (length (targets ra)) :: size_t"
  have 0: "0 < length (sh_pcs ?s)" "sh_pcs ?s ! 0 = Outside" using assms(2) by (simp_all add: at_action_def)
  have "lookup_step ?s (goto 0 NonEmpty ?s)"
    using check [of ?s 0] 0 assms(1) by (force simp: at_def at_action_def)
  moreover have "lookup_step (goto 0 NonEmpty ?s) (goto 0 (Bound 0 ?k) ?s)"
    using bind [of "goto 0 NonEmpty ?s" 0] 0 assms(1) by (simp add: at_def goto_def at_action_def)
  moreover have "lookup_step (goto 0 (Bound 0 ?k) ?s) (goto 0 (Computed 0 ?k ?v) ?s)"
    using compute [of "goto 0 (Bound 0 ?k) ?s" 0 0 ?k] 0 by (simp add: at_def goto_def at_action_def)
  ultimately show ?thesis by (meson converse_rtranclp_into_rtranclp rtranclp.rtrancl_refl)
qed

lemma raceI:
  "i < length (sh_pcs s) \<Longrightarrow> j < length (sh_pcs s) \<Longrightarrow> i \<noteq> j \<Longrightarrow> (l, True) \<in> set (next_accesses (sh_pcs s ! i)) \<Longrightarrow>
   l \<in> fst ` set (next_accesses (sh_pcs s ! j)) \<Longrightarrow> race_on l s"
  unfolding race_on_def by blast

lemma race_reached:
  assumes "unat (next_index ra) < length (targets ra)" "2 \<le> n"
  shows "\<exists>s. lookup_step\<^sup>*\<^sup>* (at_action ra cap n) s \<and> \<not> undefined_access s \<and> race_on Next_Index s"
proof -
  let ?k = "unat (next_index ra)"
  obtain v where v: "lookup_step\<^sup>*\<^sup>* (at_action ra cap n) (goto 0 (Computed 0 ?k v) (at_action ra cap n))"
    using one_ahead [of ra n cap] assms by auto
  let ?s = "goto 0 (Computed 0 ?k v) (at_action ra cap n)"
  have "at ?s 1 Outside" "targets (sh_action ?s) \<noteq> []" using assms by (auto simp: at_def at_action_def)
  with v have "lookup_step\<^sup>*\<^sup>* (at_action ra cap n) (goto 1 NonEmpty ?s)"
    by (blast intro: rtranclp.rtrancl_into_rtrancl check)
  moreover have "sh_pcs (goto 1 NonEmpty ?s) ! 0 = Computed 0 ?k v" "sh_pcs (goto 1 NonEmpty ?s) ! 1 = NonEmpty"
    "1 < length (sh_pcs (goto 1 NonEmpty ?s))"
    using assms(2) by (simp_all add: at_action_def)
  then have "race_on Next_Index (goto 1 NonEmpty ?s)"
    by (intro raceI [of 0 _ 1]) (auto simp del: goto_simps)
  moreover have "\<not> undefined_access (goto 1 NonEmpty ?s)" by (simp add: at_action_def)
  ultimately show ?thesis by blast
qed

text \<open>With the index out of range no thread gets past the binding of the reference.\<close>

definition held_back :: "RouteAction \<Rightarrow> nat \<Rightarrow> shared_action \<Rightarrow> bool" where
  "held_back ra n s \<longleftrightarrow> length (sh_pcs s) = n \<and> (length (targets ra) \<le> unat (next_index ra) \<longrightarrow>
     undefined_access s \<or> sh_action s = ra \<and> set (sh_pcs s) \<subseteq> {Outside, NonEmpty})"

lemma held_back_start: "held_back ra n (at_action ra cap n)"
  by (auto simp: held_back_def at_action_def)

lemma held_back_step:
  assumes "lookup_step s t" "held_back ra n s"
  shows "held_back ra n t"
  using assms(1)
proof (cases rule: lookup_step.cases)
  case (check i)
  then show ?thesis
    using assms(2) set_update_subset_insert [of "sh_pcs s" i NonEmpty] by (auto simp: held_back_def)
next
  case (copy i m k)
  then show ?thesis using assms(2) by (auto simp: held_back_def at_def return_target_def dest: nth_mem)
qed (use assms(2) in \<open>auto simp: held_back_def at_def dest: nth_mem\<close>)

lemma held_back_steps: "lookup_step\<^sup>*\<^sup>* s t \<Longrightarrow> held_back ra n s \<Longrightarrow> held_back ra n t"
  by (induction rule: rtranclp_induct) (auto intro: held_back_step)

lemma writes_index: "(l, True) \<in> set (next_accesses pc) \<Longrightarrow> l = Next_Index \<and> (\<exists>m k v. pc = Computed m k v)"
  by (cases pc) auto

lemma race_needs:
  assumes "lookup_step\<^sup>*\<^sup>* (at_action ra cap n) s" "race_on l s" "\<not> undefined_access s"
  shows "l = Next_Index \<and> 2 \<le> n \<and> unat (next_index ra) < length (targets ra)"
proof -
  have held: "held_back ra n s" using assms(1) held_back_start by (rule held_back_steps)
  obtain i j where ij: "i < n" "j < n" "i \<noteq> j" "(l, True) \<in> set (next_accesses (sh_pcs s ! i))"
    using assms(2) held by (auto simp: race_on_def held_back_def)
  then obtain m k v where "l = Next_Index" "sh_pcs s ! i = Computed m k v" using writes_index by blast
  moreover from this have "Computed m k v \<in> set (sh_pcs s)"
    using held ij(1) nth_mem [of i "sh_pcs s"] by (simp add: held_back_def)
  ultimately show ?thesis using held assms(3) ij(1-3) by (auto simp: held_back_def)
qed

section \<open>A lookup while a target is added\<close>

lemma addition_dangles:
  assumes "action_ok ra" "cap = length (targets ra)" "find (same_target conn) (targets ra) = None"
  shows "\<exists>s. thread_step\<^sup>*\<^sup>* (at_action ra cap 1) s \<and> undefined_access s \<and> targets (sh_action s) = targets ra @ [conn]"
proof -
  let ?k = "unat (next_index ra)" and ?v = "(next_index ra + 1) mod word_of_nat (length (targets ra)) :: size_t"
  let ?st = "\<lambda>ra pc. \<lparr>sh_action = ra, sh_capacity = cap, sh_moves = 0, sh_pcs = [pc], returned = [], undefined_access = False\<rparr>"
  have k: "?k < length (targets ra)" "targets ra \<noteq> []" using assms(1) by (auto simp: action_ok_def)
  let ?s = "?st (ra\<lparr>next_index := ?v\<rparr>) (Stored 0 ?k)"
  have "lookup_step (?st ra Outside) (?st ra NonEmpty)" using check [of "?st ra Outside" 0] k by (simp add: at_def goto_def)
  moreover have "lookup_step (?st ra NonEmpty) (?st ra (Bound 0 ?k))"
    using bind [of "?st ra NonEmpty" 0] k by (simp add: at_def goto_def)
  moreover have "lookup_step (?st ra (Bound 0 ?k)) (?st ra (Computed 0 ?k ?v))"
    using compute [of "?st ra (Bound 0 ?k)" 0 0 ?k] by (simp add: at_def goto_def)
  moreover have "lookup_step (?st ra (Computed 0 ?k ?v)) ?s"
    using store [of "?st ra (Computed 0 ?k ?v)" 0 0 ?k ?v] by (simp add: at_def goto_def)
  ultimately have "thread_step\<^sup>*\<^sup>* (?st ra Outside) ?s" by (intro four_steps lookup)
  then have "thread_step\<^sup>*\<^sup>* (?st ra Outside) (add_target conn ?s)"
    by (rule rtranclp.rtrancl_into_rtrancl) (rule add)
  then have "thread_step\<^sup>*\<^sup>* (?st ra Outside) (goto 0 Outside (return_target 0 ?k (add_target conn ?s)))"
    by (rule rtranclp.rtrancl_into_rtrancl) (intro lookup copy, simp add: at_def add_target_def Let_def)
  moreover have "undefined_access (return_target 0 ?k (add_target conn ?s)) \<and>
      targets (sh_action (return_target 0 ?k (add_target conn ?s))) = targets ra @ [conn]"
    using assms(2,3) by (simp add: return_target_def add_target_def AddTarget_def Let_def)
  moreover have "at_action ra cap 1 = ?st ra Outside" by (simp add: at_action_def)
  ultimately show ?thesis
    by (intro exI [of _ "goto 0 Outside (return_target 0 ?k (add_target conn ?s))"]) (simp only: goto_simps simp_thms)
qed

section \<open>Theorems\<close>

text \<open>With indivisible loads and stores, concurrent lookups alone stay in range: however the accesses of
  any number of threads to one route interleave, the index stays in range, the targets do not change,
  and every result is one of the targets.\<close>

theorem concurrent_lookups_in_range:
  assumes "action_ok ra" "lookup_step\<^sup>*\<^sup>* (at_action ra cap n) s"
  shows "\<not> undefined_access s \<and> unat (next_index (sh_action s)) < length (targets ra) \<and>
    targets (sh_action s) = targets ra \<and> set (returned s) \<subseteq> Some ` set (targets ra)"
  using lookups_ok [OF assms(2) shared_ok_start [OF assms(1)]] by (auto simp: shared_ok_def action_ok_def)

text \<open>C27: Concurrent lookups of one route are a data race. \<open>n\<close> threads that look up a route can reach,
  before any other undefined behaviour, a point where two of them are about to access the same
  variable and one of them is about to write it, exactly when there are at least two threads and the
  route's index is in range; and the variable is always \<^verbatim>\<open>next_index\<close>. (With the index out of range, the
  first thread that uses it is already undefined behaviour, and with no targets nothing is written.)\<close>

theorem concurrent_lookups_race:
  "(\<exists>s. lookup_step\<^sup>*\<^sup>* (at_action ra cap n) s \<and> \<not> undefined_access s \<and> race_on l s) \<longleftrightarrow>
     l = Next_Index \<and> 2 \<le> n \<and> unat (next_index ra) < length (targets ra)"
  using race_needs [of ra cap n _ l] race_reached [of ra n cap] by blast

text \<open>C28: But the rotation is lost, and additions are not safe. A lookup that is not overlapped does what
  \<^verbatim>\<open>GetNextTarget\<close> does; \<open>n\<close> lookups that overlap can all return the same target and move the index by one
  only; and a lookup during which another thread adds a target to a full vector copies from memory that
  was released.\<close>

theorem concurrent_lookups_lose_rotation:
  assumes "action_ok ra" "0 < n"
  shows "lookup_step\<^sup>*\<^sup>* (at_action ra cap n)
      ((at_action ra cap n)\<lparr>sh_action := advance ra, returned := [Some (targets ra ! unat (next_index ra))]\<rparr>) \<and>
    lookup_step\<^sup>*\<^sup>* (at_action ra cap n)
      ((at_action (advance ra) cap n)\<lparr>returned := replicate n (Some (targets ra ! unat (next_index ra)))\<rparr>) \<and>
    (find (same_target conn) (targets ra) = None \<longrightarrow>
      (\<exists>s. thread_step\<^sup>*\<^sup>* (at_action ra (length (targets ra)) 1) s \<and> undefined_access s \<and>
        targets (sh_action s) = targets ra @ [conn]))"
proof (intro conjI impI)
  have "at (at_action ra cap n) 0 Outside" using assms(2) by (simp add: at_def at_action_def)
  from lookup_alone [OF this, of "Some (targets ra ! unat (next_index ra))" "advance ra"] assms(1) GetNextTarget_ok [OF assms(1)]
  show "lookup_step\<^sup>*\<^sup>* (at_action ra cap n)
      ((at_action ra cap n)\<lparr>sh_action := advance ra, returned := [Some (targets ra ! unat (next_index ra))]\<rparr>)"
    by (simp add: at_action_def)
qed (use overlapping_lookups [OF assms] addition_dangles [OF assms(1) refl] in blast)+

section \<open>Witnesses\<close>

definition two_targets :: RouteAction where
  "two_targets = \<lparr>next_index = 0, targets = [http_target ''/a'' False, http_target ''/b'' False]\<rparr>"

lemma two_targets_ok: "action_ok two_targets"
  by (simp add: action_ok_def two_targets_def target_key_def http_target_def)

theorem concurrent_lookups_lose_rotation_witness:
  "lookup_step\<^sup>*\<^sup>* (at_action two_targets 2 2)
     ((at_action (advance two_targets) 2 2)\<lparr>returned :=
        [Some (http_target ''/a'' False), Some (http_target ''/a'' False)]\<rparr>) \<and>
   (\<exists>s. thread_step\<^sup>*\<^sup>* (at_action two_targets 2 1) s \<and> undefined_access s)"
proof -
  have "find (same_target (http_target ''/c'' False)) (targets two_targets) = None"
    by (simp add: two_targets_def same_target_def http_target_def)
  moreover have "targets two_targets ! unat (next_index two_targets) = http_target ''/a'' False" "length (targets two_targets) = 2"
    by (simp_all add: two_targets_def)
  ultimately show ?thesis
    using concurrent_lookups_lose_rotation [OF two_targets_ok, of 2 2 "http_target ''/c'' False"]
    by (auto simp: numeral_2_eq_2)
qed

end
