(* ===== verification/Config_Threads.thy ===== *)
theory Config_Threads
  imports Config
begin

text \<open>
  The configuration on several threads. Some accessors of \<^verbatim>\<open>core/src/config.cc\<close> take \<^verbatim>\<open>g_config_mutex\<close> and some do not;
  here each is the sequence of its operations on the mutex and its accesses to the variables, and threads that
  call accessors interleave them. The theorem says which variables can be accessed in conflict. The contract of
  a variable that the mutex protects is the locale \<open>protected_variable\<close>.
\<close>

section \<open>Accesses\<close>

datatype config_var = Config_Path | Ip_Blacklist | Http_Compression | Https_Flag | Rate_Limiter_Flag |
  Token_Max | Token_Per_Sec | Healthz_List | Port_Number | Jwt_Key

text \<open>An access is a write or a read.\<close>

datatype config_action = Lock | Access config_var bool | Unlock

abbreviation "Read v \<equiv> Access v False"
abbreviation "Write v \<equiv> Access v True"

text \<open>
  The calls: the setters, the getters, and the loop of the health checks, which reads the list through the
  reference that \<^verbatim>\<open>GetHealthzList\<close> returned. \<^verbatim>\<open>std::lock_guard\<close> releases the mutex when the function returns.
\<close>

datatype config_op = Setter config_call | Get_Config_Path | Get_Ip_Black_List | Get_Http_Compression | Get_Https |
  Get_Enable_Rate_Limitor | Get_Rate_Limitor_Config | Iterate_Healthz_List

fun setter_body :: "config_call \<Rightarrow> config_action list" where
  "setter_body (CallSetConfigFilePath path) = [Lock, Write Config_Path, Unlock]"
| "setter_body (CallAddBlacklistIp ip) = [Lock, Write Ip_Blacklist, Unlock]"
| "setter_body (CallRemoveBlacklistIp ip) = [Write Ip_Blacklist]"
| "setter_body (CallSetHttpCompression b) = [Write Http_Compression]"
| "setter_body (CallSetHttps b) = [Write Https_Flag]"
| "setter_body (CallSetEnableRateLimitor b) = [Write Rate_Limiter_Flag]"
| "setter_body (CallConfigRateLimitor m p) =
     [Lock] @ (if m > 0 then [Write Token_Max] else []) @ (if p > 0 then [Write Token_Per_Sec] else []) @ [Unlock]"
| "setter_body (CallAddHealthzList addr) = [Lock, Write Healthz_List, Unlock]"
| "setter_body (CallLoadConfig sc) = [Write Port_Number, Write Jwt_Key]"

fun config_body :: "config_op \<Rightarrow> config_action list" where
  "config_body (Setter call) = setter_body call"
| "config_body Get_Config_Path = [Lock, Read Config_Path, Unlock]"
| "config_body Get_Ip_Black_List = [Lock, Read Ip_Blacklist, Unlock]"
| "config_body Get_Http_Compression = [Lock, Read Http_Compression, Unlock]"
| "config_body Get_Https = [Read Https_Flag]"
| "config_body Get_Enable_Rate_Limitor = [Read Rate_Limiter_Flag]"
| "config_body Get_Rate_Limitor_Config = [Lock, Read Token_Max, Read Token_Per_Sec, Unlock]"
| "config_body Iterate_Healthz_List = [Lock, Unlock, Read Healthz_List]"

section \<open>Threads\<close>

text \<open>The thread that holds the mutex, and what each thread still has to do of its call.\<close>

record config_threads =
  holder :: "nat option"
  todo :: "config_action list list"

inductive config_thread_step :: "config_threads \<Rightarrow> config_threads \<Rightarrow> bool" where
  call: "i < length (todo s) \<Longrightarrow> todo s ! i = [] \<Longrightarrow>
    config_thread_step s (s\<lparr>todo := (todo s)[i := config_body op]\<rparr>)"
| lock: "i < length (todo s) \<Longrightarrow> todo s ! i = Lock # rest \<Longrightarrow> holder s = None \<Longrightarrow>
    config_thread_step s (s\<lparr>holder := Some i, todo := (todo s)[i := rest]\<rparr>)"
| access: "i < length (todo s) \<Longrightarrow> todo s ! i = Access v w # rest \<Longrightarrow>
    config_thread_step s (s\<lparr>todo := (todo s)[i := rest]\<rparr>)"
| unlock: "i < length (todo s) \<Longrightarrow> todo s ! i = Unlock # rest \<Longrightarrow>
    config_thread_step s (s\<lparr>holder := None, todo := (todo s)[i := rest]\<rparr>)"

definition idle_threads :: "nat \<Rightarrow> config_threads" where
  "idle_threads n = \<lparr>holder = None, todo = replicate n []\<rparr>"

text \<open>Two threads are about to access a variable, and one of them is about to write it.\<close>

definition data_race :: "config_var \<Rightarrow> config_threads \<Rightarrow> bool" where
  "data_race v s \<longleftrightarrow> (\<exists>i j w w' rest rest'. i < length (todo s) \<and> j < length (todo s) \<and> i \<noteq> j \<and>
     todo s ! i = Access v w # rest \<and> todo s ! j = Access v w' # rest' \<and> (w \<or> w'))"

section \<open>The contract of a protected variable\<close>

text \<open>A thread that may or may not hold the mutex accesses the variable only while it does, and takes and
  releases the mutex in turns.\<close>

fun disciplined :: "config_var \<Rightarrow> bool \<Rightarrow> config_action list \<Rightarrow> bool" where
  "disciplined v held [] \<longleftrightarrow> \<not> held"
| "disciplined v held (Lock # rest) \<longleftrightarrow> \<not> held \<and> disciplined v True rest"
| "disciplined v held (Unlock # rest) \<longleftrightarrow> held \<and> disciplined v False rest"
| "disciplined v held (Access u w # rest) \<longleftrightarrow> (u = v \<longrightarrow> held) \<and> disciplined v held rest"

definition mutual_exclusion :: "config_var \<Rightarrow> config_threads \<Rightarrow> bool" where
  "mutual_exclusion v s \<longleftrightarrow> (\<forall>i < length (todo s). disciplined v (holder s = Some i) (todo s ! i))"

locale protected_variable =
  fixes v :: config_var
  assumes accessors: "disciplined v False (config_body op)"
begin

lemma step_excludes:
  assumes "config_thread_step s t" "mutual_exclusion v s"
  shows "mutual_exclusion v t"
  using assms(1)
proof (cases rule: config_thread_step.cases)
  case (call i op)
  have "holder s \<noteq> Some i" using assms(2) call by (force simp: mutual_exclusion_def)
  with call assms(2) accessors [of op] show ?thesis by (auto simp: mutual_exclusion_def nth_list_update)
next
  case (lock i rest)
  have "disciplined v True rest" using assms(2) lock by (force simp: mutual_exclusion_def)
  with lock assms(2) show ?thesis by (auto simp: mutual_exclusion_def nth_list_update)
next
  case (access i u w rest)
  have "disciplined v (holder s = Some i) rest" using assms(2) access by (force simp: mutual_exclusion_def)
  with access assms(2) show ?thesis by (auto simp: mutual_exclusion_def nth_list_update)
next
  case (unlock i rest)
  have "disciplined v False rest" "holder s = Some i" using assms(2) unlock by (force simp: mutual_exclusion_def)+
  with unlock assms(2) show ?thesis by (auto simp: mutual_exclusion_def nth_list_update)
qed

lemma run_excludes: "config_thread_step\<^sup>*\<^sup>* (idle_threads n) s \<Longrightarrow> mutual_exclusion v s"
proof (induction rule: rtranclp_induct)
  case base
  show ?case by (simp add: mutual_exclusion_def idle_threads_def)
qed (blast intro: step_excludes)

lemma no_race:
  assumes "config_thread_step\<^sup>*\<^sup>* (idle_threads n) s"
  shows "\<not> data_race v s"
proof
  assume "data_race v s"
  then obtain i j w w' rest rest' where ij: "i < length (todo s)" "j < length (todo s)" "i \<noteq> j"
    "todo s ! i = Access v w # rest" "todo s ! j = Access v w' # rest'" unfolding data_race_def by blast
  have "disciplined v (holder s = Some i) (todo s ! i)" "disciplined v (holder s = Some j) (todo s ! j)"
    using run_excludes [OF assms] ij(1,2) by (simp_all add: mutual_exclusion_def)
  with ij show False by simp
qed

end

lemma setter_disciplined: "v \<in> {Config_Path, Token_Max, Token_Per_Sec} \<Longrightarrow> disciplined v False (setter_body call)"
  by (cases call) auto

lemma body_disciplined: "v \<in> {Config_Path, Token_Max, Token_Per_Sec} \<Longrightarrow> disciplined v False (config_body op)"
  by (cases op) (auto intro: setter_disciplined)

interpretation config_path: protected_variable Config_Path
  by unfold_locales (simp add: body_disciplined)

interpretation token_max: protected_variable Token_Max
  by unfold_locales (simp add: body_disciplined)

interpretation token_per_sec: protected_variable Token_Per_Sec
  by unfold_locales (simp add: body_disciplined)

section \<open>Races\<close>

text \<open>Who holds the mutex after one thread has made some of its steps alone, if it can.\<close>

fun alone :: "nat \<Rightarrow> nat option \<Rightarrow> config_action list \<Rightarrow> nat option option" where
  "alone i h [] = Some h"
| "alone i h (Lock # rest) = (if h = None then alone i (Some i) rest else None)"
| "alone i h (Access v w # rest) = alone i h rest"
| "alone i h (Unlock # rest) = alone i None rest"

lemma alone_steps:
  "alone i (holder s) pre = Some h \<Longrightarrow> i < length (todo s) \<Longrightarrow> todo s ! i = pre @ rest \<Longrightarrow>
   config_thread_step\<^sup>*\<^sup>* s (s\<lparr>holder := h, todo := (todo s)[i := rest]\<rparr>)"
proof (induction i "holder s" pre arbitrary: s rule: alone.induct)
  case (1 i)
  then have "s\<lparr>holder := h, todo := (todo s)[i := rest]\<rparr> = s" using list_update_id [of "todo s" i] by (cases s) simp
  then show ?case by simp
next
  case (2 i pre)
  let ?t = "s\<lparr>holder := Some i, todo := (todo s)[i := pre @ rest]\<rparr>"
  have "config_thread_step s ?t" using 2 by (intro lock) (auto split: if_splits)
  moreover have "config_thread_step\<^sup>*\<^sup>* ?t (?t\<lparr>holder := h, todo := (todo ?t)[i := rest]\<rparr>)"
    using 2 by (intro 2(1)) (auto split: if_splits)
  ultimately show ?case by simp
next
  case (3 i v w pre)
  let ?t = "s\<lparr>todo := (todo s)[i := pre @ rest]\<rparr>"
  have "config_thread_step s ?t" using 3 by (intro access) auto
  moreover have "config_thread_step\<^sup>*\<^sup>* ?t (?t\<lparr>holder := h, todo := (todo ?t)[i := rest]\<rparr>)"
    using 3 by (intro 3(1)) auto
  ultimately show ?case by simp
next
  case (4 i pre)
  let ?t = "s\<lparr>holder := None, todo := (todo s)[i := pre @ rest]\<rparr>"
  have "config_thread_step s ?t" using 4 by (intro unlock) auto
  moreover have "config_thread_step\<^sup>*\<^sup>* ?t (?t\<lparr>holder := h, todo := (todo ?t)[i := rest]\<rparr>)"
    using 4 by (intro 4(1)) auto
  ultimately show ?case by simp
qed

lemma call_alone:
  assumes "i < length (todo s)" "todo s ! i = []" "config_body op = pre @ rest" "alone i (holder s) pre = Some h"
  shows "config_thread_step\<^sup>*\<^sup>* s (s\<lparr>holder := h, todo := (todo s)[i := rest]\<rparr>)"
proof -
  let ?t = "s\<lparr>todo := (todo s)[i := config_body op]\<rparr>"
  have "config_thread_step s ?t" using assms(1,2) by (rule call)
  moreover have "config_thread_step\<^sup>*\<^sup>* ?t (?t\<lparr>holder := h, todo := (todo ?t)[i := rest]\<rparr>)"
    using assms by (intro alone_steps [where pre = pre]) simp_all
  ultimately show ?thesis by simp
qed

lemma two_calls_race:
  assumes "config_body op = pre @ Access v w # rest" "config_body op' = pre' @ Access v w' # rest'" "w \<or> w'"
    and "alone 0 None pre = Some h" "alone 1 h pre' = Some h'"
  shows "\<exists>n s. config_thread_step\<^sup>*\<^sup>* (idle_threads n) s \<and> data_race v s"
proof -
  let ?s = "\<lparr>holder = h, todo = [Access v w # rest, []]\<rparr>"
  let ?t = "\<lparr>holder = h', todo = [Access v w # rest, Access v w' # rest']\<rparr>"
  have "config_thread_step\<^sup>*\<^sup>* (idle_threads 2) ?s"
    using call_alone [of 0 "idle_threads 2" op pre "Access v w # rest" h] assms(1,4)
    by (simp add: idle_threads_def numeral_2_eq_2)
  moreover have "config_thread_step\<^sup>*\<^sup>* ?s ?t"
    using call_alone [of 1 ?s op' pre' "Access v w' # rest'" h'] assms(2,5) by simp
  ultimately have "config_thread_step\<^sup>*\<^sup>* (idle_threads 2) ?t" by (rule rtranclp_trans)
  moreover have "data_race v ?t"
    using assms(3) unfolding data_race_def by (intro exI [of _ 0] exI [of _ 1]) auto
  ultimately show ?thesis by blast
qed

section \<open>Theorem\<close>

text \<open>C29: The mutex protects three variables and no others: threads that call the accessors can be about to access a
  variable in conflict, in some state of some interleaving, exactly when it is not the path of the configuration
  file or one of the two settings of the rate limiter. The blacklist is among the others because
  \<^verbatim>\<open>RemoveBlacklistIp\<close> does not lock, and the list of health checks because it is read after the lock is released.\<close>

theorem mutex_protects_exactly:
  "(\<exists>n s. config_thread_step\<^sup>*\<^sup>* (idle_threads n) s \<and> data_race v s) \<longleftrightarrow> v \<notin> {Config_Path, Token_Max, Token_Per_Sec}"
proof (cases v)
  case Ip_Blacklist
  then show ?thesis
    using two_calls_race [of Get_Ip_Black_List "[Lock]" v False _ "Setter (CallRemoveBlacklistIp ip)" "[]" True] by auto
next
  case Http_Compression
  then show ?thesis
    using two_calls_race [of Get_Http_Compression "[Lock]" v False _ "Setter (CallSetHttpCompression b)" "[]" True] by auto
next
  case Https_Flag
  then show ?thesis using two_calls_race [of Get_Https "[]" v False _ "Setter (CallSetHttps b)" "[]" True] by auto
next
  case Rate_Limiter_Flag
  then show ?thesis
    using two_calls_race [of Get_Enable_Rate_Limitor "[]" v False _ "Setter (CallSetEnableRateLimitor b)" "[]" True] by auto
next
  case Healthz_List
  then show ?thesis
    using two_calls_race [of Iterate_Healthz_List "[Lock, Unlock]" v False _ "Setter (CallAddHealthzList addr)" "[Lock]" True] by auto
next
  case Port_Number
  then show ?thesis
    using two_calls_race [of "Setter (CallLoadConfig c)" "[]" v True _ "Setter (CallLoadConfig c)" "[]" True] by auto
next
  case Jwt_Key
  then show ?thesis
    using two_calls_race [of "Setter (CallLoadConfig c)" "[Write Port_Number]" v True _ "Setter (CallLoadConfig c)" "[Write Port_Number]" True]
    by auto
qed (use config_path.no_race token_max.no_race token_per_sec.no_race in auto)
end
