(* ===== verification/Server.thy ===== *)
theory Server
  imports Proxy_Forward Rate_Limiter
begin

text \<open>
  The server around the handlers: the blacklist filter (\<^verbatim>\<open>core/src/filter.cc\<close>), the dispatcher
  (\<^verbatim>\<open>core/src/dispatcher.cc\<close>) and the accept loop (\<^verbatim>\<open>core/include/server.hpp\<close>). The state holds the
  configuration, the routes, the rate limiter, the clock, the worker threads, the number of outstanding
  \<^verbatim>\<open>async_accept\<close> operations and the connections that are being served. A completion that the I/O context
  delivers to a free worker is a step, and so are a second of time and the calls by which other threads
  reconfigure the gateway or add routes. The tick of the rate limiter's timer is split at its accesses to
  what other threads change: it reads the settings, loads the counter and later stores it, and steps of
  other workers may come in between. The other steps are atomic: what the overlapping accesses of
  \<^verbatim>\<open>GetToken\<close> and of the route tables do is the subject of \<open>Rate_Limiter\<close> and \<open>Router_Threads\<close>.
\<close>

section \<open>Sockets\<close>

record tcp_socket =
  sock_open :: bool
  sock_shutdown :: bool

definition safeCloseSocket :: "tcp_socket option \<Rightarrow> tcp_socket option" where
  "safeCloseSocket sock_ptr =
     (case sock_ptr of
        None \<Rightarrow> None
      | Some sock \<Rightarrow>
          Some (if sock_open sock then sock\<lparr>sock_shutdown := True, sock_open := False\<rparr> else sock))"

text \<open>\<^verbatim>\<open>HttpProxyHandler::Close\<close>, which the destructor calls; errors are only logged.\<close>

definition Close :: "tcp_socket option \<Rightarrow> tcp_socket option" where
  "Close sock_ptr =
     (case sock_ptr of
        None \<Rightarrow> None
      | Some sock \<Rightarrow>
          if sock_open sock then
            (let sock = sock\<lparr>sock_shutdown := True\<rparr>; sock = sock\<lparr>sock_open := False\<rparr> in Some sock)
          else Some sock)"

definition Filter :: "config \<Rightarrow> tcp_socket \<Rightarrow> ConnectionInfo \<Rightarrow> bool \<times> tcp_socket" where
  "Filter cfg accepted_sock connection_info =
     (if downstream_address connection_info \<in> GetIpBlackList cfg
      then (False, accepted_sock\<lparr>sock_open := False\<rparr>)
      else (True, accepted_sock))"

section \<open>TLS\<close>

text \<open>What the TLS library answers: the certificate file, the key file, and the text of a failed handshake.\<close>

record tls =
  certificate_ok :: "string \<Rightarrow> bool"
  private_key_ok :: "string \<Rightarrow> bool"
  handshake_error :: "string option"

definition certificate_unknown :: string where
  "certificate_unknown = ''handshake: ssl/tls alert certificate unknown (SSL routines) [asio.ssl:167773206]''"

text \<open>\<^verbatim>\<open>SslHandshake\<close>: whether it returns a stream.\<close>

definition SslHandshake :: "tls \<Rightarrow> config \<Rightarrow> bool" where
  "SslHandshake t cfg =
     (if \<not> certificate_ok t (g_ssl_crt cfg) then False
      else if \<not> private_key_ok t (g_ssl_key cfg) then False
      else case handshake_error t of
             None \<Rightarrow> True
           | Some what \<Rightarrow> if what \<noteq> certificate_unknown then False else True)"

section \<open>Accepting and dispatching\<close>

record connection =
  conn_ssl :: bool
  conn_sock :: tcp_socket
  conn_handler :: HttpProxyHandler

text \<open>What a handler leaves behind: its socket, and the bytes it has written to the client and to the target.\<close>

record finished_connection =
  fin_sock :: "tcp_socket option"
  fin_client :: string
  fin_upstream :: string

text \<open>
  \<open>started\<close> counts the handlers that were started, \<open>occupied\<close> the calls that never return (each holds
  a worker thread), \<open>relaying\<close> the handlers that have left a pair of WebSocket relays behind. \<open>ticking\<close> is
  how far the running tick of the rate limiter has come, if one is running.
\<close>

datatype tick_pc = TickIdle | TickSettings size_t size_t | TickSum size_t

record server =
  sv_config :: config
  sv_router :: router
  sv_limiter :: TokenBucketRateLimiter
  sv_now :: nat
  sv_threads :: nat
  sv_signals :: signals
  sv_open_files :: nat
  pending_accepts :: nat
  serving :: "connection list"
  finished_conns :: "finished_connection list"
  started :: nat
  occupied :: nat
  relaying :: nat
  ticking :: tick_pc

definition accept :: "server \<Rightarrow> server" where
  "accept sv = sv\<lparr>pending_accepts := pending_accepts sv + 1\<rparr>"

text \<open>\<^verbatim>\<open>HttpProxyHandler::Start\<close>. A new handler is made and it is called.\<close>

definition HttpProxyHandler_Start :: "HttpProxyHandler \<Rightarrow> HttpProxyHandler \<times> next_step" where
  "HttpProxyHandler_Start h = parseRequest h"

definition start_handler :: "bool \<Rightarrow> HttpProxyHandler \<Rightarrow> tcp_socket \<Rightarrow> ConnectionInfo \<Rightarrow> server \<Rightarrow> server" where
  "start_handler is_ssl undef sock source sv =
     (case HttpProxyHandler_Start (new_handler undef source) of
        (h, Wait _) \<Rightarrow>
          sv\<lparr>serving := serving sv @ [\<lparr>conn_ssl = is_ssl, conn_sock = sock, conn_handler = h\<rparr>], started := started sv + 1\<rparr>
      | (h, _) \<Rightarrow> sv\<lparr>pending_accepts := pending_accepts sv + accepts h, started := started sv + 1\<rparr>)"

definition Dispatch :: "tls \<Rightarrow> HttpProxyHandler \<Rightarrow> tcp_socket \<Rightarrow> ConnectionInfo \<Rightarrow> server \<Rightarrow> server" where
  "Dispatch t undef sock source sv =
     (let (token_ok, l) = (if g_enable_rate_limiter (sv_config sv) then GetToken (sv_limiter sv)
                           else (True, sv_limiter sv));
          sv = sv\<lparr>sv_limiter := l\<rparr>
      in if g_enable_rate_limiter (sv_config sv) \<and> \<not> token_ok then accept sv
         else if GetHttps (sv_config sv) then
           if \<not> SslHandshake t (sv_config sv) then accept sv
           else accept (start_handler True undef sock source sv)
         else accept (start_handler False undef sock source sv))"

datatype accept_event = AcceptFailed | NoEndpoint | AcceptedFrom string

definition onAccept ::
  "tls \<Rightarrow> HttpProxyHandler \<Rightarrow> bool \<Rightarrow> accept_event \<Rightarrow> tcp_socket \<Rightarrow> server \<Rightarrow> server \<times> tcp_socket option" where
  "onAccept t undef undef_remote ev sock sv =
     (case ev of
        AcceptFailed \<Rightarrow> (accept sv, safeCloseSocket (Some sock))
      | NoEndpoint \<Rightarrow> (accept sv, safeCloseSocket (Some sock))
      | AcceptedFrom addr \<Rightarrow>
          (let src_conn_info = (new_connection undef_remote)\<lparr>downstream_address := addr\<rparr> in
           case Filter (sv_config sv) sock src_conn_info of
             (False, sock) \<Rightarrow> (accept sv, safeCloseSocket (Some sock))
           | (True, sock) \<Rightarrow> (accept (Dispatch t undef sock src_conn_info sv), Some sock)))"

text \<open>
  The constructor of \<^verbatim>\<open>Server\<close> at time \<open>now\<close>, which starts the timer of the rate limiter, and \<^verbatim>\<open>Run\<close>: one accept,
  then as many threads as are configured, which run the I/O context.
\<close>

definition new_server :: "config \<Rightarrow> router \<Rightarrow> signals \<Rightarrow> nat \<Rightarrow> server" where
  "new_server cfg r sigs now =
     \<lparr>sv_config = cfg, sv_router = r, sv_limiter = Start (new_limiter cfg now), sv_now = now, sv_threads = 0,
      sv_signals = sigs, sv_open_files = 0, pending_accepts = 0, serving = [], finished_conns = [], started = 0, occupied = 0,
      relaying = 0, ticking = TickIdle\<rparr>"

definition Run :: "server \<Rightarrow> server" where
  "Run sv = (accept sv)\<lparr>sv_threads := unat (g_num_threads (sv_config sv))\<rparr>"

section \<open>The steps of a running server\<close>

text \<open>
  What the handler's surroundings answer while it serves one request. \<open>env_reads\<close> is everything that the
  client sends after the header, to the end of the connection: when the call that serves the request is
  still reading after all of it, it is waiting for bytes that do not come, and no later step resumes it.
\<close>

record ('f, 'z) surroundings =
  env_sse :: bool
  env_beast :: "'f beast"
  env_network :: network
  env_zlib :: "'z zlib"
  env_files :: filesystem
  env_memory :: memory
  env_client :: socket
  env_reads :: "body_read list"
  env_upstream :: socket

definition remove_nth :: "nat \<Rightarrow> 'a list \<Rightarrow> 'a list" where
  "remove_nth i xs = take i xs @ drop (Suc i) xs"

text \<open>
  The end of a handler: nothing refers to it any more, so its destructor closes the socket. The calls of
  the callback that it made are accepts of the server.
\<close>

definition delete_HttpProxyHandler :: "tcp_socket option \<Rightarrow> tcp_socket option" where
  "delete_HttpProxyHandler sock_ptr = Close sock_ptr"

definition handler_done :: "nat \<Rightarrow> HttpProxyHandler \<Rightarrow> string \<Rightarrow> string \<Rightarrow> server \<Rightarrow> server" where
  "handler_done i h to_client to_target sv =
     sv\<lparr>serving := remove_nth i (serving sv),
        finished_conns := finished_conns sv @ [\<lparr>fin_sock = delete_HttpProxyHandler (Some (conn_sock (serving sv ! i))),
          fin_client = to_client, fin_upstream = to_target\<rparr>],
        pending_accepts := pending_accepts sv + (accepts h - accepts (conn_handler (serving sv ! i)))\<rparr>"

definition handler_event :: "('f, 'z) surroundings \<Rightarrow> nat \<Rightarrow> read_event \<Rightarrow> server \<Rightarrow> server outcome" where
  "handler_event env i ev sv =
     (let conn = serving sv ! i in
      bind_outcome (onRead (env_sse env) ev (conn_handler conn)) (\<lambda>(h, step).
        case step of
          Wait _ \<Rightarrow> Val (sv\<lparr>serving := (serving sv)[i := conn\<lparr>conn_handler := h\<rparr>]\<rparr>)
        | Stop \<Rightarrow> Val (handler_done i h (sent (env_client env)) (sent (env_upstream env)) sv)
        | Extract \<Rightarrow>
            bind_outcome
              (serve_request (sv_config sv) (env_beast env) (env_network env) (env_zlib env) (env_files env)
                 (env_memory env) (conn_ssl conn) (sv_router sv)
                 \<lparr>handler = h, client = env_client env, client_reads = env_reads env, upstream = env_upstream env,
                  open_files = sv_open_files sv\<rparr>)
              (\<lambda>(p, ex, r).
                 let sv = sv\<lparr>sv_router := r, sv_open_files := open_files ex\<rparr> in
                 case p of
                   Returned \<Rightarrow> Val (handler_done i (handler ex) (sent (client ex)) (sent (upstream ex)) sv)
                 | Running \<Rightarrow> Val (sv\<lparr>serving := remove_nth i (serving sv), occupied := occupied sv + 1\<rparr>)
                 | Relaying \<Rightarrow> Val (sv\<lparr>serving := remove_nth i (serving sv), relaying := relaying sv + 1\<rparr>))))"

text \<open>Calls that add a route while the gateway runs.\<close>

datatype route_call =
    CallAddPrefixMatchRoute bool string string bool
  | CallAddPathMatchRoute size_t string string bool

fun route_call_step :: "route_call \<Rightarrow> router \<Rightarrow> router" where
  "route_call_step (CallAddPrefixMatchRoute undef_remote u t l) = AddPrefixMatchRoute undef_remote u t l"
| "route_call_step (CallAddPathMatchRoute undef_index u t l) = AddPathMatchRoute undef_index u t l"

datatype ('f, 'z) event =
    AcceptDone tls HttpProxyHandler bool accept_event tcp_socket
  | ReadDone "('f, 'z) surroundings" nat read_event
  | TickBegin
  | TickLoad
  | TickStore
  | ClockSecond
  | Reconfigure config_call
  | AddRoute route_call

text \<open>
  The steps. A completion needs a worker thread that is not busy. A completed accept uses up one
  outstanding operation; a read gives at most the bytes that fit behind those in the buffer. A tick begins
  when a wait on the timer is pending and its time has come: \<^verbatim>\<open>performTask\<close> reads the settings, then loads
  the counter and computes the sum, then stores it, and \<^verbatim>\<open>tick\<close> moves the expiry and waits again. A route is
  added while the table has room.
\<close>

definition fits_header_buf :: "read_event \<Rightarrow> HttpProxyHandler \<Rightarrow> bool" where
  "fits_header_buf ev h \<longleftrightarrow>
     (case ev of ReadError \<Rightarrow> True | ReadBytes bytes \<Rightarrow> total_parsed h + length bytes \<le> kMaxHttpHeaderSize)"

definition busy_workers :: "server \<Rightarrow> nat" where
  "busy_workers sv = occupied sv + (if ticking sv = TickIdle then 0 else 1)"

definition free_worker :: "server \<Rightarrow> bool" where
  "free_worker sv \<longleftrightarrow> busy_workers sv < sv_threads sv"

inductive server_step :: "('f, 'z) event \<Rightarrow> server \<Rightarrow> server \<Rightarrow> bool" where
  accept_done: "free_worker sv \<Longrightarrow> 0 < pending_accepts sv \<Longrightarrow> length (header_buf undef) = kMaxHttpHeaderSize \<Longrightarrow>
    server_step (AcceptDone t undef b ev sock) sv
      (fst (onAccept t undef b ev sock (sv\<lparr>pending_accepts := pending_accepts sv - 1\<rparr>)))"
| read_done: "free_worker sv \<Longrightarrow> i < length (serving sv) \<Longrightarrow> fits_header_buf ev (conn_handler (serving sv ! i)) \<Longrightarrow>
    handler_event env i ev sv = Val sv' \<Longrightarrow> server_step (ReadDone env i ev) sv sv'"
| tick_begin: "free_worker sv \<Longrightarrow> timer_armed (sv_limiter sv) \<Longrightarrow> timer_expiry (sv_limiter sv) \<le> sv_now sv \<Longrightarrow>
    GetRateLimitorConfig (sv_config sv) = (num_token_max, num_token_per_sec) \<Longrightarrow>
    server_step TickBegin sv (sv\<lparr>sv_limiter := (sv_limiter sv)\<lparr>timer_armed := False\<rparr>,
      ticking := TickSettings num_token_max num_token_per_sec\<rparr>)"
| tick_load: "ticking sv = TickSettings num_token_max num_token_per_sec \<Longrightarrow>
    server_step TickLoad sv (sv\<lparr>ticking := TickSum (refilled (n_token (sv_limiter sv)) num_token_max num_token_per_sec)\<rparr>)"
| tick_store: "ticking sv = TickSum new_token_num \<Longrightarrow>
    server_step TickStore sv (sv\<lparr>sv_limiter := tick_store new_token_num (sv_limiter sv), ticking := TickIdle\<rparr>)"
| clock_second: "server_step ClockSecond sv (sv\<lparr>sv_now := sv_now sv + 1\<rparr>)"
| reconfigure: "server_step (Reconfigure call) sv (sv\<lparr>sv_config := config_step call (sv_config sv)\<rparr>)"
| add_route: "router_room (sv_router sv) \<Longrightarrow>
    server_step (AddRoute call) sv (sv\<lparr>sv_router := route_call_step call (sv_router sv)\<rparr>)"

text \<open>When each event can happen, and to which state it leads.\<close>

inductive_simps accept_step: "server_step (AcceptDone t undef b ev sock) sv sv'"
inductive_simps read_step: "server_step (ReadDone env i ev) sv sv'"

inductive server_run :: "('f, 'z) event list \<Rightarrow> server \<Rightarrow> server \<Rightarrow> bool" where
  run_refl: "server_run [] sv sv"
| run_step: "server_run es sv sv1 \<Longrightarrow> server_step e sv1 sv2 \<Longrightarrow> server_run (es @ [e]) sv sv2"

lemma run_append: "server_run es' sv1 sv2 \<Longrightarrow> server_run es sv sv1 \<Longrightarrow> server_run (es @ es') sv sv2"
proof (induction rule: server_run.induct)
  case (run_step es' sv1 sv2 e sv3)
  then show ?case using server_run.run_step [of "es @ es'" sv sv2 e sv3] by simp
qed simp

lemma run_two: "server_step e1 sv sv1 \<Longrightarrow> server_step e2 sv1 sv2 \<Longrightarrow> server_run [e1, e2] sv sv2"
  using server_run.run_step [OF server_run.run_step [OF server_run.run_refl, of e1 sv sv1], of e2 sv2] by simp

text \<open>The accesses of a tick that no other step comes between are a \<open>tick\<close>.\<close>

lemma undisturbed_tick:
  assumes "free_worker sv" "timer_armed (sv_limiter sv)" "timer_expiry (sv_limiter sv) \<le> sv_now sv" "ticking sv = TickIdle"
  shows "server_run [TickBegin, TickLoad, TickStore] sv (sv\<lparr>sv_limiter := tick (sv_config sv) (sv_limiter sv)\<rparr>)"
proof -
  let ?m = "g_num_token_max (sv_config sv)" and ?p = "g_num_token_per_sec (sv_config sv)"
  let ?sv1 = "sv\<lparr>sv_limiter := (sv_limiter sv)\<lparr>timer_armed := False\<rparr>, ticking := TickSettings ?m ?p\<rparr>"
  let ?sv2 = "?sv1\<lparr>ticking := TickSum (refilled (n_token (sv_limiter sv)) ?m ?p)\<rparr>"
  have "server_step TickBegin sv ?sv1" using assms by (intro tick_begin) (simp_all add: GetRateLimitorConfig_def)
  moreover have "server_step TickLoad ?sv1 ?sv2" using tick_load [of ?sv1 ?m ?p] by simp
  ultimately have run: "server_run [TickBegin, TickLoad] sv ?sv2" by (rule run_two)
  have "server_step TickStore ?sv2 (sv\<lparr>sv_limiter := tick (sv_config sv) (sv_limiter sv)\<rparr>)"
    using tick_store [of ?sv2 "refilled (n_token (sv_limiter sv)) ?m ?p"] assms(4)
    by (cases sv) (simp add: tick_split tick_store_def)
  from server_run.run_step [OF run this] show ?thesis by simp
qed

section \<open>Invariants of all runs\<close>

text \<open>A property of the events so far and the state that every step keeps holds in every run.\<close>

locale step_invariant =
  fixes good :: "('f, 'z) event list \<Rightarrow> server \<Rightarrow> bool"
  assumes preserved: "good es sv \<Longrightarrow> server_step e sv sv' \<Longrightarrow> good (es @ [e]) sv'"
begin

lemma run_keeps: "server_run es sv sv' \<Longrightarrow> good [] sv \<Longrightarrow> good es sv'"
  by (induction rule: server_run.induct) (auto intro: preserved)

end

lemma set_remove_nth: "set (remove_nth i xs) \<subseteq> set xs"
  by (auto simp: remove_nth_def dest: in_set_takeD in_set_dropD)

lemma length_remove_nth: "i < length xs \<Longrightarrow> Suc (length (remove_nth i xs)) = length xs"
  by (simp add: remove_nth_def)

lemma onRead_facts:
  assumes "onRead sse ev h = Val (h', step)"
  shows "accepts h' = accepts h + (if step = Stop then 1 else 0)"
    and "source_connection_info h' = source_connection_info h"
    and "handler_ok h \<Longrightarrow> fits_header_buf ev h \<Longrightarrow> step = Wait n \<Longrightarrow> handler_ok h'"
proof -
  note defs = onRead_def Let_def parseRequest_def async_accpet_cb_def
  show "accepts h' = accepts h + (if step = Stop then 1 else 0)"
    using assms by (cases ev) (auto simp: defs split: if_splits)
  show "source_connection_info h' = source_connection_info h"
    using assms by (cases ev) (auto simp: defs deliver_def split: if_splits)
  assume ok: "handler_ok h" "fits_header_buf ev h" "step = Wait n"
  then obtain bytes where ev: "ev = ReadBytes bytes" using assms by (cases ev) (auto simp: defs)
  then have "handler_ok (arrived bytes h)" using ok by (intro arrived_ok(1)) (simp_all add: fits_header_buf_def)
  with assms ok(3) ev show "handler_ok h'" by (auto simp: defs split: if_splits)
qed

lemma start_handler_simps [simp]:
  "start_handler is_ssl undef sock source sv =
     sv\<lparr>serving := serving sv @ [\<lparr>conn_ssl = is_ssl, conn_sock = sock, conn_handler = new_handler undef source\<rparr>],
        started := started sv + 1\<rparr>"
  by (simp add: start_handler_def HttpProxyHandler_Start_def parseRequest_def new_handler_def kMaxHttpHeaderSize_def)

lemma serve_request_facts:
  assumes "serve_request cfg b net z fs mem is_ssl r ex = Val (p, ex', r')"
  shows "p = Returned \<Longrightarrow> accepts (handler ex) < accepts (handler ex')" and "router_shaped r \<Longrightarrow> router_shaped r'"
proof -
  obtain ok h where meta: "extractMetadata cfg (handler ex) = (ok, h)" by fastforce
  have acc: "accepts h = accepts (handler ex) + (if ok then 0 else 1)"
    using meta by (auto simp: extractMetadata_def Let_def store_meta_def async_accpet_cb_def split: prod.splits if_splits)
  show "accepts (handler ex) < accepts (handler ex')" if "p = Returned"
  proof (cases ok)
    case True
    then have "route b net z fs mem is_ssl r (ex\<lparr>handler := h\<rparr>) = Val (p, ex', r')"
      using assms meta by (simp add: serve_request_def)
    from route_accepts [OF this] that acc True show ?thesis
      by (auto split: outcome.splits prod.splits option.splits if_splits)
  qed (use assms meta acc in \<open>auto simp: serve_request_def\<close>)
  show "router_shaped r'" if "router_shaped r"
  proof (cases ok)
    case True
    then have "route b net z fs mem is_ssl r (ex\<lparr>handler := h\<rparr>) = Val (p, ex', r')"
      using assms meta by (simp add: serve_request_def)
    with route_router that show ?thesis using GetRouteTarget_keeps_shaped by blast
  qed (use assms meta that in \<open>auto simp: serve_request_def\<close>)
qed

lemma handler_event_cases:
  assumes "handler_event env i ev sv = Val sv'"
  obtains (waits) h n where "onRead (env_sse env) ev (conn_handler (serving sv ! i)) = Val (h, Wait n)"
      and "sv' = sv\<lparr>serving := (serving sv)[i := (serving sv ! i)\<lparr>conn_handler := h\<rparr>]\<rparr>"
    | (finished) h r to_client to_target fds where "accepts (conn_handler (serving sv ! i)) < accepts h"
      and "router_shaped (sv_router sv) \<longrightarrow> router_shaped r" 
      and "sv' = handler_done i h to_client to_target (sv\<lparr>sv_router := r, sv_open_files := fds\<rparr>)"
    | (leaves) r fds where "router_shaped (sv_router sv) \<longrightarrow> router_shaped r"
      and "sv' = sv\<lparr>sv_router := r, sv_open_files := fds, serving := remove_nth i (serving sv), occupied := occupied sv + 1\<rparr> \<or>
        sv' = sv\<lparr>sv_router := r, sv_open_files := fds, serving := remove_nth i (serving sv), relaying := relaying sv + 1\<rparr>"
proof -
  let ?conn = "serving sv ! i"
  obtain h step where read: "onRead (env_sse env) ev (conn_handler ?conn) = Val (h, step)"
    using assms by (auto simp: handler_event_def Let_def)
  note facts = onRead_facts(1) [OF read]
  show thesis
  proof (cases step)
    case (Wait n)
    with read assms show thesis by (intro waits) (auto simp: handler_event_def Let_def)
  next
    case Stop
    with read assms facts show thesis
      by (intro finished [of h "sv_router sv" "sent (env_client env)" "sent (env_upstream env)" "sv_open_files sv"]) (auto simp: handler_event_def Let_def)
  next
    case Extract
    let ?ex = "\<lparr>handler = h, client = env_client env, client_reads = env_reads env, upstream = env_upstream env,
                  open_files = sv_open_files sv\<rparr>"
    from Extract read assms obtain p ex r where
      serve: "serve_request (sv_config sv) (env_beast env) (env_network env) (env_zlib env) (env_files env)
        (env_memory env) (conn_ssl ?conn) (sv_router sv) ?ex = Val (p, ex, r)"
      by (auto simp: handler_event_def Let_def)
    note served = serve_request_facts [OF serve]
    show thesis
    proof (cases "p = Returned")
      case True
      with Extract read assms serve served facts show thesis
        by (intro finished [of "handler ex" r "sent (client ex)" "sent (upstream ex)" "open_files ex"]) (auto simp: handler_event_def Let_def)
    next
      case False
      with served Extract read assms serve show thesis
        by (intro leaves [of r "open_files ex"]) (cases p; simp add: handler_event_def Let_def)+
    qed
  qed
qed

subsection \<open>Every accepted connection leaves accepts behind\<close>

definition accepts_inv :: "('f, 'z) event list \<Rightarrow> server \<Rightarrow> bool" where
  "accepts_inv es sv \<longleftrightarrow> length (serving sv) + occupied sv + relaying sv \<le> started sv \<and>
     1 + 2 * started sv \<le> pending_accepts sv + length (serving sv) + occupied sv + relaying sv"

lemma onAccept_counts:
  assumes "sv' = fst (onAccept t undef b ev sock sv)"
  shows "occupied sv' = occupied sv \<and> relaying sv' = relaying sv \<and> sv_threads sv' = sv_threads sv \<and> sv_now sv' = sv_now sv \<and> ticking sv' = ticking sv \<and>
    ((started sv' = started sv \<and> serving sv' = serving sv \<and> pending_accepts sv < pending_accepts sv') \<or>
     (started sv' = Suc (started sv) \<and> length (serving sv') = Suc (length (serving sv)) \<and>
      pending_accepts sv' = pending_accepts sv + 2))"
  unfolding assms
  by (auto simp: onAccept_def Dispatch_def accept_def Let_def split: accept_event.split prod.split bool.split)

interpretation counted: step_invariant accepts_inv
proof
  fix es :: "('f, 'z) event list" and sv sv' :: server and e :: "('f, 'z) event"
  assume inv: "accepts_inv es sv" and step: "server_step e sv sv'"
  show "accepts_inv (es @ [e]) sv'"
    using step
  proof (cases rule: server_step.cases)
    case (accept_done undef t b ev sock)
    with inv onAccept_counts [OF refl, of t undef b ev sock "sv\<lparr>pending_accepts := pending_accepts sv - 1\<rparr>"]
    show ?thesis by (auto simp: accepts_inv_def)
  next
    case (read_done i ev env)
    from read_done(5) show ?thesis
    proof (cases rule: handler_event_cases)
      case (waits h n)
      with inv show ?thesis by (simp add: accepts_inv_def)
    next
      case (finished h r to_client to_target fds)
      with inv read_done(3) length_remove_nth [of i "serving sv"] show ?thesis
        by (auto simp: accepts_inv_def handler_done_def)
    next
      case (leaves r fds)
      with inv read_done(3) length_remove_nth [of i "serving sv"] show ?thesis by (auto simp: accepts_inv_def)
    qed
  qed (use inv in \<open>auto simp: accepts_inv_def\<close>)
qed

subsection \<open>The state stays well formed\<close>

definition state_inv :: "('f, 'z) event list \<Rightarrow> server \<Rightarrow> bool" where
  "state_inv es sv \<longleftrightarrow> busy_workers sv \<le> sv_threads sv \<and> (\<forall>c \<in> set (serving sv). handler_ok (conn_handler c)) \<and>
     (\<forall>f \<in> set (finished_conns sv). \<exists>sock. fin_sock f = Some sock \<and> \<not> sock_open sock) \<and>
     config_ok (sv_config sv) \<and> router_shaped (sv_router sv)"

text \<open>An accept changes neither the configuration nor the routes, and what it adds is a fresh handler for
  an address that is not on the blacklist.\<close>

lemma onAccept_serving:
  assumes "length (header_buf undef) = kMaxHttpHeaderSize" and "sv' = fst (onAccept t undef b ev sock sv)"
  shows "sv_config sv' = sv_config sv \<and> sv_router sv' = sv_router sv \<and> finished_conns sv' = finished_conns sv \<and>
    (serving sv' = serving sv \<or>
     (\<exists>c. serving sv' = serving sv @ [c] \<and> handler_ok (conn_handler c) \<and>
        downstream_address (source_connection_info (conn_handler c)) \<notin> GetIpBlackList (sv_config sv)))"
proof -
  have "handler_ok (new_handler undef source) \<and> source_connection_info (new_handler undef source) = source" for source
    using new_handler_ok [OF assms(1)] by (simp add: new_handler_def)
  then show ?thesis
    unfolding assms(2) by (auto simp: onAccept_def Dispatch_def Filter_def accept_def Let_def
        split: accept_event.split prod.split)
qed

lemma deleted_closed: "\<exists>sock'. delete_HttpProxyHandler (Some sock) = Some sock' \<and> \<not> sock_open sock'"
  by (simp add: delete_HttpProxyHandler_def Close_def Let_def)

text \<open>What a read leaves of the served connections.\<close>

lemma handler_event_serving:
  assumes "handler_event env i ev sv = Val sv'" "i < length (serving sv)"
  shows "sv_config sv' = sv_config sv" "sv_threads sv' = sv_threads sv" "sv_now sv' = sv_now sv" "sv_limiter sv' = sv_limiter sv"
    "started sv' = started sv" "occupied sv' \<le> Suc (occupied sv)" "router_shaped (sv_router sv) \<Longrightarrow> router_shaped (sv_router sv')"
    "f \<in> set (finished_conns sv') \<Longrightarrow> f \<in> set (finished_conns sv) \<or> (\<exists>sock. fin_sock f = Some sock \<and> \<not> sock_open sock)"
    "ticking sv' = ticking sv"
    and "c \<in> set (serving sv') \<Longrightarrow> fits_header_buf ev (conn_handler (serving sv ! i)) \<Longrightarrow>
      \<exists>d \<in> set (serving sv). source_connection_info (conn_handler c) = source_connection_info (conn_handler d) \<and>
        (handler_ok (conn_handler d) \<longrightarrow> handler_ok (conn_handler c))"
proof -
  have conn: "serving sv ! i \<in> set (serving sv)" using assms(2) by simp
  show "sv_config sv' = sv_config sv" "sv_threads sv' = sv_threads sv" "sv_now sv' = sv_now sv"
    "sv_limiter sv' = sv_limiter sv" "started sv' = started sv" "occupied sv' \<le> Suc (occupied sv)"
    "ticking sv' = ticking sv"
    using assms(1) by (cases rule: handler_event_cases; auto simp: handler_done_def)+
  show "router_shaped (sv_router sv')" if "router_shaped (sv_router sv)"
    using assms(1) that by (cases rule: handler_event_cases) (auto simp: handler_done_def)
  show "f \<in> set (finished_conns sv') \<Longrightarrow> f \<in> set (finished_conns sv) \<or> (\<exists>sock. fin_sock f = Some sock \<and> \<not> sock_open sock)"
    using assms(1) deleted_closed by (cases rule: handler_event_cases) (auto simp: handler_done_def)
  assume c: "c \<in> set (serving sv')" and fits: "fits_header_buf ev (conn_handler (serving sv ! i))"
  from assms(1) show "\<exists>d \<in> set (serving sv). source_connection_info (conn_handler c) = source_connection_info (conn_handler d) \<and>
      (handler_ok (conn_handler d) \<longrightarrow> handler_ok (conn_handler c))"
  proof (cases rule: handler_event_cases)
    case (waits h n)
    then have "c \<in> set (serving sv) \<or> c = (serving sv ! i)\<lparr>conn_handler := h\<rparr>"
      using c set_update_subset_insert [of "serving sv" i] by auto
    then show ?thesis using conn onRead_facts(2,3) [OF waits(1)] fits by auto
  next
    case (finished h r to_client to_target fds)
    with c set_remove_nth [of i "serving sv"] show ?thesis by (auto simp: handler_done_def)
  next
    case (leaves r fds)
    with c set_remove_nth [of i "serving sv"] show ?thesis by auto
  qed
qed

lemma route_call_shaped [inv_intro]:
  "router_shaped r \<Longrightarrow> router_room r \<Longrightarrow> router_shaped (route_call_step call r)"
  by (cases call) (simp_all add: AddPrefixMatchRoute_shaped AddPathMatchRoute_shaped)

interpretation well_formed: step_invariant state_inv
proof
  fix es :: "('f, 'z) event list" and sv sv' :: server and e :: "('f, 'z) event"
  assume inv: "state_inv es sv" and step: "server_step e sv sv'"
  show "state_inv (es @ [e]) sv'"
    using step
  proof (cases rule: server_step.cases)
    case (accept_done undef t b ev sock)
    with inv onAccept_serving [OF accept_done(5) accept_done(2)] onAccept_counts [OF accept_done(2)] show ?thesis
      by (auto simp: state_inv_def busy_workers_def)
  next
    case (read_done i ev env)
    note facts = handler_event_serving [OF read_done(5,3)]
    have "handler_ok (conn_handler c)" if "c \<in> set (serving sv')" for c
      using inv facts(10) [OF that read_done(4)] by (auto simp: state_inv_def)
    moreover have "busy_workers sv' \<le> sv_threads sv'"
      using facts(2,6,9) read_done(2) by (auto simp: free_worker_def busy_workers_def split: if_splits)
    ultimately show ?thesis using inv facts(1,2,7,8) by (fastforce simp: state_inv_def)
  next
    case (reconfigure call)
    with inv config_step_ok show ?thesis by (auto simp: state_inv_def busy_workers_def)
  next
    case (add_route call)
    with inv route_call_shaped show ?thesis by (auto simp: state_inv_def busy_workers_def)
  qed (use inv in \<open>auto simp: state_inv_def busy_workers_def free_worker_def split: if_splits\<close>)
qed

subsection \<open>No connection from a blacklisted address is served\<close>

text \<open>The address \<open>ip\<close> stays on the blacklist unless a call takes it off.\<close>

definition shielded_inv :: "string \<Rightarrow> ('f, 'z) event list \<Rightarrow> server \<Rightarrow> bool" where
  "shielded_inv ip es sv \<longleftrightarrow> (Reconfigure (CallRemoveBlacklistIp ip) \<notin> set es \<longrightarrow>
     ip \<in> g_ip_blacklist (sv_config sv) \<and>
     (\<forall>c \<in> set (serving sv). downstream_address (source_connection_info (conn_handler c)) \<noteq> ip))"

lemma config_step_keeps_listed:
  "ip \<in> g_ip_blacklist cfg \<Longrightarrow> call \<noteq> CallRemoveBlacklistIp ip \<Longrightarrow> ip \<in> g_ip_blacklist (config_step call cfg)"
  by (cases call) (auto simp: cpp_defs Let_def)

interpretation shielded: step_invariant "shielded_inv ip" for ip
proof
  fix es :: "('f, 'z) event list" and sv sv' :: server and e :: "('f, 'z) event"
  assume inv: "shielded_inv ip es sv" and step: "server_step e sv sv'"
  show "shielded_inv ip (es @ [e]) sv'"
    using step
  proof (cases rule: server_step.cases)
    case (accept_done undef t b ev sock)
    with inv onAccept_serving [OF accept_done(5) accept_done(2)] show ?thesis
      by (auto simp: shielded_inv_def GetIpBlackList_def)
  next
    case (read_done i ev env)
    note facts = handler_event_serving [OF read_done(5,3)]
    have "downstream_address (source_connection_info (conn_handler c)) \<noteq> ip"
      if "c \<in> set (serving sv')" "Reconfigure (CallRemoveBlacklistIp ip) \<notin> set es" for c
      using inv facts(10) [OF that(1) read_done(4)] that(2) by (auto simp: shielded_inv_def)
    with inv facts(1) show ?thesis by (auto simp: shielded_inv_def)
  next
    case (reconfigure call)
    with inv config_step_keeps_listed show ?thesis by (auto simp: shielded_inv_def)
  qed (use inv in \<open>auto simp: shielded_inv_def\<close>)
qed

subsection \<open>The rate of new handlers\<close>

text \<open>A refill adds at most the configured rate, also when the counter wraps around.\<close>

lemma refilled_adds_at_most: "unat (refilled n m p) \<le> unat n + unat p"
proof -
  have sum: "unat (n + p) \<le> unat n + unat p" by (simp add: unat_word_ariths)
  then have "unat m \<le> unat n + unat p" if "m < n + p" using that by (simp add: word_less_nat_alt)
  with sum show ?thesis by (simp add: refilled_def Let_def)
qed

text \<open>Every setting of the rate is at most \<open>R\<close> tokens for each second, and the limiter is never switched off.\<close>

definition rate_kept :: "nat \<Rightarrow> ('f, 'z) event list \<Rightarrow> bool" where
  "rate_kept R es \<longleftrightarrow> Reconfigure (CallSetEnableRateLimitor False) \<notin> set es \<and>
     (\<forall>m p. Reconfigure (CallConfigRateLimitor m p) \<in> set es \<longrightarrow> unat p \<le> R)"

lemma rate_kept_snoc: "rate_kept R (es @ [e]) \<Longrightarrow> rate_kept R es"
  by (auto simp: rate_kept_def)

text \<open>
  The accepted connections that come between the load and the store of a tick: a token that one of them
  takes is put back by the store. \<open>in_window\<close> says whether the last event falls into such a window.
\<close>

fun in_window :: "bool \<Rightarrow> ('f, 'z) event list \<Rightarrow> bool" where
  "in_window w [] = w"
| "in_window w (TickLoad # es) = in_window True es"
| "in_window w (TickStore # es) = in_window False es"
| "in_window w (e # es) = in_window w es"

fun accepts_in_windows :: "bool \<Rightarrow> ('f, 'z) event list \<Rightarrow> nat" where
  "accepts_in_windows w [] = 0"
| "accepts_in_windows w (TickLoad # es) = accepts_in_windows True es"
| "accepts_in_windows w (TickStore # es) = accepts_in_windows False es"
| "accepts_in_windows w (AcceptDone t undef b ev sock # es) = (if w then 1 else 0) + accepts_in_windows w es"
| "accepts_in_windows w (e # es) = accepts_in_windows w es"

lemma window_snoc:
  "in_window w (es @ [e]) = in_window (in_window w es) [e]"
  "accepts_in_windows w (es @ [e]) = accepts_in_windows w es + accepts_in_windows (in_window w es) [e]"
proof -
  show "in_window w (es @ [e]) = in_window (in_window w es) [e]"
    by (induction w es rule: in_window.induct) simp_all
  show "accepts_in_windows w (es @ [e]) = accepts_in_windows w es + accepts_in_windows (in_window w es) [e]"
    by (induction w es rule: accepts_in_windows.induct) simp_all
qed

text \<open>
  Handlers and tokens left are paid for by the burst, the ticks and the connections accepted in windows;
  the ticks by the time that went by. While a tick is between its load and its store, the sum that it is
  going to store is paid for as well.
\<close>

definition paid :: "nat \<Rightarrow> nat \<Rightarrow> nat \<Rightarrow> ('f, 'z) event list \<Rightarrow> server \<Rightarrow> nat" where
  "paid R burst begun es sv =
     burst + (timer_expiry (sv_limiter sv) - begun - 1) * R + accepts_in_windows False es"

definition rate_inv :: "nat \<Rightarrow> nat \<Rightarrow> nat \<Rightarrow> ('f, 'z) event list \<Rightarrow> server \<Rightarrow> bool" where
  "rate_inv R burst begun es sv \<longleftrightarrow> (rate_kept R es \<longrightarrow>
     g_enable_rate_limiter (sv_config sv) \<and> unat (g_num_token_per_sec (sv_config sv)) \<le> R \<and>
     begun < timer_expiry (sv_limiter sv) \<and> timer_expiry (sv_limiter sv) \<le> sv_now sv + 1 \<and>
     started sv + tokens (sv_limiter sv) \<le> paid R burst begun es sv \<and>
     (timer_armed (sv_limiter sv) \<longrightarrow> ticking sv = TickIdle) \<and>
     (case ticking sv of
        TickIdle \<Rightarrow> \<not> in_window False es
      | TickSettings m p \<Rightarrow> \<not> in_window False es \<and> unat p \<le> R \<and> timer_expiry (sv_limiter sv) \<le> sv_now sv
      | TickSum v \<Rightarrow> in_window False es \<and> timer_expiry (sv_limiter sv) \<le> sv_now sv \<and>
          started sv + unat v \<le> paid R burst begun es sv + R))"

lemma config_step_rate:
  assumes "g_enable_rate_limiter cfg" "unat (g_num_token_per_sec cfg) \<le> R" "rate_kept R (es @ [Reconfigure call])"
  shows "g_enable_rate_limiter (config_step call cfg) \<and> unat (g_num_token_per_sec (config_step call cfg)) \<le> R"
  using assms by (cases call) (auto simp: rate_kept_def cpp_defs Let_def)

lemma Dispatch_tokens:
  assumes "g_enable_rate_limiter (sv_config sv)"
  shows "started (Dispatch t undef sock source sv) + tokens (sv_limiter (Dispatch t undef sock source sv)) \<le>
      started sv + tokens (sv_limiter sv)"
    and "started (Dispatch t undef sock source sv) \<le> Suc (started sv)"
    and "timer_expiry (sv_limiter (Dispatch t undef sock source sv)) = timer_expiry (sv_limiter sv)"
      "timer_armed (sv_limiter (Dispatch t undef sock source sv)) = timer_armed (sv_limiter sv)"
proof -
  have lim: "sv_limiter (Dispatch t undef sock source sv) = snd (GetToken (sv_limiter sv))"
    using assms by (simp add: Dispatch_def accept_def Let_def case_prod_beta)
  show "started (Dispatch t undef sock source sv) + tokens (sv_limiter (Dispatch t undef sock source sv)) \<le>
      started sv + tokens (sv_limiter sv)"
    using GetToken_refines [of "sv_limiter sv"] assms unfolding lim
    by (auto simp: Dispatch_def accept_def Let_def bucket_take_def case_prod_beta)
  show "started (Dispatch t undef sock source sv) \<le> Suc (started sv)"
    by (simp add: Dispatch_def accept_def Let_def case_prod_beta)
  show "timer_expiry (sv_limiter (Dispatch t undef sock source sv)) = timer_expiry (sv_limiter sv)"
    "timer_armed (sv_limiter (Dispatch t undef sock source sv)) = timer_armed (sv_limiter sv)"
    unfolding lim by (simp_all add: GetToken_def Let_def)
qed

lemma onAccept_tokens:
  assumes "g_enable_rate_limiter (sv_config sv)" "sv' = fst (onAccept t undef b ev sock sv)"
  shows "started sv' + tokens (sv_limiter sv') \<le> started sv + tokens (sv_limiter sv) \<and> started sv' \<le> Suc (started sv) \<and>
    timer_expiry (sv_limiter sv') = timer_expiry (sv_limiter sv) \<and> timer_armed (sv_limiter sv') = timer_armed (sv_limiter sv)"
proof (cases ev)
  case (AcceptedFrom addr)
  let ?src = "(new_connection b)\<lparr>downstream_address := addr\<rparr>"
  have "sv' = accept sv \<or> sv' = accept (Dispatch t undef sock ?src sv)"
    using assms(2) AcceptedFrom by (simp add: onAccept_def Filter_def Let_def split: prod.split bool.split)
  then show ?thesis using Dispatch_tokens [OF assms(1), of t undef sock ?src] by (elim disjE) (simp_all add: accept_def)
qed (use assms in \<open>simp_all add: onAccept_def accept_def\<close>)

text \<open>The same state as far as the rate is concerned, and one event more.\<close>

lemma rate_inv_same:
  assumes "rate_inv R burst begun es sv" "in_window (in_window False es) [e] = in_window False es"
    and "rate_kept R (es @ [e]) \<Longrightarrow> g_enable_rate_limiter (sv_config sv') \<and> unat (g_num_token_per_sec (sv_config sv')) \<le> R"
    and "sv_limiter sv' = sv_limiter sv" "sv_now sv \<le> sv_now sv'" "started sv' = started sv" "ticking sv' = ticking sv"
  shows "rate_inv R burst begun (es @ [e]) sv'"
  using assms rate_kept_snoc [of R es e]
  by (auto simp: rate_inv_def paid_def window_snoc split: tick_pc.splits)

lemma rate_inv_accept:
  assumes "rate_inv R burst begun es sv" "sv_config sv' = sv_config sv" "sv_now sv' = sv_now sv" "ticking sv' = ticking sv"
    and "g_enable_rate_limiter (sv_config sv) \<Longrightarrow>
      started sv' + tokens (sv_limiter sv') \<le> started sv + tokens (sv_limiter sv) \<and> started sv' \<le> Suc (started sv) \<and>
      timer_expiry (sv_limiter sv') = timer_expiry (sv_limiter sv) \<and> timer_armed (sv_limiter sv') = timer_armed (sv_limiter sv)"
  shows "rate_inv R burst begun (es @ [AcceptDone t undef b ev sock]) sv'"
  using assms rate_kept_snoc [of R es "AcceptDone t undef b ev sock"]
  by (fastforce simp: rate_inv_def paid_def window_snoc split: tick_pc.splits)

lemma rate_inv_tick_load:
  assumes "rate_inv R burst begun es sv" "ticking sv = TickSettings m p"
  shows "rate_inv R burst begun (es @ [TickLoad]) (sv\<lparr>ticking := TickSum (refilled (n_token (sv_limiter sv)) m p)\<rparr>)"
  using assms refilled_adds_at_most [of "n_token (sv_limiter sv)" m p] rate_kept_snoc [of R es TickLoad]
  by (auto simp: rate_inv_def paid_def window_snoc)

lemma rate_inv_tick_store:
  assumes "rate_inv R burst begun es sv" "ticking sv = TickSum v"
  shows "rate_inv R burst begun (es @ [TickStore]) (sv\<lparr>sv_limiter := tick_store v (sv_limiter sv), ticking := TickIdle\<rparr>)"
proof (cases "rate_kept R (es @ [TickStore])")
  case True
  let ?e = "timer_expiry (sv_limiter sv)"
  have inv: "g_enable_rate_limiter (sv_config sv)" "unat (g_num_token_per_sec (sv_config sv)) \<le> R" "begun < ?e" "?e \<le> sv_now sv"
    "started sv + unat v \<le> burst + (?e - begun - 1) * R + accepts_in_windows False es + R"
    using assms rate_kept_snoc [OF True] by (auto simp: rate_inv_def paid_def)
  have "(?e + 1 - begun - 1) * R = (?e - begun - 1) * R + R"
    using inv(3) by (cases "?e - begun") (simp_all add: Suc_diff_le)
  with inv show ?thesis by (simp add: rate_inv_def paid_def window_snoc tick_store_def kDftTokenGenIntervalSec_def)
qed (simp add: rate_inv_def)

interpretation limited: step_invariant "rate_inv R burst begun" for R burst begun
proof
  fix es :: "('f, 'z) event list" and sv sv' :: server and e :: "('f, 'z) event"
  assume inv: "rate_inv R burst begun es sv" and step: "server_step e sv sv'"
  have kept: "g_enable_rate_limiter (sv_config sv) \<and> unat (g_num_token_per_sec (sv_config sv)) \<le> R" if "rate_kept R (es @ [e])"
    using inv rate_kept_snoc [OF that] by (auto simp: rate_inv_def)
  show "rate_inv R burst begun (es @ [e]) sv'"
    using step
  proof (cases rule: server_step.cases)
    case (accept_done undef t b ev sock)
    have "sv_config sv' = sv_config sv" "sv_now sv' = sv_now sv" "ticking sv' = ticking sv"
      using onAccept_serving [OF accept_done(5) accept_done(2)] onAccept_counts [OF accept_done(2)] by simp_all
    with inv onAccept_tokens [OF _ accept_done(2)] show ?thesis
      unfolding accept_done(1) by (intro rate_inv_accept) simp_all
  next
    case (read_done i ev env)
    with inv kept handler_event_serving [OF read_done(5,3)] show ?thesis by (intro rate_inv_same) simp_all
  next
    case (tick_begin m p)
    with inv kept show ?thesis
      by (auto simp: rate_inv_def paid_def window_snoc GetRateLimitorConfig_def free_worker_def dest: rate_kept_snoc split: tick_pc.splits)
  next
    case (tick_load m p)
    with inv rate_inv_tick_load show ?thesis by simp
  next
    case (tick_store v)
    with inv rate_inv_tick_store show ?thesis by simp
  next
    case (reconfigure call)
    with inv kept config_step_rate [of "sv_config sv" R es call] rate_kept_snoc [of R es e] show ?thesis
      by (intro rate_inv_same [OF inv]) (simp_all add: rate_inv_def)
  qed (use inv kept in \<open>auto intro: rate_inv_same\<close>)
qed

end
