(* ===== verification/Worker.thy ===== *)
theory Worker
  imports Config Utils "HOL-Library.Stream"
begin

text \<open>
  The health checks of \<^verbatim>\<open>core/include/worker.hpp\<close>: one check, one round over the configured addresses, and
  the detached thread, which runs rounds for ever and is therefore a stream of them. The network is a
  parameter. The thread's lambda captures the parameter \<^verbatim>\<open>io_context_ptr\<close> of \<^verbatim>\<open>StartHealthCheckWorker\<close> by
  reference, and that parameter is destroyed when the function returns, which it does at once: a check
  that begins later copies a destroyed object, which is undefined behaviour.
\<close>

section \<open>One check\<close>

definition kDftHealthCheckRoute :: string where "kDftHealthCheckRoute = ''/healthz''"

text \<open>
  What the network answers to one check: whether the name resolves, the connection and the request (with
  its host, path and user agent) succeed, the status of the response, and whether the shutdown fails with
  another error than \<^verbatim>\<open>not_connected\<close>.
\<close>

record health_network =
  health_resolve :: "string \<Rightarrow> string \<Rightarrow> bool"
  health_connect :: bool
  health_write :: "string \<Rightarrow> string \<Rightarrow> string \<Rightarrow> bool"
  health_status :: "nat option"
  health_shutdown_error :: bool

definition healthz :: "health_network \<Rightarrow> string \<Rightarrow> bool" where
  "healthz net addr =
     (case find_char (CHR '':'') addr of
        None \<Rightarrow> False
      | Some pos \<Rightarrow>
          (let host = take pos addr; port = drop (pos + 1) addr in
           if \<not> health_resolve net host port then False
           else if \<not> health_connect net then False
           else if \<not> health_write net host kDftHealthCheckRoute AZUGATE_VERSION_STRING then False
           else case health_status net of
                  None \<Rightarrow> False
                | Some status \<Rightarrow>
                    if status \<noteq> 200 then False else if health_shutdown_error net then False else True))"

section \<open>The worker\<close>

text \<open>
  The inner loop of \<^verbatim>\<open>StartHealthCheckWorker\<close>: the addresses that are logged. Each call of \<^verbatim>\<open>healthz\<close> copies the
  captured parameter. \<open>n\<close> is the number of further checks that begin before the parameter is destroyed; it
  is returned as it is after the round.
\<close>

fun health_round :: "(string \<Rightarrow> health_network) \<Rightarrow> nat \<Rightarrow> string list \<Rightarrow> (string list \<times> nat) outcome" where
  "health_round net n [] = Val ([], n)"
| "health_round net n (addr # addrs) =
     (if n = 0 then UB
      else bind_outcome (health_round net (n - 1) addrs) (\<lambda>(reports, n').
        Val (if \<not> healthz (net addr) addr then addr # reports else reports, n')))"

text \<open>
  The endless loop. Round \<open>k\<close> starts at a time, finds the configuration \<open>cfg k\<close> and the network \<open>net k\<close>, and takes
  \<open>took k\<close> seconds for its checks; then the thread sleeps. \<open>left\<close> is what is left of the number of checks that
  begin before \<^verbatim>\<open>StartHealthCheckWorker\<close> has returned, or \<open>UB\<close> once a check has come too late: from then on
  nothing is known of the thread.
\<close>

primcorec StartHealthCheckWorker ::
  "(nat \<Rightarrow> string \<Rightarrow> health_network) \<Rightarrow> (nat \<Rightarrow> config) \<Rightarrow> (nat \<Rightarrow> nat) \<Rightarrow> nat \<Rightarrow> nat \<Rightarrow> nat outcome \<Rightarrow>
   (nat \<times> string list) outcome stream" where
  "StartHealthCheckWorker net cfg took k now left =
     bind_outcome left (\<lambda>n. bind_outcome (health_round (net k) n (GetHealthzList (cfg k))) (\<lambda>(reports, _). Val (now, reports))) ##
     StartHealthCheckWorker net cfg took (Suc k) (now + took k + kDftHealthCheckGapSecond)
       (bind_outcome left (\<lambda>n. bind_outcome (health_round (net k) n (GetHealthzList (cfg k))) (\<lambda>(_, n'). Val n')))"

lemma health_round_value:
  "health_round net n addrs =
     (if length addrs \<le> n then Val (filter (\<lambda>addr. \<not> healthz (net addr) addr) addrs, n - length addrs) else UB)"
  by (induction net n addrs rule: health_round.induct) auto

text \<open>The number of checks in \<open>j\<close> rounds from round \<open>k\<close>.\<close>

definition checks :: "(nat \<Rightarrow> config) \<Rightarrow> nat \<Rightarrow> nat \<Rightarrow> nat" where
  "checks cfg k j = (\<Sum>i<j. length (GetHealthzList (cfg (k + i))))"

lemma checks_Suc: "checks cfg k (Suc j) = length (GetHealthzList (cfg k)) + checks cfg (Suc k) j"
  unfolding checks_def by (subst sum.lessThan_Suc_shift) simp

lemma worker_gone: "StartHealthCheckWorker net cfg took k now UB !! j = UB"
  by (induction j arbitrary: k now) simp_all

lemma worker_round:
  "StartHealthCheckWorker net cfg took k now (Val n) !! j =
     (if checks cfg k (Suc j) \<le> n
      then Val (now + (\<Sum>i<j. took (k + i) + kDftHealthCheckGapSecond),
                filter (\<lambda>addr. \<not> healthz (net (k + j) addr) addr) (GetHealthzList (cfg (k + j))))
      else UB)"
proof (induction j arbitrary: k now n)
  case 0
  show ?case by (simp add: checks_def health_round_value)
next
  case (Suc j)
  let ?len = "length (GetHealthzList (cfg k))"
  have time: "(\<Sum>i<Suc j. took (k + i) + kDftHealthCheckGapSecond) =
      took k + kDftHealthCheckGapSecond + (\<Sum>i<j. took (Suc k + i) + kDftHealthCheckGapSecond)"
    by (subst sum.lessThan_Suc_shift) simp
  have "checks cfg k (Suc (Suc j)) \<le> n \<longleftrightarrow> ?len \<le> n \<and> checks cfg (Suc k) (Suc j) \<le> n - ?len"
    unfolding checks_Suc [of cfg k "Suc j"] by auto
  with Suc.IH [of "Suc k" "now + took k + kDftHealthCheckGapSecond" "n - ?len"] time show ?case
    by (simp add: health_round_value worker_gone)
qed

lemma healthz_list_grows:
  assumes "\<And>k. cfg (Suc k) = config_run (calls k) (cfg k)" "i \<le> j"
  shows "set (GetHealthzList (cfg i)) \<subseteq> set (GetHealthzList (cfg j))"
  using assms(2)
proof (induction rule: dec_induct)
  case (step n)
  then show ?case using config_run_healthz [of "cfg n" "calls n"] assms(1) [of n] by (auto simp: GetHealthzList_def)
qed simp

section \<open>Theorems\<close>

text \<open>A health check succeeds exactly for an address of the form \<^verbatim>\<open>host:port\<close>, split at the first colon, that
  resolves and answers the request with status 200 on a connection that closes properly.\<close>

theorem healthz_exact:
  "healthz net addr \<longleftrightarrow> (\<exists>host port. addr = host @ CHR '':'' # port \<and> CHR '':'' \<notin> set host \<and>
     health_resolve net host port \<and> health_connect net \<and> health_write net host ''/healthz'' ''azugate/1.0'' \<and>
     health_status net = Some 200 \<and> \<not> health_shutdown_error net)"
proof (cases "find_char (CHR '':'') addr")
  case None
  then have "CHR '':'' \<notin> set addr" by simp
  moreover have "\<not> healthz net addr" unfolding healthz_def None by simp
  ultimately show ?thesis by auto
next
  case (Some pos)
  have split: "addr = take pos addr @ CHR '':'' # drop (pos + 1) addr" "CHR '':'' \<notin> set (take pos addr)"
    using Some find_char_Some id_take_nth_drop [of pos addr] by auto
  have unique: "host = take pos addr \<and> p = drop (pos + 1) addr"
    if "addr = host @ CHR '':'' # p" "CHR '':'' \<notin> set host" for host p
    using that find_char_append [of "CHR '':''" host "CHR '':'' # p"] Some by auto
  have eq: "healthz net addr \<longleftrightarrow> health_resolve net (take pos addr) (drop (pos + 1) addr) \<and> health_connect net \<and>
      health_write net (take pos addr) ''/healthz'' ''azugate/1.0'' \<and> health_status net = Some 200 \<and> \<not> health_shutdown_error net"
    using Some by (auto simp: healthz_def Let_def kDftHealthCheckRoute_def AZUGATE_VERSION_STRING_def split: option.split)
  show ?thesis
  proof
    assume "healthz net addr"
    with eq split show "\<exists>host port. addr = host @ CHR '':'' # port \<and> CHR '':'' \<notin> set host \<and>
      health_resolve net host port \<and> health_connect net \<and> health_write net host ''/healthz'' ''azugate/1.0'' \<and>
      health_status net = Some 200 \<and> \<not> health_shutdown_error net"
      by (intro exI [of _ "take pos addr"] exI [of _ "drop (pos + 1) addr"] conjI) simp_all
  next
    assume "\<exists>host port. addr = host @ CHR '':'' # port \<and> CHR '':'' \<notin> set host \<and>
      health_resolve net host port \<and> health_connect net \<and> health_write net host ''/healthz'' ''azugate/1.0'' \<and>
      health_status net = Some 200 \<and> \<not> health_shutdown_error net"
    then obtain host p where h: "addr = host @ CHR '':'' # p" "CHR '':'' \<notin> set host"
      "health_resolve net host p" "health_connect net" "health_write net host ''/healthz'' ''azugate/1.0''"
      "health_status net = Some 200" "\<not> health_shutdown_error net" by blast
    then show "healthz net addr" using eq unique [OF h(1,2)] by simp
  qed
qed

text \<open>Every round from the one that first finds an address makes at least one check.\<close>

lemma checks_grow:
  assumes "\<And>k. cfg (Suc k) = config_run (calls k) (cfg k)" and "GetHealthzList (cfg i) \<noteq> []"
  shows "Suc n \<le> checks cfg 0 (Suc (i + n))"
proof (induction n)
  case 0
  from assms(2) show ?case by (simp add: checks_def Suc_le_eq)
next
  case (Suc n)
  have "0 < length (GetHealthzList (cfg (Suc (i + n))))"
    using healthz_list_grows [of cfg calls i "Suc (i + n)", OF assms(1)] assms(2) by fastforce
  with Suc show ?case unfolding checks_def by (simp del: length_greater_0_conv)
qed

lemma checks_mono: "j \<le> l \<Longrightarrow> checks cfg k j \<le> checks cfg k l"
  unfolding checks_def by (rule sum_mono2) auto

text \<open>C33: What the health worker does, and for how long. Let \<open>n\<close> be the number of checks that begin before
  \<^verbatim>\<open>StartHealthCheckWorker\<close> returns, and let other threads reconfigure the gateway between the rounds. A
  round reports exactly the listed addresses whose check fails, and begins three seconds after the checks
  of the one before, as long as it and the rounds before it make at most \<open>n\<close> checks together; every other
  round is undefined behaviour, because a check copies the parameter \<^verbatim>\<open>io_context_ptr\<close> that the thread has
  captured by reference. As no call takes an address off the list, with an address on the list in round
  \<open>i\<close> the behaviour is undefined from round \<open>i + n\<close> at the latest: \<open>n\<close> is finite, so no address is checked
  for ever.\<close>

theorem health_worker_reports:
  assumes "\<And>k. cfg (Suc k) = config_run (calls k) (cfg k)" "GetHealthzList (cfg i) \<noteq> []"
  shows "StartHealthCheckWorker net cfg took 0 now (Val n) !! j =
      (if (\<Sum>k<Suc j. length (GetHealthzList (cfg k))) \<le> n
       then Val (now + (\<Sum>k<j. took k + 3), filter (\<lambda>addr. \<not> healthz (net j addr) addr) (GetHealthzList (cfg j)))
       else UB) \<and>
    (i + n \<le> j \<longrightarrow> StartHealthCheckWorker net cfg took 0 now (Val n) !! j = UB)"
proof -
  have "\<not> checks cfg 0 (Suc j) \<le> n" if "i + n \<le> j"
    using checks_grow [of cfg calls i n, OF assms] checks_mono [of "Suc (i + n)" "Suc j" cfg 0] that by simp
  then show ?thesis
    unfolding worker_round by (simp add: kDftHealthCheckGapSecond_def checks_def del: sum.lessThan_Suc)
qed

text \<open>An address without a port, which is never healthy.\<close>

definition checked_config :: "nat \<Rightarrow> config" where
  "checked_config k = config_run (replicate k (CallSetHttps True)) (AddHealthzList ''backend'' initial_config)"

definition any_network :: health_network where
  "any_network = \<lparr>health_resolve = (\<lambda>h p. True), health_connect = True, health_write = (\<lambda>h r a. True),
     health_status = Some 200, health_shutdown_error = False\<rparr>"

theorem health_worker_reports_witness:
  "StartHealthCheckWorker (\<lambda>k addr. any_network) checked_config (\<lambda>k. 1) 0 0 (Val 2) !! 1 = Val (4, [''backend'']) \<and>
   StartHealthCheckWorker (\<lambda>k addr. any_network) checked_config (\<lambda>k. 1) 0 0 (Val 2) !! 2 = UB"
proof -
  have step: "checked_config (Suc k) = config_run [CallSetHttps True] (checked_config k)" for k
    by (simp add: checked_config_def config_run_def replicate_append_same [symmetric] del: replicate_Suc)
  have addrs: "GetHealthzList (checked_config k) = [''backend'']" for k
    by (induction k) (simp_all add: step config_run_def, simp_all add: checked_config_def config_run_def initial_config_def cpp_defs)
  note rounds = conjunct1 [OF health_worker_reports [of checked_config "\<lambda>k. [CallSetHttps True]" 0, OF step]]
  have "\<not> healthz any_network ''backend''" by code_simp
  then show ?thesis by (simp add: rounds addrs numeral_2_eq_2 del: snth.simps)
qed

end
