(* ===== verification/Binding.thy ===== *)
theory Binding
  imports Server Worker
begin

text \<open>
  The C interface of \<^verbatim>\<open>core/binding/azugate.h\<close> and \<^verbatim>\<open>core/binding/azugate.cc\<close>, and what holds of every run of a
  gateway that is started through it: the theorems here put together the invariants of \<open>Server\<close>, and show
  how few clients it takes to stop it.
\<close>

section \<open>The C interface\<close>

record BindingServerConfig =
  binding_port :: u16
  binding_jwt_public_key_pem :: string

text \<open>The variables that the calls change; a string of C is read up to its terminator.\<close>

record globals =
  gl_config :: config
  gl_router :: router
  gl_signals :: signals

definition azugate_load_config :: "BindingServerConfig \<Rightarrow> globals \<Rightarrow> globals" where
  "azugate_load_config bindingConfig g =
     g\<lparr>gl_config := LoadConfig \<lparr>port = binding_port bindingConfig,
          jwt_public_key_pem = c_string (binding_jwt_public_key_pem bindingConfig)\<rparr> (gl_config g)\<rparr>"

definition azugate_add_prefix_match_route :: "bool \<Rightarrow> string \<Rightarrow> string \<Rightarrow> int \<Rightarrow> globals \<Rightarrow> globals" where
  "azugate_add_prefix_match_route undef_remote source_url target is_local g =
     g\<lparr>gl_router := AddPrefixMatchRoute undef_remote (c_string source_url) (c_string target) (is_local \<noteq> 0) (gl_router g)\<rparr>"

definition azugate_add_path_match_route :: "size_t \<Rightarrow> string \<Rightarrow> string \<Rightarrow> int \<Rightarrow> globals \<Rightarrow> globals" where
  "azugate_add_path_match_route undef_index source_url target is_local g =
     g\<lparr>gl_router := AddPathMatchRoute undef_index (c_string source_url) (c_string target) (is_local \<noteq> 0) (gl_router g)\<rparr>"

text \<open>
  \<^verbatim>\<open>azugate_start\<close> up to the point where the workers run; the thread of the health checks, which it also starts,
  is \<open>StartHealthCheckWorker\<close>.
\<close>

definition azugate_start :: "nat \<Rightarrow> globals \<Rightarrow> server" where
  "azugate_start now g =
     (let sigs = IgnoreSignalPipe (gl_signals g)
      in Run (new_server (gl_config g) (gl_router g) sigs now))"

section \<open>Theorems\<close>

lemma started_invariants:
  "accepts_inv [] (azugate_start now g)"
  "config_ok (gl_config g) \<Longrightarrow> router_shaped (gl_router g) \<Longrightarrow> state_inv [] (azugate_start now g)"
  "ip \<in> g_ip_blacklist (gl_config g) \<Longrightarrow> shielded_inv ip [] (azugate_start now g)"
  "g_enable_rate_limiter (gl_config g) \<Longrightarrow> unat (g_num_token_per_sec (gl_config g)) \<le> R \<Longrightarrow>
   rate_inv R (unat (g_num_token_max (gl_config g))) now [] (azugate_start now g)"
proof -
  note defs = azugate_start_def Run_def new_server_def accept_def Let_def
  show "accepts_inv [] (azugate_start now g)" by (simp add: accepts_inv_def defs)
  show "config_ok (gl_config g) \<Longrightarrow> router_shaped (gl_router g) \<Longrightarrow> state_inv [] (azugate_start now g)"
    by (simp add: state_inv_def busy_workers_def defs)
  show "ip \<in> g_ip_blacklist (gl_config g) \<Longrightarrow> shielded_inv ip [] (azugate_start now g)"
    by (simp add: shielded_inv_def defs)
  show "g_enable_rate_limiter (gl_config g) \<Longrightarrow> unat (g_num_token_per_sec (gl_config g)) \<le> R \<Longrightarrow>
      rate_inv R (unat (g_num_token_max (gl_config g))) now [] (azugate_start now g)"
    by (simp add: rate_inv_def paid_def defs Start_def new_limiter_def GetRateLimitorConfig_def kDftTokenGenIntervalSec_def)
qed

text \<open>C4: No connection from a blacklisted address is ever served: when an address was put on the blacklist by the
  configuration calls before the start and not taken off again, neither before nor while the gateway
  runs, then in no state of any run, whatever connections, reads, ticks, reconfigurations and new routes
  come in whatever order, does a handler serve a connection from it.\<close>

theorem blacklisted_never_served:
  assumes "gl_config g = config_run calls initial_config" "listed_after ip calls False"
    and "server_run es (azugate_start now g) sv" "Reconfigure (CallRemoveBlacklistIp ip) \<notin> set es"
  shows "ip \<notin> (\<lambda>c. downstream_address (source_connection_info (conn_handler c))) ` set (serving sv)"
proof -
  have "ip \<in> g_ip_blacklist (gl_config g)"
    using blacklist_after_run [of ip calls initial_config] assms(1,2) by (simp add: initial_config_def)
  from shielded.run_keeps [OF assms(3) started_invariants(3) [OF this]] assms(4) show ?thesis
    by (auto simp: shielded_inv_def)
qed

text \<open>C7: The server never stops listening: in every run at least one accept is outstanding. But each served
  connection leaves two more of them behind, one for the start of its handler and at least one for its
  end, so that the number of outstanding accepts grows without bound.\<close>

theorem accepts_accumulate:
  assumes "server_run es (azugate_start now g) sv"
  shows "1 + started sv + (started sv - (length (serving sv) + occupied sv + relaying sv)) \<le> pending_accepts sv"
  using counted.run_keeps [OF assms started_invariants(1)] by (auto simp: accepts_inv_def)

text \<open>C8: The state of a running gateway stays well formed, whatever happens and in whatever order, and
  whatever values the uninitialised indices of new exact routes hold: no more calls are running than
  there are workers, every handler's buffer is in range, the socket of every finished handler is closed,
  the settings of the rate limiter are positive, every route has at least one target and no two of its
  targets are alike, and the round-robin index of every prefix route is in range. Nothing is said of the
  index of an exact route that has not been looked up, which may be out of range.\<close>

theorem gateway_state_well_formed:
  assumes "reachable_router (gl_router g)" "gl_config g = config_run calls initial_config"
    and "server_run es (azugate_start now g) sv"
  shows "busy_workers sv \<le> sv_threads sv \<and> list_all (\<lambda>c. handler_ok (conn_handler c)) (serving sv) \<and>
    list_all (\<lambda>f. \<exists>sock. fin_sock f = Some sock \<and> \<not> sock_open sock) (finished_conns sv) \<and> config_ok (sv_config sv) \<and>
    (\<forall>u ra. g_exact_routes (sv_router sv) u = Some ra \<longrightarrow> targets ra \<noteq> [] \<and> distinct (map target_key (targets ra))) \<and>
    list_all (\<lambda>(c, ra). unat (next_index ra) < length (targets ra) \<and> distinct (map target_key (targets ra)))
      (g_prefix_routes (sv_router sv))"
proof -
  have "config_ok (gl_config g)" using config_run_ok [OF initial_config_ok] assms(2) by simp
  from well_formed.run_keeps [OF assms(3) started_invariants(2) [OF this reachable_router_shaped [OF assms(1)]]]
  have inv: "state_inv es sv" .
  then have "router_shaped (sv_router sv)" by (simp add: state_inv_def)
  then have "\<forall>u ra. g_exact_routes (sv_router sv) u = Some ra \<longrightarrow> targets ra \<noteq> [] \<and> distinct (map target_key (targets ra))"
    "list_all (\<lambda>(c, ra). unat (next_index ra) < length (targets ra) \<and> distinct (map target_key (targets ra)))
      (g_prefix_routes (sv_router sv))"
    by (auto simp: router_shaped_def action_shaped_def action_ok_def list_all_iff)
  with inv show ?thesis by (simp add: state_inv_def list_all_iff)
qed

text \<open>C26: The rate limiter bounds the handlers in time, up to the tokens that a refill gives back. When it is
  on and never switched off, and the rate is never set above \<open>R\<close>, then the number of handlers started is at
  most the burst configured at the start, plus \<open>R\<close> for each second since then, plus one for each
  connection that is accepted between the load and the store of the counter in \<^verbatim>\<open>performTask\<close>, whose token
  the store puts back. Ticks interleave with everything else, but each call of \<^verbatim>\<open>GetToken\<close> is one access:
  the bound fails when something comes between the \<^verbatim>\<open>fetch_sub\<close> of a refused call and its
  \<^verbatim>\<open>fetch_add\<close>, which is the subject of \<^verbatim>\<open>limiter_race_unbounded\<close>.\<close>

theorem handlers_within_rate:
  assumes "g_enable_rate_limiter (gl_config g)" "unat (g_num_token_per_sec (gl_config g)) \<le> R"
    and "server_run es (azugate_start now g) sv" "rate_kept R es"
  shows "started sv \<le> unat (g_num_token_max (gl_config g)) + (sv_now sv - now) * R + accepts_in_windows False es"
proof -
  let ?e = "timer_expiry (sv_limiter sv)"
  have inv: "started sv \<le> unat (g_num_token_max (gl_config g)) + (?e - now - 1) * R + accepts_in_windows False es"
    "?e \<le> sv_now sv + 1"
    using limited.run_keeps [OF assms(3) started_invariants(4) [OF assms(1,2)]] assms(4) by (auto simp: rate_inv_def paid_def)
  have "(?e - now - 1) * R \<le> (sv_now sv - now) * R" using inv(2) by (intro mult_right_mono) simp_all
  with inv(1) show ?thesis by linarith
qed

section \<open>Witnesses\<close>

text \<open>A gateway with one blacklisted address and the rate limiter on.\<close>

definition guarded_calls :: "config_call list" where
  "guarded_calls = [CallAddBlacklistIp ''10.0.0.1'', CallSetEnableRateLimitor True]"

definition guarded :: globals where
  "guarded = \<lparr>gl_config = config_run guarded_calls initial_config, gl_router = empty_router, gl_signals = (\<lambda>_. SIG_DFL)\<rparr>"

definition plain_tls :: tls where
  "plain_tls = \<lparr>certificate_ok = (\<lambda>f. True), private_key_ok = (\<lambda>f. True), handshake_error = None\<rparr>"

definition connects :: "string \<Rightarrow> (unit, unit) event" where
  "connects addr = AcceptDone plain_tls some_memory False (AcceptedFrom addr) \<lparr>sock_open = True, sock_shutdown = False\<rparr>"

definition after_connect :: "string \<Rightarrow> server \<Rightarrow> server" where
  "after_connect addr sv = fst (onAccept plain_tls some_memory False (AcceptedFrom addr)
     \<lparr>sock_open = True, sock_shutdown = False\<rparr> (sv\<lparr>pending_accepts := pending_accepts sv - 1\<rparr>))"

lemma connects_step: "free_worker sv \<Longrightarrow> 0 < pending_accepts sv \<Longrightarrow> server_step (connects addr) sv (after_connect addr sv)"
  by (simp add: connects_def after_connect_def accept_step some_memory_size)

abbreviation two_connections :: server where
  "two_connections \<equiv> after_connect ''10.0.0.1'' (after_connect ''10.0.0.2'' (azugate_start 0 guarded))"

lemma guarded_config:
  "g_ip_blacklist (gl_config guarded) = {''10.0.0.1''}" "g_enable_rate_limiter (gl_config guarded)"
  "\<not> g_enable_https (gl_config guarded)" "g_num_token_max (gl_config guarded) = 1000"
  "g_num_token_per_sec (gl_config guarded) = 100" "g_num_threads (gl_config guarded) = 4"
  by (simp_all add: guarded_def guarded_calls_def config_run_def initial_config_def cpp_defs)

lemma two_connections_state:
  "pending_accepts (after_connect ''10.0.0.2'' (azugate_start 0 guarded)) = 2"
  "pending_accepts two_connections = 2" "started two_connections = 1" "length (serving two_connections) = 1"
  "occupied two_connections = 0" "free_worker (after_connect ''10.0.0.2'' (azugate_start 0 guarded))"
  "sv_now two_connections = 0"
  by (simp_all add: after_connect_def onAccept_def Dispatch_def Filter_def azugate_start_def Run_def new_server_def free_worker_def busy_workers_def
      accept_def Let_def GetToken_def Start_def new_limiter_def GetRateLimitorConfig_def GetIpBlackList_def GetHttps_def
      guarded_config)

lemma two_connections_run:
  "server_run [connects ''10.0.0.2'', connects ''10.0.0.1''] (azugate_start 0 guarded) two_connections"
proof -
  have "server_run [] (azugate_start 0 guarded) (azugate_start 0 guarded)" by (rule server_run.run_refl)
  moreover have "free_worker (azugate_start 0 guarded)" "0 < pending_accepts (azugate_start 0 guarded)"
    by (simp_all add: azugate_start_def Run_def accept_def new_server_def free_worker_def busy_workers_def Let_def guarded_config)
  ultimately have "server_run ([] @ [connects ''10.0.0.2'']) (azugate_start 0 guarded)
      (after_connect ''10.0.0.2'' (azugate_start 0 guarded))"
    using connects_step by (blast intro: server_run.run_step)
  then have "server_run (([] @ [connects ''10.0.0.2'']) @ [connects ''10.0.0.1'']) (azugate_start 0 guarded) two_connections"
    by (rule server_run.run_step) (simp add: connects_step two_connections_state)
  then show ?thesis by simp
qed

theorem blacklisted_never_served_witness:
  "length (serving two_connections) = 1 \<and> listed_after ''10.0.0.1'' guarded_calls False \<and>
   ''10.0.0.1'' \<notin> (\<lambda>c. downstream_address (source_connection_info (conn_handler c))) ` set (serving two_connections)"
proof -
  have listed: "listed_after ''10.0.0.1'' guarded_calls False" by (simp add: guarded_calls_def)
  have "gl_config guarded = config_run guarded_calls initial_config" by (simp add: guarded_def)
  from blacklisted_never_served [OF this listed two_connections_run] listed two_connections_state(4) show ?thesis
    by (simp add: connects_def)
qed

theorem accepts_accumulate_witness:
  "1 + started two_connections \<le> pending_accepts two_connections"
  using accepts_accumulate [OF two_connections_run] by simp

theorem gateway_state_well_formed_witness:
  "length (serving two_connections) = 1 \<and> list_all (\<lambda>c. handler_ok (conn_handler c)) (serving two_connections) \<and>
   config_ok (sv_config two_connections)"
proof -
  have "reachable_router (gl_router guarded)" by (simp add: guarded_def reachable_router.start)
  moreover have "gl_config guarded = config_run guarded_calls initial_config" by (simp add: guarded_def)
  ultimately show ?thesis
    using gateway_state_well_formed [OF _ _ two_connections_run] two_connections_state(4) by blast
qed

text \<open>A connection that is accepted while the first tick is between its load and its store.\<close>

definition loaded_tick :: server where
  "loaded_tick = (azugate_start 0 guarded)\<lparr>sv_now := 1,
     sv_limiter := \<lparr>n_token = 1000, timer_expiry = 1, timer_armed = False\<rparr>, ticking := TickSum 1000\<rparr>"

lemma loaded_tick_run: "server_run [ClockSecond, TickBegin, TickLoad] (azugate_start 0 guarded) loaded_tick"
proof -
  let ?sv = "azugate_start 0 guarded"
  let ?sv1 = "?sv\<lparr>sv_now := 1\<rparr>"
  let ?sv2 = "?sv1\<lparr>sv_limiter := (sv_limiter ?sv)\<lparr>timer_armed := False\<rparr>, ticking := TickSettings 1000 100\<rparr>"
  have sv: "sv_limiter ?sv = \<lparr>n_token = 1000, timer_expiry = 1, timer_armed = True\<rparr>" "sv_now ?sv = 0"
    "free_worker ?sv" "GetRateLimitorConfig (sv_config ?sv) = (1000, 100)"
    by (simp_all add: azugate_start_def Run_def accept_def new_server_def free_worker_def busy_workers_def Let_def Start_def
        new_limiter_def GetRateLimitorConfig_def kDftTokenGenIntervalSec_def guarded_config)
  have "server_step ClockSecond ?sv ?sv1" using clock_second [of ?sv] sv(2) by simp
  moreover have "server_step TickBegin ?sv1 ?sv2"
    using tick_begin [of ?sv1 1000 100] sv by (simp add: free_worker_def busy_workers_def)
  ultimately have run: "server_run [ClockSecond, TickBegin] ?sv ?sv2" by (rule run_two)
  have "refilled 1000 1000 100 = 1000" by code_simp
  then have "server_step TickLoad ?sv2 loaded_tick"
    using tick_load [of ?sv2 1000 100] sv(1) by (simp add: loaded_tick_def)
  from server_run.run_step [OF run this] show ?thesis by simp
qed

theorem handlers_within_rate_witness:
  "\<exists>sv. server_run ([ClockSecond, TickBegin, TickLoad] @ [connects ''10.0.0.2'', TickStore]) (azugate_start 0 guarded) sv \<and>
     started sv = 1 \<and> tokens (sv_limiter sv) = 1000 \<and> started sv \<le> 1000 + 1 * 100 + 1"
proof -
  let ?sv3 = "after_connect ''10.0.0.2'' loaded_tick"
  let ?sv4 = "?sv3\<lparr>sv_limiter := tick_store 1000 (sv_limiter ?sv3), ticking := TickIdle\<rparr>"
  let ?es = "[ClockSecond, TickBegin, TickLoad] @ [connects ''10.0.0.2'', TickStore]"
  have "free_worker loaded_tick" "0 < pending_accepts loaded_tick"
    by (simp_all add: loaded_tick_def azugate_start_def Run_def accept_def new_server_def free_worker_def busy_workers_def Let_def
        guarded_config)
  then have "server_step (connects ''10.0.0.2'') loaded_tick ?sv3" by (rule connects_step)
  moreover have sv3: "ticking ?sv3 = TickSum 1000" "started ?sv3 = 1" "sv_now ?sv3 = 1"
    by (simp_all add: after_connect_def onAccept_def Dispatch_def Filter_def loaded_tick_def azugate_start_def Run_def new_server_def
        accept_def Let_def GetToken_def GetIpBlackList_def GetHttps_def guarded_config)
  then have "server_step TickStore ?sv3 ?sv4" by (intro tick_store)
  ultimately have run: "server_run ?es (azugate_start 0 guarded) ?sv4"
    by (intro run_append [OF run_two loaded_tick_run])
  moreover have "rate_kept 100 ?es" by (simp add: rate_kept_def connects_def)
  from handlers_within_rate [OF _ _ run this] have "started ?sv4 \<le> 1000 + 1 * 100 + 1"
    using sv3(3) by (simp add: guarded_config connects_def)
  ultimately show ?thesis using sv3(2) by (intro exI [of _ ?sv4]) (simp add: tick_store_def)
qed

end
