(* ===== verification/Exhaustion.thy ===== *)
theory Exhaustion
  imports Binding
begin

text \<open>
  How the gateway can be stopped. The handlers read the body of a request with calls that block, on the
  worker threads that also run every completion of the I/O context, the timer of the rate limiter
  included. A client that announces a body and does not send it therefore takes a worker away for good,
  and as many such clients as there are workers (four, unless configured otherwise) stop the gateway.
\<close>

section \<open>A client that does not send what it announced\<close>

text \<open>The requests: well formed, with usable headers, a known method and a body that is announced.\<close>

definition announces_body :: "phr_request \<Rightarrow> bool" where
  "announces_body q \<longleftrightarrow> request_ok kMaxHeadersNum q \<and> list_all plain_header (req_headers q) \<and> req_headers q \<noteq> [] \<and>
     list_all usable_header (req_headers q) \<and> length (render_request q) \<le> kMaxHttpHeaderSize \<and>
     0 < updated content_length_of (last_value kHeaderFieldContentLength (req_headers q)) 0 \<and>
     stringToVerb (req_method q) \<noteq> None"

text \<open>The surroundings: the target can be reached, and the client sends nothing after the header.\<close>

definition silent_client :: "('f, 'z) surroundings \<Rightarrow> bool" where
  "silent_client env \<longleftrightarrow> resolve_ok (env_network env) ''baidu.com'' (dec 80) \<and> connect_ok (env_network env) \<and>
     answers (env_upstream env) = [] \<and> env_reads env = []"

text \<open>An exact route whose targets are all remote, with its index in range.\<close>

definition remote_route :: "string \<Rightarrow> router \<Rightarrow> bool" where
  "remote_route u r \<longleftrightarrow> (\<exists>ra. g_exact_routes r u = Some ra \<and> action_ok ra \<and> list_all is_remote (targets ra))"

lemma remote_route_lookup:
  assumes "remote_route u r"
  shows "\<exists>t r'. GetRouteTarget u r = Val (Some t, r') \<and> is_remote t \<and> remote_route u r'"
proof -
  obtain ra where ra: "g_exact_routes r u = Some ra" "action_ok ra" "list_all is_remote (targets ra)"
    using assms by (auto simp: remote_route_def)
  then have "is_remote (targets ra ! unat (next_index ra))" by (auto simp: action_ok_def list_all_iff)
  moreover have "remote_route u (r\<lparr>g_exact_routes := (g_exact_routes r)(u \<mapsto> advance ra)\<rparr>)"
    using ra action_ok_advance [of ra] by (auto simp: remote_route_def)
  ultimately show ?thesis using ra by (auto simp: GetRouteTarget_def GetNextTarget_ok)
qed

lemma announced_request_read:
  assumes "announces_body q" "length (header_buf undef) = kMaxHttpHeaderSize"
  shows "\<exists>h. onRead sse (ReadBytes (render_request q)) (new_handler undef source) = Val (h, Extract) \<and>
    request h = q \<and> extra_body_len h = 0 \<and> handler_ok h \<and> request_content_length h = 0"
proof -
  note new = new_handler_ok [OF assms(2), of source]
  have "feed (parser sse) (received (new_handler undef source)) [render_request q] = (POk q [], [])"
    using new parse_request_forward [of kMaxHeadersNum q sse "[]"] assms(1)
    by (simp add: announces_body_def phr_parse_request_def)
  from read_loop_feed_ok [OF this] new assms(1) obtain h where
    h: "read_loop sse [ReadBytes (render_request q)] (new_handler undef source) = Val (h, Extract, [])"
    "request h = q" "extra_body_len h = 0" "handler_ok h" "request_content_length h = request_content_length (new_handler undef source)"
    by (auto simp: announces_body_def)
  obtain h' step where r: "onRead sse (ReadBytes (render_request q)) (new_handler undef source) = Val (h', step)"
    using h(1) by (cases "onRead sse (ReadBytes (render_request q)) (new_handler undef source)") auto
  with h(1) have "h' = h \<and> step = Extract" by (cases step) auto
  with r h show ?thesis by (auto simp: new_handler_def)
qed

lemma silent_request_blocks:
  assumes "announces_body q" "silent_client env" "remote_route (if req_path q = ''/'' then [] else req_path q) r"
    and "request h = q" "extra_body_len h = 0" "handler_ok h" "request_content_length h = 0"
  shows "\<exists>ex r'. serve_request cfg (env_beast env) (env_network env) z fs mem False r
      \<lparr>handler = h, client = c, client_reads = env_reads env, upstream = env_upstream env, open_files = fds\<rparr> =
    Val (Running, ex, r') \<and> remote_route (if req_path q = ''/'' then [] else req_path q) r'"
proof -
  have q: "req_headers q \<noteq> []" "length (req_headers q) \<le> kMaxHeadersNum" "list_all usable_header (req_headers q)"
    using assms(1) by (simp_all add: announces_body_def request_ok_def)
  obtain m where m: "extractMetadata cfg h = (True, store_meta m h)" and
    len: "m_content_length m = updated content_length_of (last_value kHeaderFieldContentLength (req_headers q)) 0"
    using extractMetadata_ok [of h cfg] assms(4,7) q by auto
  let ?ex = "\<lparr>handler = store_meta m h, client = c, client_reads = env_reads env, upstream = env_upstream env, open_files = fds\<rparr>"
  obtain t r' where t: "GetRouteTarget (request_url (handler ?ex)) r = Val (Some t, r')" "is_remote t"
    "remote_route (if req_path q = ''/'' then [] else req_path q) r'"
    using remote_route_lookup [OF assms(3)] assms(4) by (auto simp: request_url_def cong: if_cong)
  have "reaches_target (env_network env) False ''baidu.com'' 80 ?ex" "in_buffer (handler ?ex)"
    using assms by (auto simp: reaches_target_def silent_client_def announces_body_def in_buffer_def handler_ok_def)
  moreover have "0 < m_content_length m" using assms(1) len by (simp add: announces_body_def)
  ultimately obtain ex where run: "handleHttpRequest (env_beast env) (env_network env) False ''baidu.com'' 80 (routed t ?ex) =
      Val (Running, ex)"
    using handleHttpRequest_reached [of "env_network env" False "''baidu.com''" 80 "routed t ?ex" "env_beast env"]
      assms(2,5) by (auto simp: silent_client_def)
  have "route (env_beast env) (env_network env) z fs mem False r ?ex = Val (Running, ex, r')"
    unfolding route_remote [OF t(1,2)] run by simp
  with t(3) m show ?thesis by (intro exI [of _ ex] exI [of _ r']) (simp add: serve_request_def)
qed

section \<open>One client takes one worker\<close>

definition silent_events ::
  "tls \<Rightarrow> HttpProxyHandler \<Rightarrow> bool \<Rightarrow> string \<Rightarrow> tcp_socket \<Rightarrow> ('f, 'z) surroundings \<Rightarrow> phr_request \<Rightarrow> ('f, 'z) event list" where
  "silent_events t undef b addr sock env q =
     [AcceptDone t undef b (AcceptedFrom addr) sock, ReadDone env 0 (ReadBytes (render_request q))]"

text \<open>A gateway without rate limiter and TLS that serves no connection at the moment.\<close>

definition exposed :: "string \<Rightarrow> string \<Rightarrow> server \<Rightarrow> bool" where
  "exposed addr u sv \<longleftrightarrow> remote_route u (sv_router sv) \<and> \<not> g_enable_rate_limiter (sv_config sv) \<and>
     \<not> GetHttps (sv_config sv) \<and> addr \<notin> GetIpBlackList (sv_config sv) \<and> 0 < pending_accepts sv \<and> serving sv = []"

lemma silent_client_step:
  assumes "announces_body q" "silent_client env" "length (header_buf undef) = kMaxHttpHeaderSize"
    and "exposed addr (if req_path q = ''/'' then [] else req_path q) sv" "free_worker sv"
  shows "\<exists>sv'. server_run (silent_events t undef b addr sock env q) sv sv' \<and>
    exposed addr (if req_path q = ''/'' then [] else req_path q) sv' \<and>
    occupied sv' = Suc (occupied sv) \<and> sv_threads sv' = sv_threads sv \<and> ticking sv' = ticking sv"
proof -
  let ?src = "(new_connection b)\<lparr>downstream_address := addr\<rparr>"
  let ?sv1 = "sv\<lparr>pending_accepts := pending_accepts sv + 1,
    serving := [\<lparr>conn_ssl = False, conn_sock = sock, conn_handler = new_handler undef ?src\<rparr>], started := started sv + 1\<rparr>"
  have "fst (onAccept t undef b (AcceptedFrom addr) sock (sv\<lparr>pending_accepts := pending_accepts sv - 1\<rparr>)) = ?sv1"
    using assms(4) by (simp add: exposed_def onAccept_def Filter_def Dispatch_def accept_def Let_def)
  then have accepted: "server_step (AcceptDone t undef b (AcceptedFrom addr) sock) sv ?sv1"
    using assms(3-5) by (simp add: accept_step exposed_def)
  obtain h where h: "onRead (env_sse env) (ReadBytes (render_request q)) (new_handler undef ?src) = Val (h, Extract)"
    "request h = q" "extra_body_len h = 0" "handler_ok h" "request_content_length h = 0"
    using announced_request_read [OF assms(1,3)] by blast
  have "remote_route (if req_path q = ''/'' then [] else req_path q) (sv_router sv)" using assms(4) by (simp add: exposed_def)
  from silent_request_blocks [OF assms(1,2) this h(2-5), of "sv_config sv" "env_zlib env" "env_files env" "env_memory env"
      "env_client env" "sv_open_files sv"]
  obtain ex r' where serve: "serve_request (sv_config sv) (env_beast env) (env_network env) (env_zlib env) (env_files env)
      (env_memory env) False (sv_router sv)
      \<lparr>handler = h, client = env_client env, client_reads = env_reads env, upstream = env_upstream env,
       open_files = sv_open_files sv\<rparr> = Val (Running, ex, r')"
    and r': "remote_route (if req_path q = ''/'' then [] else req_path q) r'" by blast
  let ?sv2 = "?sv1\<lparr>sv_router := r', sv_open_files := open_files ex, serving := [], occupied := occupied sv + 1\<rparr>"
  have "handler_event env 0 (ReadBytes (render_request q)) ?sv1 = Val ?sv2"
    using h(1) serve by (simp add: handler_event_def Let_def remove_nth_def)
  moreover have "fits_header_buf (ReadBytes (render_request q)) (new_handler undef ?src)"
    using assms(1) by (simp add: fits_header_buf_def announces_body_def new_handler_def)
  ultimately have "server_step (ReadDone env 0 (ReadBytes (render_request q))) ?sv1 ?sv2"
    using assms(5) by (simp add: read_step free_worker_def busy_workers_def)
  with accepted r' assms(4) show ?thesis
    unfolding silent_events_def by (intro exI [of _ ?sv2] conjI run_two) (simp_all add: exposed_def)
qed

lemma silent_clients_run:
  assumes "announces_body q" "silent_client env" "length (header_buf undef) = kMaxHttpHeaderSize"
  shows "exposed addr (if req_path q = ''/'' then [] else req_path q) sv \<Longrightarrow> occupied sv + k \<le> sv_threads sv \<Longrightarrow>
    ticking sv = TickIdle \<Longrightarrow> \<exists>sv'. server_run (concat (replicate k (silent_events t undef b addr sock env q))) sv sv' \<and>
      occupied sv' = occupied sv + k \<and> sv_threads sv' = sv_threads sv \<and> ticking sv' = TickIdle"
proof (induction k arbitrary: sv)
  case 0
  then show ?case by (intro exI [of _ sv]) (simp add: server_run.run_refl)
next
  case (Suc k)
  then have "free_worker sv" by (simp add: free_worker_def busy_workers_def)
  from silent_client_step [OF assms Suc.prems(1) this, of t b sock] obtain sv1 where
    sv1: "server_run (silent_events t undef b addr sock env q) sv sv1"
    "exposed addr (if req_path q = ''/'' then [] else req_path q) sv1"
    "occupied sv1 = Suc (occupied sv)" "sv_threads sv1 = sv_threads sv" "ticking sv1 = ticking sv" by blast
  from Suc.IH [OF sv1(2)] Suc.prems(2,3) sv1(3-5) obtain sv2 where
    "server_run (concat (replicate k (silent_events t undef b addr sock env q))) sv1 sv2"
    "occupied sv2 = occupied sv + Suc k" "sv_threads sv2 = sv_threads sv" "ticking sv2 = TickIdle" by auto
  then show ?case using run_append sv1(1) by (intro exI [of _ sv2]) auto
qed

section \<open>Without a free worker nothing happens\<close>

definition stopped_inv :: "server \<Rightarrow> ('f, 'z) event list \<Rightarrow> server \<Rightarrow> bool" where
  "stopped_inv sv0 es sv \<longleftrightarrow> occupied sv = sv_threads sv \<and> started sv = started sv0 \<and> serving sv = serving sv0 \<and>
     pending_accepts sv = pending_accepts sv0 \<and> sv_limiter sv = sv_limiter sv0 \<and> ticking sv = TickIdle"

interpretation stopped: step_invariant "stopped_inv sv0" for sv0
proof
  fix es :: "('f, 'z) event list" and sv sv' :: server and e :: "('f, 'z) event"
  assume inv: "stopped_inv sv0 es sv" and step: "server_step e sv sv'"
  show "stopped_inv sv0 (es @ [e]) sv'"
    using step inv by (cases rule: server_step.cases) (auto simp: stopped_inv_def free_worker_def busy_workers_def)
qed

section \<open>Theorem\<close>

text \<open>C6: As many silent clients as there are workers stop the gateway for good: without the rate limiter and TLS,
  when each connects, sends a well-formed header for a remote route that announces a body, and then
  nothing, every worker is occupied, and from then on, whatever happens, no connection is accepted, no
  request is read and no timer ticks.\<close>

theorem silent_clients_stop_gateway:
  fixes env :: "('f, 'z) surroundings"
  assumes "announces_body q" "silent_client env" "length (header_buf undef) = kMaxHttpHeaderSize"
    and "remote_route (if req_path q = ''/'' then [] else req_path q) (gl_router g)"
    and "\<not> g_enable_rate_limiter (gl_config g)" "\<not> GetHttps (gl_config g)" "addr \<notin> GetIpBlackList (gl_config g)"
  shows "\<exists>sv. server_run (concat (replicate (unat (g_num_threads (gl_config g))) (silent_events t undef b addr sock env q)))
      (azugate_start now g) sv \<and>
    (\<forall>(es :: ('f, 'z) event list) sv'. server_run es sv sv' \<longrightarrow> occupied sv' = sv_threads sv' \<and> started sv' = started sv \<and>
       serving sv' = serving sv \<and> pending_accepts sv' = pending_accepts sv \<and> sv_limiter sv' = sv_limiter sv)"
proof -
  let ?sv = "azugate_start now g" and ?n = "unat (g_num_threads (gl_config g))"
  note defs = azugate_start_def Run_def accept_def new_server_def Let_def
  have "exposed addr (if req_path q = ''/'' then [] else req_path q) ?sv"
    using assms(4-7) by (simp add: exposed_def defs)
  moreover have "occupied ?sv + ?n \<le> sv_threads ?sv" "occupied ?sv = 0" "sv_threads ?sv = ?n" "ticking ?sv = TickIdle" by (simp_all add: defs)
  ultimately obtain sv where run: "server_run (concat (replicate ?n (silent_events t undef b addr sock env q))) ?sv sv"
    and full: "occupied sv = sv_threads sv" "ticking sv = TickIdle"
    using silent_clients_run [OF assms(1-3), of addr ?sv ?n t b sock] by auto
  have "occupied sv' = sv_threads sv' \<and> started sv' = started sv \<and> serving sv' = serving sv \<and>
      pending_accepts sv' = pending_accepts sv \<and> sv_limiter sv' = sv_limiter sv"
    if "server_run es sv sv'" for es :: "('f, 'z) event list" and sv'
    using stopped.run_keeps [OF that, of sv] full by (auto simp: stopped_inv_def)
  with run show ?thesis by blast
qed

text \<open>The default configuration, with one exact route to a remote target, and the request of a client that
  announces five bytes.\<close>

definition default_gateway :: globals where
  "default_gateway = \<lparr>gl_config = initial_config, gl_router = one_route [] False, gl_signals = (\<lambda>_. SIG_DFL)\<rparr>"

definition put_request :: phr_request where
  "put_request = \<lparr>req_method = ''PUT'', req_path = ''/'', req_minor_version = 1,
     req_headers = [\<lparr>hname = Some ''Content-Length'', hvalue = ''5''\<rparr>]\<rparr>"

definition silent_surroundings :: "((string \<times> string) list, string) surroundings" where
  "silent_surroundings = \<lparr>env_sse = True, env_beast = list_beast, env_network = good_network, env_zlib = storing_zlib,
     env_files = no_files, env_memory = quiet_memory, env_client = open_socket, env_reads = [],
     env_upstream = open_socket\<rparr>"

lemma put_request_length: "from_chars ''5'' = Inr 5"
proof -
  have "dec 5 = ''5''" by code_simp
  then show ?thesis using from_chars_dec [of 5 "[]"] by simp
qed

lemma put_request_announces: "announces_body put_request"
proof -
  have "last_value kHeaderFieldContentLength (req_headers put_request) = Some ''5''" by code_simp
  then have "updated content_length_of (last_value kHeaderFieldContentLength (req_headers put_request)) 0 = 5"
    by (simp add: updated_def content_length_of_def put_request_length)
  moreover have "request_ok kMaxHeadersNum put_request" "list_all plain_header (req_headers put_request)"
    "length (render_request put_request) \<le> kMaxHttpHeaderSize" "stringToVerb (req_method put_request) \<noteq> None"
    by code_simp+
  moreover have "list_all usable_header (req_headers put_request)" "req_headers put_request \<noteq> []"
    by (simp_all add: usable_header_def put_request_def put_request_length)
  ultimately show ?thesis by (simp add: announces_body_def)
qed

lemma one_route_remote: "remote_route u (one_route u False)"
proof -
  have "g_exact_routes (one_route u False) u = Some \<lparr>next_index = 0, targets = [http_target ''/a.html'' False]\<rparr>"
    by (simp add: one_route_def AddPathMatchRoute_def empty_router_def AddTarget_def)
  then show ?thesis by (simp add: remote_route_def action_ok_def http_target_def)
qed

theorem silent_clients_stop_gateway_witness:
  "\<exists>sv. server_run (concat (replicate 4 (silent_events plain_tls some_memory False ''10.0.0.9''
      \<lparr>sock_open = True, sock_shutdown = False\<rparr> silent_surroundings put_request))) (azugate_start 0 default_gateway) sv"
proof -
  have "silent_client silent_surroundings"
    by (simp add: silent_client_def silent_surroundings_def good_network_def open_socket_def)
  from silent_clients_stop_gateway [OF put_request_announces this some_memory_size, of default_gateway "''10.0.0.9''"]
    one_route_remote [of "[]"]
  show ?thesis
    by (fastforce simp: put_request_def default_gateway_def initial_config_def cpp_defs)
qed
end
