(* ===== verification/Gateway.thy ===== *)
theory Gateway
  imports Exhaustion
begin

text \<open>
  A request on its way through the whole gateway: the connection is accepted, filtered and dispatched, the
  header is read in any number of pieces by completions of the I/O context, the request is parsed, routed
  and forwarded, and the handler ends. The state of the server afterwards is given exactly.
\<close>

section \<open>Reading a header in several steps\<close>

text \<open>While the handler waits for more, the bytes add up.\<close>

lemma onRead_waits:
  assumes "onRead sse (ReadBytes bytes) h = Val (h', Wait n)" "handler_ok h" "total_parsed h + length bytes \<le> kMaxHttpHeaderSize"
  shows "total_parsed h' = total_parsed h + length bytes \<and> accepts h' = accepts h \<and> handler_ok h'"
proof -
  have "handler_ok (arrived bytes h)" using assms(2,3) by (rule arrived_ok)
  with assms(1) show ?thesis
    by (auto simp: onRead_def Let_def parseRequest_def async_accpet_cb_def split: if_splits)
qed

text \<open>The server after the read that completes the header of connection \<open>i\<close>, whose handler was \<open>h\<close> before it.\<close>

definition served :: "nat \<Rightarrow> HttpProxyHandler \<Rightarrow> exchange \<Rightarrow> router \<Rightarrow> server \<Rightarrow> server" where
  "served i h ex r sv =
     handler_done i (handler ex) (sent (client ex)) (sent (upstream ex))
       (sv\<lparr>serving := (serving sv)[i := (serving sv ! i)\<lparr>conn_handler := h\<rparr>], sv_router := r, sv_open_files := open_files ex\<rparr>)"

abbreviation reads :: "('f, 'z) surroundings \<Rightarrow> nat \<Rightarrow> string list \<Rightarrow> ('f, 'z) event list" where
  "reads env i chunks \<equiv> map (\<lambda>c. ReadDone env i (ReadBytes c)) chunks"

abbreviation exchange_of :: "('f, 'z) surroundings \<Rightarrow> HttpProxyHandler \<Rightarrow> nat \<Rightarrow> exchange" where
  "exchange_of env h fds \<equiv> \<lparr>handler = h, client = env_client env, client_reads = env_reads env,
     upstream = env_upstream env, open_files = fds\<rparr>"

lemma run_Cons: "server_step e sv sv1 \<Longrightarrow> server_run es sv1 sv2 \<Longrightarrow> server_run (e # es) sv sv2"
  using run_append [of es sv1 sv2 "[e]" sv] server_run.run_step [OF server_run.run_refl, of e sv sv1] by simp

lemma reads_run:
  assumes "i < length (serving sv)" "free_worker sv"
    and "read_loop (env_sse env) (map ReadBytes chunks) (conn_handler (serving sv ! i)) = Val (h, Extract, [])"
    and "handler_ok (conn_handler (serving sv ! i))"
    and "total_parsed (conn_handler (serving sv ! i)) + length (concat chunks) \<le> kMaxHttpHeaderSize"
    and "serve_request (sv_config sv) (env_beast env) (env_network env) (env_zlib env) (env_files env) (env_memory env)
      (conn_ssl (serving sv ! i)) (sv_router sv) (exchange_of env h (sv_open_files sv)) = Val (Returned, ex, r)"
  shows "\<exists>h0. server_run (reads env i chunks) sv (served i h0 ex r sv) \<and> accepts h0 = accepts (conn_handler (serving sv ! i))"
  using assms
proof (induction chunks arbitrary: sv)
  case (Cons c cs)
  let ?h = "conn_handler (serving sv ! i)"
  obtain h1 step where r1: "onRead (env_sse env) (ReadBytes c) ?h = Val (h1, step)"
    using Cons.prems(3) by (cases "onRead (env_sse env) (ReadBytes c) ?h") auto
  have fits: "fits_header_buf (ReadBytes c) ?h" using Cons.prems(5) by (simp add: fits_header_buf_def)
  show ?case
  proof (cases step)
    case (Wait n)
    let ?sv = "sv\<lparr>serving := (serving sv)[i := (serving sv ! i)\<lparr>conn_handler := h1\<rparr>]\<rparr>"
    have h1: "total_parsed h1 = total_parsed ?h + length c" "accepts h1 = accepts ?h" "handler_ok h1"
      using onRead_waits [of "env_sse env" c ?h h1 n] r1 Wait Cons.prems(4,5) by simp_all
    have "handler_event env i (ReadBytes c) sv = Val ?sv" using r1 Wait by (simp add: handler_event_def)
    then have step1: "server_step (ReadDone env i (ReadBytes c)) sv ?sv"
      using Cons.prems(1,2) fits by (intro read_done)
    have "\<exists>h0. server_run (reads env i cs) ?sv (served i h0 ex r ?sv) \<and> accepts h0 = accepts (conn_handler (serving ?sv ! i))"
      using Cons.prems r1 Wait h1 by (intro Cons.IH) (simp_all add: free_worker_def busy_workers_def)
    moreover have "served i h0 ex r ?sv = served i h0 ex r sv" for h0
      using Cons.prems(1) by (simp add: served_def)
    ultimately show ?thesis using run_Cons [OF step1] h1(2) Cons.prems(1) by auto
  next
    case Extract
    then have "cs = []" "h1 = h" using Cons.prems(3) r1 by simp_all
    then have "handler_event env i (ReadBytes c) sv = Val (served i ?h ex r sv)"
      using r1 Extract Cons.prems(1,6) by (simp add: handler_event_def Let_def served_def)
    then have "server_step (ReadDone env i (ReadBytes c)) sv (served i ?h ex r sv)"
      using Cons.prems(1,2) fits by (intro read_done)
    with \<open>cs = []\<close> show ?thesis using run_Cons [OF _ server_run.run_refl] by (intro exI [of _ ?h]) simp
  next
    case Stop
    with Cons.prems(3) r1 show ?thesis by simp
  qed
qed simp

text \<open>The same reads when the request that they complete cannot be served: the last one is undefined behaviour.\<close>

lemma reads_undefined:
  assumes "i < length (serving sv)" "free_worker sv"
    and "read_loop (env_sse env) (map ReadBytes (chunks @ [c])) (conn_handler (serving sv ! i)) = Val (h, Extract, [])"
    and "handler_ok (conn_handler (serving sv ! i))"
    and "total_parsed (conn_handler (serving sv ! i)) + length (concat (chunks @ [c])) \<le> kMaxHttpHeaderSize"
    and "serve_request (sv_config sv) (env_beast env) (env_network env) (env_zlib env) (env_files env) (env_memory env)
      (conn_ssl (serving sv ! i)) (sv_router sv) (exchange_of env h (sv_open_files sv)) = UB"
  shows "\<exists>sv1. server_run (reads env i chunks) sv sv1 \<and> free_worker sv1 \<and> i < length (serving sv1) \<and>
    fits_header_buf (ReadBytes c) (conn_handler (serving sv1 ! i)) \<and> handler_event env i (ReadBytes c) sv1 = UB"
  using assms
proof (induction chunks arbitrary: sv)
  case Nil
  let ?h = "conn_handler (serving sv ! i)"
  obtain step where "onRead (env_sse env) (ReadBytes c) ?h = Val (h, step)" "step = Extract"
    using Nil.prems(3) by (cases "onRead (env_sse env) (ReadBytes c) ?h") (auto split: next_step.splits)
  with Nil.prems(6) have "handler_event env i (ReadBytes c) sv = UB" by (simp add: handler_event_def Let_def)
  moreover have "fits_header_buf (ReadBytes c) ?h" using Nil.prems(5) by (simp add: fits_header_buf_def)
  ultimately show ?case using Nil.prems(1,2) by (intro exI [of _ sv]) (simp add: server_run.run_refl)
next
  case (Cons d cs)
  let ?h = "conn_handler (serving sv ! i)"
  obtain h1 step where r1: "onRead (env_sse env) (ReadBytes d) ?h = Val (h1, step)"
    using Cons.prems(3) by (cases "onRead (env_sse env) (ReadBytes d) ?h") auto
  then obtain n where Wait: "step = Wait n" using Cons.prems(3) by (cases step) auto
  let ?sv = "sv\<lparr>serving := (serving sv)[i := (serving sv ! i)\<lparr>conn_handler := h1\<rparr>]\<rparr>"
  have h1: "total_parsed h1 = total_parsed ?h + length d" "handler_ok h1"
    using onRead_waits [of "env_sse env" d ?h h1 n] r1 Wait Cons.prems(4,5) by simp_all
  have "handler_event env i (ReadBytes d) sv = Val ?sv" using r1 Wait by (simp add: handler_event_def)
  moreover have "fits_header_buf (ReadBytes d) ?h" using Cons.prems(5) by (simp add: fits_header_buf_def)
  ultimately have step1: "server_step (ReadDone env i (ReadBytes d)) sv ?sv" using Cons.prems(1,2) by (intro read_done)
  have "\<exists>sv1. server_run (reads env i cs) ?sv sv1 \<and> free_worker sv1 \<and> i < length (serving sv1) \<and>
      fits_header_buf (ReadBytes c) (conn_handler (serving sv1 ! i)) \<and> handler_event env i (ReadBytes c) sv1 = UB"
    using Cons.prems r1 Wait h1 by (intro Cons.IH) (simp_all add: free_worker_def busy_workers_def)
  with run_Cons [OF step1] show ?case by auto
qed

section \<open>Accepting a connection\<close>

text \<open>The filter, the rate limiter and the handshake let a connection through.\<close>

definition lets_through :: "tls \<Rightarrow> string \<Rightarrow> server \<Rightarrow> bool" where
  "lets_through t addr sv \<longleftrightarrow> addr \<notin> GetIpBlackList (sv_config sv) \<and>
     (g_enable_rate_limiter (sv_config sv) \<longrightarrow> fst (GetToken (sv_limiter sv))) \<and>
     (GetHttps (sv_config sv) \<longrightarrow> SslHandshake t (sv_config sv))"

lemma onAccept_dispatches:
  assumes "lets_through t addr sv"
  shows "fst (onAccept t undef b (AcceptedFrom addr) sock sv) =
    sv\<lparr>sv_limiter := (if g_enable_rate_limiter (sv_config sv) then snd (GetToken (sv_limiter sv)) else sv_limiter sv),
       pending_accepts := pending_accepts sv + 2,
       serving := serving sv @ [\<lparr>conn_ssl = GetHttps (sv_config sv), conn_sock = sock,
         conn_handler = new_handler undef ((new_connection b)\<lparr>downstream_address := addr\<rparr>)\<rparr>],
       started := started sv + 1\<rparr>"
  using assms
  by (cases "GetToken (sv_limiter sv)")
    (auto simp: lets_through_def onAccept_def Filter_def Dispatch_def accept_def Let_def)

section \<open>A request through the gateway\<close>

lemma request_through_gateway:
  fixes env :: "('f, 'z) surroundings"
  assumes "free_worker sv" "0 < pending_accepts sv" "lets_through t addr sv"
    and "length (header_buf undef) = kMaxHttpHeaderSize" "length (concat pieces @ piece) \<le> kMaxHttpHeaderSize"
    and "phr_parse_request (env_sse env) kMaxHeadersNum 0 (concat pieces) = PPartial"
    and "phr_parse_request (env_sse env) kMaxHeadersNum 0 (concat pieces @ piece) = POk q rest"
    and "req_headers q \<noteq> []" "length (req_headers q) \<le> kMaxHeadersNum" "list_all usable_header (req_headers q)"
    and "unat (updated content_length_of (last_value kHeaderFieldContentLength (req_headers q)) 0) = length (rest @ concat chunks)"
    and "length rest \<le> kDefaultBufSize" "[] \<notin> set chunks" "env_reads env = map BodyData chunks @ later"
    and "GetRouteTarget (if req_path q = ''/'' then [] else req_path q) (sv_router sv) = Val (Some target, r')" "is_remote target"
    and "stringToVerb (req_method q) = Some v" "resolve_ok (env_network env) ''baidu.com'' (dec 80)"
    and "connect_ok (env_network env)" "tls_ok (env_network env)" "read_response (env_network env) = Some response"
    and "env_client env = open_socket" "env_upstream env = open_socket"
  shows "\<exists>sv'. server_run (AcceptDone t undef b (AcceptedFrom addr) sock # reads env (length (serving sv)) (pieces @ [piece])) sv sv' \<and>
    serving sv' = serving sv \<and> sv_router sv' = r' \<and> pending_accepts sv' = pending_accepts sv + 2 \<and>
    finished_conns sv' = finished_conns sv @ [\<lparr>fin_sock = Close (Some sock), fin_client = response,
      fin_upstream = request_text (env_beast env) (target_request (env_beast env) v
        (if http_url target = [] then ''/'' else http_url target) (req_headers q) ''baidu.com'') @ rest @ concat chunks\<rparr>]"
proof -
  let ?i = "length (serving sv)"
  let ?new = "new_handler undef ((new_connection b)\<lparr>downstream_address := addr\<rparr>)"
  let ?sv1 = "fst (onAccept t undef b (AcceptedFrom addr) sock (sv\<lparr>pending_accepts := pending_accepts sv - 1\<rparr>))"
  have "lets_through t addr (sv\<lparr>pending_accepts := pending_accepts sv - 1\<rparr>)" using assms(3) by (simp add: lets_through_def)
  note sv1 = onAccept_dispatches [OF this, of undef b sock]
  have accepted: "server_step (AcceptDone t undef b (AcceptedFrom addr) sock) sv ?sv1"
    using assms(1,2,4) by (simp add: accept_step)
  note new = new_handler_ok [OF assms(4), of "(new_connection b)\<lparr>downstream_address := addr\<rparr>"]
  have "feed (parser (env_sse env)) (received ?new) (pieces @ [piece]) = (POk q rest, [])"
    using new req.feed_last [of "env_sse env" kMaxHeadersNum "[]" pieces piece q rest] assms(6,7) by simp
  from read_loop_feed_ok [OF this] new assms(5) obtain h where
    read: "read_loop (env_sse env) (map ReadBytes (pieces @ [piece])) ?new = Val (h, Extract, [])" and
    h: "request h = q" "extra_body_len h = length rest" "accepts h = 0" "handler_ok h"
      "take (extra_body_len h) (drop (total_parsed h) (header_buf h)) = rest"
      "total_parsed h + extra_body_len h \<le> kMaxHttpHeaderSize" "request_content_length h = 0"
    by (auto simp: new_handler_def)
  from serve_request_forwards [OF h(1,2,5,6,4,7,3) assms(8-13,15-21), of "sv_config sv" "env_beast env" "env_zlib env" "env_files env"
      "env_memory env" "GetHttps (sv_config sv)" later "sv_open_files sv"]
  obtain ex where serve: "serve_request (sv_config sv) (env_beast env) (env_network env) (env_zlib env) (env_files env)
      (env_memory env) (GetHttps (sv_config sv)) (sv_router sv) (exchange_of env h (sv_open_files sv)) = Val (Returned, ex, r')"
    and ex: "sent (upstream ex) = request_text (env_beast env) (target_request (env_beast env) v
        (if http_url target = [] then ''/'' else http_url target) (req_headers q) ''baidu.com'') @ rest @ concat chunks"
      "sent (client ex) = response" "accepts (handler ex) = 1"
    using assms(14,22,23) by auto
  have "free_worker ?sv1" "handler_ok ?new" "total_parsed ?new + length (concat (pieces @ [piece])) \<le> kMaxHttpHeaderSize"
    using assms(1,5) new sv1 by (simp_all add: free_worker_def busy_workers_def)
  with reads_run [of ?i ?sv1 env "pieces @ [piece]" h ex r'] sv1 read serve obtain h0 where
    run: "server_run (reads env ?i (pieces @ [piece])) ?sv1 (served ?i h0 ex r' ?sv1)" and h0: "accepts h0 = accepts ?new" by auto
  show ?thesis
    using run_Cons [OF accepted run] ex h0 new sv1 assms(2)
    by (intro exI [of _ "served ?i h0 ex r' ?sv1"] conjI)
      (simp_all add: served_def handler_done_def remove_nth_def delete_HttpProxyHandler_def)
qed

text \<open>When the lookup of the request's path is undefined, so is the read that completes its header.\<close>

lemma route_undefined:
  "GetRouteTarget (request_url (handler ex)) r = UB \<Longrightarrow> route b net z fs mem is_ssl r ex = UB"
  by (simp add: route_def request_url_def Let_def cong: if_cong)

lemma request_undefined_in_gateway:
  fixes env :: "('f, 'z) surroundings"
  assumes "free_worker sv" "0 < pending_accepts sv" "lets_through t addr sv"
    and "length (header_buf undef) = kMaxHttpHeaderSize" "length (concat pieces @ piece) \<le> kMaxHttpHeaderSize"
    and "phr_parse_request (env_sse env) kMaxHeadersNum 0 (concat pieces) = PPartial"
    and "phr_parse_request (env_sse env) kMaxHeadersNum 0 (concat pieces @ piece) = POk q rest"
    and "req_headers q \<noteq> []" "length (req_headers q) \<le> kMaxHeadersNum" "list_all usable_header (req_headers q)"
    and "GetRouteTarget (if req_path q = ''/'' then [] else req_path q) (sv_router sv) = UB"
  shows "\<exists>sv1. server_run (AcceptDone t undef b (AcceptedFrom addr) sock # reads env (length (serving sv)) pieces) sv sv1 \<and>
    free_worker sv1 \<and> length (serving sv) < length (serving sv1) \<and>
    fits_header_buf (ReadBytes piece) (conn_handler (serving sv1 ! length (serving sv))) \<and>
    handler_event env (length (serving sv)) (ReadBytes piece) sv1 = UB"
proof -
  let ?i = "length (serving sv)"
  let ?new = "new_handler undef ((new_connection b)\<lparr>downstream_address := addr\<rparr>)"
  let ?sv1 = "fst (onAccept t undef b (AcceptedFrom addr) sock (sv\<lparr>pending_accepts := pending_accepts sv - 1\<rparr>))"
  have "lets_through t addr (sv\<lparr>pending_accepts := pending_accepts sv - 1\<rparr>)" using assms(3) by (simp add: lets_through_def)
  note sv1 = onAccept_dispatches [OF this, of undef b sock]
  have accepted: "server_step (AcceptDone t undef b (AcceptedFrom addr) sock) sv ?sv1"
    using assms(1,2,4) by (simp add: accept_step)
  note new = new_handler_ok [OF assms(4), of "(new_connection b)\<lparr>downstream_address := addr\<rparr>"]
  have "feed (parser (env_sse env)) (received ?new) (pieces @ [piece]) = (POk q rest, [])"
    using new req.feed_last [of "env_sse env" kMaxHeadersNum "[]" pieces piece q rest] assms(6,7) by simp
  from read_loop_feed_ok [OF this] new assms(5) obtain h where
    read: "read_loop (env_sse env) (map ReadBytes (pieces @ [piece])) ?new = Val (h, Extract, [])" and
    h: "request h = q" "request_content_length h = 0" by (auto simp: new_handler_def)
  obtain m where m: "extractMetadata (sv_config sv) h = (True, store_meta m h)"
    using extractMetadata_ok [of h "sv_config sv"] h assms(8-10) by auto
  have "GetRouteTarget (request_url (store_meta m h)) (sv_router sv) = UB"
    using assms(11) h(1) by (simp add: request_url_def store_meta_def cong: if_cong)
  then have serve: "serve_request (sv_config sv) (env_beast env) (env_network env) (env_zlib env) (env_files env)
      (env_memory env) (GetHttps (sv_config sv)) (sv_router sv) (exchange_of env h (sv_open_files sv)) = UB"
    using m by (simp add: serve_request_def route_undefined)
  have "free_worker ?sv1" "handler_ok ?new" "total_parsed ?new + length (concat (pieces @ [piece])) \<le> kMaxHttpHeaderSize"
    using assms(1,5) new sv1 by (simp_all add: free_worker_def busy_workers_def)
  with reads_undefined [of ?i ?sv1 env pieces piece h] sv1 read serve obtain sv2 where
    "server_run (reads env ?i pieces) ?sv1 sv2" "free_worker sv2" "?i < length (serving sv2)"
    "fits_header_buf (ReadBytes piece) (conn_handler (serving sv2 ! ?i))" "handler_event env ?i (ReadBytes piece) sv2 = UB" by auto
  with run_Cons [OF accepted] show ?thesis by blast
qed

section \<open>Theorem\<close>

text \<open>C2: A request goes through the whole gateway: from any state of the server with a free worker and an
  outstanding accept, when a connection that is let through is accepted and sends a well-formed request
  for a remote route in any number of pieces, the last of which completes the header, then after these
  completions the handler is gone, its socket closed, the target has received exactly the rewritten
  header and the body, the client exactly the target's response, and two more accepts are outstanding.
  The target is always port 80 of \<^verbatim>\<open>baidu.com\<close>, which the code puts in place of the configured address; of the
  route only the path of the URL is used.\<close>

theorem gateway_serves_request:
  fixes env :: "('f, 'z) surroundings"
  assumes "free_worker sv" "0 < pending_accepts sv" "lets_through t addr sv"
    and "length (header_buf undef) = kMaxHttpHeaderSize" "length (concat pieces @ piece) \<le> kMaxHttpHeaderSize"
    and "phr_parse_request (env_sse env) kMaxHeadersNum 0 (concat pieces) = PPartial"
    and "phr_parse_request (env_sse env) kMaxHeadersNum 0 (concat pieces @ piece) = POk q rest"
    and "req_headers q \<noteq> []" "length (req_headers q) \<le> kMaxHeadersNum" "list_all usable_header (req_headers q)"
    and "unat (updated content_length_of (last_value kHeaderFieldContentLength (req_headers q)) 0) = length (rest @ concat chunks)"
    and "length rest \<le> kDefaultBufSize" "[] \<notin> set chunks" "env_reads env = map BodyData chunks @ later"
    and "GetRouteTarget (if req_path q = ''/'' then [] else req_path q) (sv_router sv) = Val (Some target, r')" "is_remote target"
    and "stringToVerb (req_method q) = Some v" "resolve_ok (env_network env) ''baidu.com'' (dec 80)"
    and "connect_ok (env_network env)" "tls_ok (env_network env)" "read_response (env_network env) = Some response"
    and "env_client env = open_socket" "env_upstream env = open_socket"
  shows "\<exists>sv'. server_run (AcceptDone t undef b (AcceptedFrom addr) sock # reads env (length (serving sv)) (pieces @ [piece])) sv sv' \<and>
    serving sv' = serving sv \<and> sv_router sv' = r' \<and> pending_accepts sv' = pending_accepts sv + 2 \<and>
    finished_conns sv' = finished_conns sv @ [\<lparr>fin_sock = Close (Some sock), fin_client = response,
      fin_upstream = request_text (env_beast env) (target_request (env_beast env) v
        (if http_url target = [] then ''/'' else http_url target) (req_headers q) ''baidu.com'') @ rest @ concat chunks\<rparr>]"
  using assms by (rule request_through_gateway)

section \<open>Witness\<close>

text \<open>A request that announces five bytes and comes in pieces: two with parts of the header, one with its end
  and two bytes of the body, and the other three bytes later.\<close>

definition put_pieces :: "string list" where
  "put_pieces = [''PUT / HTTP/1.1'' @ [CR, LF] @ ''Conte'', ''nt-Length: 5'' @ [CR, LF, CR]]"

definition talking_surroundings :: "((string \<times> string) list, string) surroundings" where
  "talking_surroundings = silent_surroundings\<lparr>env_reads := map BodyData [''c'', ''de''] @ [BodyEof]\<rparr>"

lemma put_request_usable: "list_all usable_header (req_headers put_request)"
  by (simp add: usable_header_def put_request_def put_request_length)

lemma put_request_content_length:
  "unat (updated content_length_of (last_value kHeaderFieldContentLength (req_headers put_request)) 0) = 5"
proof -
  have "last_value kHeaderFieldContentLength (req_headers put_request) = Some ''5''" by code_simp
  then show ?thesis by (simp add: updated_def content_length_of_def put_request_length)
qed

theorem gateway_serves_request_witness:
  "\<exists>sv'. server_run (AcceptDone plain_tls some_memory False (AcceptedFrom ''10.0.0.9'') \<lparr>sock_open = True, sock_shutdown = False\<rparr> #
      reads talking_surroundings 0 (put_pieces @ [[LF] @ ''ab''])) (azugate_start 0 default_gateway) sv' \<and>
    map fin_client (finished_conns sv') = [''pong''] \<and> serving sv' = [] \<and> pending_accepts sv' = 3"
proof -
  let ?sv = "azugate_start 0 default_gateway"
  note defs = azugate_start_def Run_def accept_def new_server_def Let_def default_gateway_def initial_config_def
  have start: "free_worker ?sv" "pending_accepts ?sv = 1" "serving ?sv = []" "finished_conns ?sv = []"
    "sv_router ?sv = one_route [] False" "lets_through plain_tls ''10.0.0.9'' ?sv"
    by (simp_all add: defs free_worker_def busy_workers_def lets_through_def GetIpBlackList_def GetHttps_def)
  have parsed: "phr_parse_request True kMaxHeadersNum 0 (concat put_pieces) = PPartial"
    "phr_parse_request True kMaxHeadersNum 0 (concat put_pieces @ [LF] @ ''ab'') = POk put_request ''ab''"
    "length (concat put_pieces @ [LF] @ ''ab'') \<le> kMaxHttpHeaderSize" by code_simp+
  have env: "env_sse talking_surroundings = True" "env_network talking_surroundings = good_network"
    "env_reads talking_surroundings = map BodyData [''c'', ''de''] @ [BodyEof]"
    "env_client talking_surroundings = open_socket" "env_upstream talking_surroundings = open_socket"
    by (simp_all add: talking_surroundings_def silent_surroundings_def)
  show ?thesis
    using gateway_serves_request [of ?sv plain_tls "''10.0.0.9''" some_memory put_pieces "[LF] @ ''ab''" talking_surroundings
        put_request "''ab''" "[''c'', ''de'']" "[BodyEof]" "http_target ''/a.html'' False" "one_route [] False" Put "''pong''"
        False "\<lparr>sock_open = True, sock_shutdown = False\<rparr>"]
      start parsed env put_request_usable put_request_content_length one_route_lookup [of "[]" False] some_memory_size
    by (auto simp: put_request_def kMaxHeadersNum_def kDefaultBufSize_def http_target_remote stringToVerb_def good_network_def read_response_def)
qed
end
