(* ===== verification/Go_Encoding.thy ===== *)
theory Go_Encoding
  imports Prelude
begin

text \<open>
  What the Go part of the gateway uses of the packages \<^verbatim>\<open>encoding/base64\<close>, \<^verbatim>\<open>encoding/pem\<close>, \<^verbatim>\<open>crypto/x509\<close> and
  \<^verbatim>\<open>crypto/sha256\<close>: base64 with the standard and the URL alphabet, PEM blocks without headers, the DER form of an
  RSA public key, and the SHA-256 digest. A byte is a character. The laws of base64 are proved once, in a
  locale over the alphabet.
\<close>

section \<open>Base64\<close>

text \<open>Groups of three bytes become four digits; a last group of one or two bytes becomes two or three digits.\<close>

fun sextets :: "nat list \<Rightarrow> nat list" where
  "sextets [] = []"
| "sextets [a] = [a div 4, a mod 4 * 16]"
| "sextets [a, b] = [a div 4, a mod 4 * 16 + b div 16, b mod 16 * 4]"
| "sextets (a # b # c # bytes) =
     [a div 4, a mod 4 * 16 + b div 16, b mod 16 * 4 + c div 64, c mod 64] @ sextets bytes"

fun octets :: "nat list \<Rightarrow> nat list" where
  "octets (s # t # u # v # digits) =
     [s * 4 + t div 16, t mod 16 * 16 + u div 4, u mod 4 * 64 + v] @ octets digits"
| "octets [s, t, u] = [s * 4 + t div 16, t mod 16 * 16 + u div 4]"
| "octets [s, t] = [s * 4 + t div 16]"
| "octets digits = []"

lemma sextets_less: "list_all (\<lambda>b. b < 256) bytes \<Longrightarrow> list_all (\<lambda>s. s < 64) (sextets bytes)"
  by (induction bytes rule: sextets.induct) (auto simp: less_mult_imp_div_less)

lemma octets_sextets: "list_all (\<lambda>b. b < 256) bytes \<Longrightarrow> octets (sextets bytes) = bytes"
proof (induction bytes rule: sextets.induct)
  case (4 a b c bytes)
  then have "a < 256" "b < 256" "c < 256" "octets (sextets bytes) = bytes" by simp_all
  moreover have "(a mod 4 * 16 + b div 16) div 16 = a mod 4" "(a mod 4 * 16 + b div 16) mod 16 = b div 16"
    "(b mod 16 * 4 + c div 64) div 4 = b mod 16" "(b mod 16 * 4 + c div 64) mod 4 = c div 64"
    if "b < 256" "c < 256" using that by (auto simp: div_add1_eq less_mult_imp_div_less mod_add_left_eq [symmetric])
  ultimately show ?case by simp
qed (auto simp: div_add1_eq less_mult_imp_div_less)

lemma length_sextets: "length (sextets bytes) = (length bytes * 4 + 2) div 3"
  by (induction bytes rule: sextets.induct) auto

text \<open>The digits as characters of an alphabet, and the padding of the standard encoding.\<close>

definition raw_encode :: "string \<Rightarrow> string \<Rightarrow> string" where
  "raw_encode alphabet bytes = map (\<lambda>s. alphabet ! s) (sextets (map code bytes))"

definition padding :: "string \<Rightarrow> string" where
  "padding bytes = (if length bytes mod 3 = 1 then ''=='' else if length bytes mod 3 = 2 then ''='' else [])"

definition std_alphabet :: string where
  "std_alphabet = ''ABCDEFGHIJKLMNOPQRSTUVWXYZabcdefghijklmnopqrstuvwxyz0123456789+/''"

definition url_alphabet :: string where
  "url_alphabet = ''ABCDEFGHIJKLMNOPQRSTUVWXYZabcdefghijklmnopqrstuvwxyz0123456789-_''"

definition StdEncoding :: "string \<Rightarrow> string" where
  "StdEncoding bytes = raw_encode std_alphabet bytes @ padding bytes"

definition RawURLEncoding :: "string \<Rightarrow> string" where
  "RawURLEncoding bytes = raw_encode url_alphabet bytes"

text \<open>A decoder, to state what is not lost: \<open>None\<close> when a character is not in the alphabet.\<close>

definition raw_decode :: "string \<Rightarrow> string \<Rightarrow> string option" where
  "raw_decode alphabet msg =
     (if set msg \<subseteq> set alphabet
      then Some (map char_of (octets (map (\<lambda>c. the (find_char c alphabet)) msg))) else None)"

definition std_decode :: "string \<Rightarrow> string option" where
  "std_decode msg = raw_decode std_alphabet (takeWhile (\<lambda>c. c \<noteq> CHR ''='') msg)"

lemma code_bytes: "list_all (\<lambda>b. b < 256) (map code bytes)"
proof -
  have "code c < 256" for c using nat_of_char_less_256 [of c] by simp
  then show ?thesis by (simp add: list_all_iff)
qed

locale base64_alphabet =
  fixes alphabet :: string
  assumes sixty_four: "length alphabet = 64"
    and unambiguous: "distinct alphabet"
begin

lemma digit_found: "s < 64 \<Longrightarrow> find_char (alphabet ! s) alphabet = Some s"
  using sixty_four unambiguous
  by (auto simp: find_char_Some in_set_conv_nth nth_eq_iff_index_eq)

lemma encoded_chars: "set (raw_encode alphabet bytes) \<subseteq> set alphabet"
  using sextets_less [OF code_bytes, of bytes] sixty_four by (auto simp: raw_encode_def list_all_iff)

lemma decode_encode: "raw_decode alphabet (raw_encode alphabet bytes) = Some bytes"
proof -
  have less: "s < 64" if "s \<in> set (sextets (map code bytes))" for s
    using sextets_less [OF code_bytes, of bytes] that by (simp add: list_all_iff)
  have "map (\<lambda>c. the (find_char c alphabet)) (raw_encode alphabet bytes) = sextets (map code bytes)"
    unfolding raw_encode_def map_map by (rule map_idI) (simp add: digit_found less)
  moreover have "map char_of (map code bytes) = bytes" by (simp add: comp_def)
  ultimately show ?thesis
    using encoded_chars [of bytes] by (simp add: raw_decode_def octets_sextets [OF code_bytes])
qed

lemma length_encode: "length (raw_encode alphabet bytes) = (length bytes * 4 + 2) div 3"
  by (simp add: raw_encode_def length_sextets)

end

interpretation std: base64_alphabet std_alphabet
  by unfold_locales (simp_all add: std_alphabet_def)

interpretation url: base64_alphabet url_alphabet
  by unfold_locales (simp_all add: url_alphabet_def)

lemma std_decode_encode: "std_decode (StdEncoding bytes) = Some bytes"
proof -
  have "CHR ''='' \<notin> set std_alphabet" by (simp add: std_alphabet_def)
  then have "CHR ''='' \<notin> set (raw_encode std_alphabet bytes)" using std.encoded_chars by blast
  then have "takeWhile (\<lambda>c. c \<noteq> CHR ''='') (StdEncoding bytes) = raw_encode std_alphabet bytes"
    by (auto simp: StdEncoding_def padding_def takeWhile_append)
  then show ?thesis by (simp add: std_decode_def std.decode_encode)
qed

section \<open>PEM\<close>

text \<open>The base64 text in lines of 64 characters between the lines that name the type of the block.\<close>

function pem_lines :: "string \<Rightarrow> string" where
  "pem_lines msg = (if msg = [] then [] else take 64 msg @ [LF] @ pem_lines (drop 64 msg))"
  by pat_completeness auto
termination
  by (relation "measure length") auto

declare pem_lines.simps [simp del]

definition pem_begin :: "string \<Rightarrow> string" where
  "pem_begin typ = ''-----BEGIN '' @ typ @ ''-----'' @ [LF]"

definition pem_end :: "string \<Rightarrow> string" where
  "pem_end typ = ''-----END '' @ typ @ ''-----'' @ [LF]"

definition EncodeToMemory :: "string \<Rightarrow> string \<Rightarrow> string" where
  "EncodeToMemory typ bytes = pem_begin typ @ pem_lines (StdEncoding bytes) @ pem_end typ"

text \<open>A decoder for blocks of one type.\<close>

definition pem_decode :: "string \<Rightarrow> string \<Rightarrow> string option" where
  "pem_decode typ msg =
     (if prefix (pem_begin typ) msg \<and> suffix (pem_end typ) msg
      then std_decode (filter (\<lambda>c. c \<noteq> LF)
        (take (length msg - length (pem_begin typ) - length (pem_end typ)) (drop (length (pem_begin typ)) msg)))
      else None)"

lemma pem_lines_text: "LF \<notin> set msg \<Longrightarrow> filter (\<lambda>c. c \<noteq> LF) (pem_lines msg) = msg"
proof (induction msg rule: pem_lines.induct)
  case (1 msg)
  have "filter (\<lambda>c. c \<noteq> LF) (take 64 msg) = take 64 msg"
    using 1(2) by (auto simp: filter_id_conv dest: in_set_takeD)
  moreover have "LF \<notin> set (drop 64 msg)" using 1(2) by (auto dest: in_set_dropD)
  ultimately show ?case using 1(1) by (subst pem_lines.simps) simp
qed

lemma set_pem_lines: "set (pem_lines msg) \<subseteq> insert LF (set msg)"
proof (induction msg rule: pem_lines.induct)
  case (1 msg)
  then show ?case by (subst pem_lines.simps) (auto dest: in_set_takeD in_set_dropD)
qed

lemma StdEncoding_chars: "set (StdEncoding bytes) \<subseteq> insert (CHR ''='') (set std_alphabet)"
  using std.encoded_chars [of bytes] by (auto simp: StdEncoding_def padding_def)

lemma pem_decode_encode: "pem_decode typ (EncodeToMemory typ bytes) = Some bytes"
proof -
  have "LF \<notin> set (StdEncoding bytes)" using StdEncoding_chars [of bytes] by (auto simp: std_alphabet_def)
  then show ?thesis
    by (simp add: pem_decode_def EncodeToMemory_def suffix_def pem_lines_text std_decode_encode)
qed

section \<open>RSA keys in DER form\<close>

record rsa_PublicKey =
  rsa_N :: nat
  rsa_E :: nat

definition der :: "nat \<Rightarrow> string \<Rightarrow> string" where
  "der tag content =
     (let n = length content; ds = radix 256 n
      in map char_of (tag # (if n < 128 then [n] else (128 + length ds) # ds)) @ content)"

definition der_integer :: "nat \<Rightarrow> string" where
  "der_integer n = (let ds = radix 256 n in der 2 (map char_of (if hd ds < 128 then ds else 0 # ds)))"

text \<open>The object identifier \<^verbatim>\<open>rsaEncryption\<close> with its null parameter, and the key as a bit string.\<close>

definition rsaEncryption :: string where
  "rsaEncryption = der 48 (der 6 (map char_of [42, 134, 72, 134, 247, 13, 1, 1, (1 :: nat)]) @ der 5 [])"

definition MarshalPKIXPublicKey :: "rsa_PublicKey \<Rightarrow> string + string" where
  "MarshalPKIXPublicKey pub =
     Inr (der 48 (rsaEncryption @ der 3 (CHR 0x00 # der 48 (der_integer (rsa_N pub) @ der_integer (rsa_E pub)))))"

section \<open>SHA-256\<close>

definition rotr :: "nat \<Rightarrow> u32 \<Rightarrow> u32" where
  "rotr n x = or (drop_bit n x) (push_bit (32 - n) x)"

definition sha256_k :: "u32 list" where
  "sha256_k =
     [0x428a2f98, 0x71374491, 0xb5c0fbcf, 0xe9b5dba5, 0x3956c25b, 0x59f111f1, 0x923f82a4, 0xab1c5ed5,
      0xd807aa98, 0x12835b01, 0x243185be, 0x550c7dc3, 0x72be5d74, 0x80deb1fe, 0x9bdc06a7, 0xc19bf174,
      0xe49b69c1, 0xefbe4786, 0x0fc19dc6, 0x240ca1cc, 0x2de92c6f, 0x4a7484aa, 0x5cb0a9dc, 0x76f988da,
      0x983e5152, 0xa831c66d, 0xb00327c8, 0xbf597fc7, 0xc6e00bf3, 0xd5a79147, 0x06ca6351, 0x14292967,
      0x27b70a85, 0x2e1b2138, 0x4d2c6dfc, 0x53380d13, 0x650a7354, 0x766a0abb, 0x81c2c92e, 0x92722c85,
      0xa2bfe8a1, 0xa81a664b, 0xc24b8b70, 0xc76c51a3, 0xd192e819, 0xd6990624, 0xf40e3585, 0x106aa070,
      0x19a4c116, 0x1e376c08, 0x2748774c, 0x34b0bcb5, 0x391c0cb3, 0x4ed8aa4a, 0x5b9cca4f, 0x682e6ff3,
      0x748f82ee, 0x78a5636f, 0x84c87814, 0x8cc70208, 0x90befffa, 0xa4506ceb, 0xbef9a3f7, 0xc67178f2]"

definition sha256_init :: "u32 list" where
  "sha256_init = [0x6a09e667, 0xbb67ae85, 0x3c6ef372, 0xa54ff53a, 0x510e527f, 0x9b05688c, 0x1f83d9ab, 0x5be0cd19]"

primrec extend_words :: "nat \<Rightarrow> u32 list \<Rightarrow> u32 list" where
  "extend_words 0 w = w"
| "extend_words (Suc n) w =
     (let t = length w; x = w ! (t - 15); y = w ! (t - 2);
          s0 = xor (xor (rotr 7 x) (rotr 18 x)) (drop_bit 3 x);
          s1 = xor (xor (rotr 17 y) (rotr 19 y)) (drop_bit 10 y)
      in extend_words n (w @ [s1 + w ! (t - 7) + s0 + w ! (t - 16)]))"

fun sha256_round :: "u32 \<times> u32 \<Rightarrow> u32 list \<Rightarrow> u32 list" where
  "sha256_round (k, w) [a, b, c, d, e, f, g, h] =
     (let s1 = xor (xor (rotr 6 e) (rotr 11 e)) (rotr 25 e);
          ch = xor (and e f) (and (not e) g);
          t1 = h + s1 + ch + k + w;
          s0 = xor (xor (rotr 2 a) (rotr 13 a)) (rotr 22 a);
          maj = xor (xor (and a b) (and a c)) (and b c)
      in [t1 + (s0 + maj), a, b, c, d + t1, e, f, g])"
| "sha256_round kw hs = hs"

definition sha256_block :: "u32 list \<Rightarrow> u32 list \<Rightarrow> u32 list" where
  "sha256_block block hs = map2 (+) hs (fold sha256_round (zip sha256_k (extend_words 48 block)) hs)"

text \<open>The message with its padding and its length in bits, cut into blocks of sixteen words.\<close>

definition sha256_pad :: "string \<Rightarrow> nat list" where
  "sha256_pad bytes =
     (let n = length bytes
      in map code bytes @ [128] @ replicate ((119 - n mod 64) mod 64) 0 @
         map (\<lambda>i. unat (take_bit 8 (drop_bit (8 * (7 - i)) (word_of_nat (8 * n) :: u64)))) [0..<8])"

fun big_endian_words :: "nat list \<Rightarrow> u32 list" where
  "big_endian_words (a # b # c # d # bytes) = foldl (\<lambda>w b. push_bit 8 w + word_of_nat b) 0 [a, b, c, d] # big_endian_words bytes"
| "big_endian_words bytes = []"

function blocks_of :: "u32 list \<Rightarrow> u32 list list" where
  "blocks_of ws = (if length ws < 16 then [] else take 16 ws # blocks_of (drop 16 ws))"
  by pat_completeness auto
termination
  by (relation "measure length") auto

declare blocks_of.simps [simp del]

definition word_bytes :: "u32 \<Rightarrow> string" where
  "word_bytes w = map (\<lambda>i. char_of (unat (take_bit 8 (drop_bit (8 * (3 - i)) w)))) [0..<4]"

definition sha256 :: "string \<Rightarrow> string" where
  "sha256 bytes = concat (map word_bytes (fold sha256_block (blocks_of (big_endian_words (sha256_pad bytes))) sha256_init))"

lemma length_sha256_round [simp]: "length (sha256_round kw hs) = length hs"
  by (induction kw hs rule: sha256_round.induct) (simp_all add: Let_def)

lemma length_rounds [simp]: "length (fold sha256_round kws hs) = length hs"
  by (induction kws arbitrary: hs) simp_all

lemma length_blocks [simp]: "length (fold sha256_block blocks hs) = length hs"
  by (induction blocks arbitrary: hs) (simp_all add: sha256_block_def)

lemma length_sha256: "length (sha256 bytes) = 32"
proof -
  have "length (concat (map word_bytes hs)) = 4 * length hs" for hs
    by (induction hs) (simp_all add: word_bytes_def)
  then show ?thesis by (simp add: sha256_def sha256_init_def)
qed
end
