(* ===== verification/Front_End.thy ===== *)
theory Front_End
  imports Go_Encoding Binding
begin

text \<open>
  The Go front end: the configuration file (\<^verbatim>\<open>internal/config/config.go\<close>), the calls of the C interface
  (\<^verbatim>\<open>core/binding/binding.go\<close>) and the program (\<^verbatim>\<open>cmd/azugate/main.go\<close>). The operating system, the YAML library and the
  library that generates keys are parameters. An error of Go is its message. What the C++ part keeps from
  one call to the next is the record \<open>globals\<close> of \<open>Binding\<close>.
\<close>

section \<open>Packages strings and filepath\<close>

definition Trim :: "string \<Rightarrow> char \<Rightarrow> string" where
  "Trim s c = rev (dropWhile (\<lambda>x. x = c) (rev (dropWhile (\<lambda>x. x = c) s)))"

text \<open>\<^verbatim>\<open>filepath.Clean\<close> on Unix, for the elements between the slashes: empty elements and \<^verbatim>\<open>.\<close> are dropped, and \<^verbatim>\<open>..\<close>
  removes the element before it.\<close>

fun path_elements :: "string \<Rightarrow> string list" where
  "path_elements [] = [[]]"
| "path_elements (c # cs) =
     (if c = CHR ''/'' then [] # path_elements cs
      else case path_elements cs of [] \<Rightarrow> [[c]] | e # es \<Rightarrow> (c # e) # es)"

fun clean_elements :: "bool \<Rightarrow> string list \<Rightarrow> string list \<Rightarrow> string list" where
  "clean_elements rooted out [] = rev out"
| "clean_elements rooted out (e # es) =
     (if e = [] \<or> e = ''.'' then clean_elements rooted out es
      else if e = ''..'' then
        (case out of
           [] \<Rightarrow> clean_elements rooted (if rooted then [] else [''..'']) es
         | d # ds \<Rightarrow> clean_elements rooted (if d = ''..'' then ''..'' # out else ds) es)
      else clean_elements rooted (e # out) es)"

fun join_elements :: "string list \<Rightarrow> string" where
  "join_elements [] = []"
| "join_elements [e] = e"
| "join_elements (e # es) = e @ ''/'' @ join_elements es"

definition Clean :: "string \<Rightarrow> string" where
  "Clean path =
     (let rooted = prefix ''/'' path; body = join_elements (clean_elements rooted [] (path_elements path))
      in if rooted then CHR ''/'' # body else if body = [] then ''.'' else body)"

definition Dir :: "string \<Rightarrow> string" where
  "Dir path = Clean (case find_last_char (CHR ''/'') path of None \<Rightarrow> [] | Some n \<Rightarrow> take (Suc n) path)"

definition Join :: "string list \<Rightarrow> string" where
  "Join elems =
     (let rest = dropWhile (\<lambda>e. e = []) elems in if rest = [] then [] else Clean (join_elements rest))"

section \<open>The configuration file\<close>

type_synonym go_int = "64 word"

record Match =
  Prefix :: "string option"
  Path :: "string option"

record Config_RouteAction =
  Local :: bool
  To :: string

record Route =
  route_match :: Match
  route_action :: Config_RouteAction

record Config =
  Port :: go_int
  Routes :: "Route list"

text \<open>\<^verbatim>\<open>Load\<close>, over the reading of files and the decoding of YAML into a zero value.\<close>

definition Load :: "(string \<Rightarrow> string + string) \<Rightarrow> (string \<Rightarrow> Config \<Rightarrow> string + Config) \<Rightarrow> string \<Rightarrow> string + Config" where
  "Load ReadFile Unmarshal path =
     (case ReadFile path of
        Inl err \<Rightarrow> Inl (''failed to read config file: '' @ err)
      | Inr bytes \<Rightarrow>
          (case Unmarshal bytes \<lparr>Port = 0, Routes = []\<rparr> of
             Inl err \<Rightarrow> Inl (''failed to parse config file: '' @ err)
           | Inr cfg \<Rightarrow> Inr cfg))"

section \<open>The binding\<close>

definition normalizeURL :: "string \<Rightarrow> string" where
  "normalizeURL u = (let u = Trim u (CHR ''/'') in if u = [] then [] else CHR ''/'' # u)"

definition boolToInt :: "bool \<Rightarrow> int" where
  "boolToInt b = (if b then 1 else 0)"

definition publicKeyToPEM :: "rsa_PublicKey \<Rightarrow> string + string" where
  "publicKeyToPEM pub =
     (case MarshalPKIXPublicKey pub of
        Inl err \<Rightarrow> Inl err
      | Inr bytes \<Rightarrow> Inr (EncodeToMemory ''PUBLIC KEY'' bytes))"

text \<open>\<^verbatim>\<open>C.CString\<close>: a copy of the bytes with a terminator. What the C++ part finds in uninitialised members is an argument.\<close>

definition CString :: "string \<Rightarrow> string" where
  "CString s = s @ [NUL]"

definition Azugate_AddPrefixMatchRoute :: "bool \<Rightarrow> string \<Rightarrow> string \<Rightarrow> bool \<Rightarrow> globals \<Rightarrow> globals" where
  "Azugate_AddPrefixMatchRoute undef_remote sourceURL targetURL isLocal g =
     azugate_add_prefix_match_route undef_remote (CString (normalizeURL sourceURL)) (CString (normalizeURL targetURL))
       (boolToInt isLocal) g"

definition Azugate_AddPathMatchRoute :: "size_t \<Rightarrow> string \<Rightarrow> string \<Rightarrow> bool \<Rightarrow> globals \<Rightarrow> globals" where
  "Azugate_AddPathMatchRoute undef_index sourceURL targetURL isLocal g =
     azugate_add_path_match_route undef_index (CString (normalizeURL sourceURL)) (CString (normalizeURL targetURL))
       (boolToInt isLocal) g"

text \<open>The uninitialised members that the additions find, one pair for each route.\<close>

type_synonym leftovers = "nat \<Rightarrow> size_t \<times> bool"

definition no_match_error :: string where
  "no_match_error = ''neither prefix nor path was found in the route element''"

fun add_routes :: "leftovers \<Rightarrow> Route list \<Rightarrow> globals \<Rightarrow> string option \<times> globals" where
  "add_routes undef [] g = (None, g)"
| "add_routes undef (r # routes) g =
     (let action = route_action r; rest = (\<lambda>i. undef (Suc i)) in
      case Path (route_match r) of
        Some path \<Rightarrow>
          add_routes rest routes (Azugate_AddPathMatchRoute (fst (undef 0)) path (To action) (Local action) g)
      | None \<Rightarrow>
          (case Prefix (route_match r) of
             Some pre \<Rightarrow>
               add_routes rest routes (Azugate_AddPrefixMatchRoute (snd (undef 0)) pre (To action) (Local action) g)
           | None \<Rightarrow> (Some no_match_error, g)))"

definition NewAzugate :: "leftovers \<Rightarrow> Config \<Rightarrow> rsa_PublicKey \<Rightarrow> globals \<Rightarrow> string option \<times> globals" where
  "NewAzugate undef cfg publicKey g =
     (case publicKeyToPEM publicKey of
        Inl err \<Rightarrow> (Some err, g)
      | Inr pem \<Rightarrow>
          add_routes undef (Routes cfg)
            (azugate_load_config \<lparr>binding_port = ucast (Port cfg), binding_jwt_public_key_pem = CString pem\<rparr> g))"

text \<open>
  \<^verbatim>\<open>Start\<close>. The constructor of the acceptor throws when the port cannot be bound; nothing catches it, and the
  process ends.
\<close>

definition Azugate_Start :: "(u16 \<Rightarrow> bool) \<Rightarrow> nat \<Rightarrow> globals \<Rightarrow> server option" where
  "Azugate_Start can_bind now g = (if can_bind (g_port (gl_config g)) then Some (azugate_start now g) else None)"

section \<open>The program\<close>

text \<open>A panic with its message, the return after an error was logged, the abort in the C++ part, or a gateway that runs.\<close>

datatype run_result = Panic string | Logged string | Aborted | Serving server

record machine =
  Executable :: "string + string"
  ReadFile :: "string \<Rightarrow> string + string"
  Unmarshal :: "string \<Rightarrow> Config \<Rightarrow> string + Config"
  GeneratePrivateKey :: "string + rsa_PublicKey"
  can_bind :: "u16 \<Rightarrow> bool"
  leftover :: leftovers
  clock :: nat

definition main_main :: "machine \<Rightarrow> globals \<Rightarrow> run_result" where
  "main_main m g =
     (case Executable m of
        Inl err \<Rightarrow> Panic err
      | Inr exePath \<Rightarrow>
          (case Load (ReadFile m) (Unmarshal m) (Join [Dir exePath, ''config.yaml'']) of
             Inl err \<Rightarrow> Panic err
           | Inr cfg \<Rightarrow>
               (case GeneratePrivateKey m of
                  Inl err \<Rightarrow> Logged err
                | Inr publicKey \<Rightarrow>
                    (case NewAzugate (leftover m) cfg publicKey g of
                       (Some err, _) \<Rightarrow> Panic err
                     | (None, g) \<Rightarrow>
                         (case Azugate_Start (can_bind m) (clock m) g of None \<Rightarrow> Aborted | Some sv \<Rightarrow> Serving sv)))))"

text \<open>The variables of the C++ part when the process starts.\<close>

definition initial_globals :: "signals \<Rightarrow> globals" where
  "initial_globals sigs = \<lparr>gl_config = initial_config, gl_router = empty_router, gl_signals = sigs\<rparr>"

section \<open>Normal forms of URLs\<close>

lemma Trim_ends: "Trim s c \<noteq> [] \<Longrightarrow> hd (Trim s c) \<noteq> c \<and> last (Trim s c) \<noteq> c"
proof -
  let ?s = "dropWhile (\<lambda>x. x = c) s" and ?t = "dropWhile (\<lambda>x. x = c) (rev (dropWhile (\<lambda>x. x = c) s))"
  assume ne: "Trim s c \<noteq> []"
  then have t: "?t \<noteq> []" by (simp add: Trim_def)
  then have "?s \<noteq> []" by (metis dropWhile.simps(1) rev.simps(1))
  obtain zs where "rev ?s = zs @ ?t" by (metis takeWhile_dropWhile_id)
  then have "?s = rev ?t @ rev zs" by (metis rev_append rev_rev_ident)
  then have "hd (rev ?t) = hd ?s" using t by (metis hd_append2 rev_is_Nil_conv)
  with \<open>?s \<noteq> []\<close> t show ?thesis
    using hd_dropWhile [of "\<lambda>x. x = c" s] hd_dropWhile [of "\<lambda>x. x = c" "rev ?s"] by (simp add: Trim_def last_rev)
qed

lemma Trim_id:
  assumes "s = [] \<or> hd s \<noteq> c \<and> last s \<noteq> c"
  shows "Trim s c = s"
proof -
  have "dropWhile (\<lambda>x. x = c) s = s" "dropWhile (\<lambda>x. x = c) (rev s) = rev s"
    using assms by (auto simp: dropWhile_eq_self_iff hd_rev)
  then show ?thesis by (simp add: Trim_def)
qed

lemma Trim_Cons: "Trim (c # s) c = Trim s c"
  by (simp add: Trim_def)

lemma normalizeURL_idem [simp]: "normalizeURL (normalizeURL u) = normalizeURL u"
  using Trim_ends [of u "CHR ''/''"] by (auto simp: normalizeURL_def Let_def Trim_Cons Trim_id)

lemma normalizeURL_trailing: "u \<noteq> [] \<Longrightarrow> last u = CHR ''/'' \<Longrightarrow> normalizeURL v \<noteq> u"
  using Trim_ends [of v "CHR ''/''"] by (auto simp: normalizeURL_def Let_def)

lemma set_Trim: "set (Trim s c) \<subseteq> set s"
  by (auto simp: Trim_def dest!: set_dropWhileD)

lemma normalizeURL_NUL: "NUL \<notin> set u \<Longrightarrow> NUL \<notin> set (normalizeURL u)"
  using set_Trim [of u "CHR ''/''"] by (auto simp: normalizeURL_def Let_def)

lemma c_string_CString: "NUL \<notin> set s \<Longrightarrow> c_string (CString s) = s"
  by (simp add: CString_def c_string_terminated)

section \<open>The configured routes\<close>

text \<open>A URL of the configuration file as it reaches the router, and the targets of a path in the order of the file.\<close>

definition carried :: "string \<Rightarrow> string" where
  "carried u = c_string (CString (normalizeURL u))"

lemma carried_plain: "NUL \<notin> set u \<Longrightarrow> carried u = normalizeURL u"
  by (simp add: carried_def c_string_CString normalizeURL_NUL)

definition configured :: "Route list \<Rightarrow> string \<Rightarrow> ConnectionInfo list" where
  "configured routes u =
     map (\<lambda>r. http_target (carried (To (route_action r))) (Local (route_action r)))
       (filter (\<lambda>r. map_option carried (Path (route_match r)) = Some u) routes)"

text \<open>
  What the uninitialised index of a path's route holds: what the memory held when the first entry of
  the path was added, since later entries only add targets.
\<close>

fun first_leftover :: "leftovers \<Rightarrow> Route list \<Rightarrow> string \<Rightarrow> size_t" where
  "first_leftover undef [] u = 0"
| "first_leftover undef (r # routes) u =
     (if map_option carried (Path (route_match r)) = Some u then fst (undef 0)
      else first_leftover (\<lambda>i. undef (Suc i)) routes u)"

definition firsts :: "'a list \<Rightarrow> 'a list" where
  "firsts xs = rev (remdups (rev xs))"

lemma firsts_simps [simp]:
  "firsts [] = []" "firsts (xs @ [x]) = (if x \<in> set xs then firsts xs else firsts xs @ [x])"
  "set (firsts xs) = set xs" "distinct (firsts xs)" "firsts xs = [] \<longleftrightarrow> xs = []"
  by (simp_all add: firsts_def)

lemma length_firsts: "length (firsts xs) \<le> length xs"
  by (simp add: firsts_def) (metis length_remdups_leq length_rev)

lemma target_key_http: "target_key (http_target u l) = target_key (http_target v k) \<longleftrightarrow> http_target u l = http_target v k"
  by (simp add: target_key_def http_target_def)

lemma http_targets_inj: "list_all (\<lambda>t. \<exists>u l. t = http_target u l) ts \<Longrightarrow> inj_on target_key (set ts)"
  unfolding inj_on_def list_all_iff by (metis target_key_http)

lemma fold_AddTarget:
  assumes "list_all (\<lambda>t. \<exists>u l. t = http_target u l) ts"
  shows "fold AddTarget ts \<lparr>next_index = i, targets = []\<rparr> = \<lparr>next_index = i, targets = firsts ts\<rparr>"
  using assms
proof (induction ts rule: rev_induct)
  case (snoc t ts)
  then have "inj_on target_key (insert t (set ts))" using http_targets_inj [of "ts @ [t]"] by simp
  then have "target_key t \<in> target_key ` set ts \<longleftrightarrow> t \<in> set ts" by (auto simp: inj_on_def)
  with snoc show ?case by (simp add: AddTarget_cases)
qed simp

lemma configured_http: "list_all (\<lambda>t. \<exists>u l. t = http_target u l) (configured routes u)"
  by (auto simp: configured_def list_all_iff)

lemma firsts_ok:
  assumes "list_all (\<lambda>t. \<exists>u l. t = http_target u l) ts" "length ts < 2 ^ 64" "unat k < length (firsts ts)"
  shows "action_ok \<lparr>next_index = k, targets = firsts ts\<rparr>"
  using assms(2,3) http_targets_inj [OF assms(1)] length_firsts [of ts] by (auto simp: action_ok_def distinct_map)

text \<open>The exact routes after the routes of the file were added.\<close>

lemma exact_routes_path:
  "g_exact_routes (gl_router (Azugate_AddPathMatchRoute k p t l g)) =
     (g_exact_routes (gl_router g))(carried p \<mapsto> AddTarget (http_target (carried t) l)
       (case g_exact_routes (gl_router g) (carried p) of None \<Rightarrow> \<lparr>next_index = k, targets = []\<rparr> | Some ra \<Rightarrow> ra))"
  by (auto simp: Azugate_AddPathMatchRoute_def azugate_add_path_match_route_def AddPathMatchRoute_def carried_def
      boolToInt_def Let_def split: option.split)

lemma exact_routes_prefix:
  "g_exact_routes (gl_router (Azugate_AddPrefixMatchRoute b p t l g)) = g_exact_routes (gl_router g)"
  by (simp add: Azugate_AddPrefixMatchRoute_def azugate_add_prefix_match_route_def AddPrefixMatchRoute_def Let_def
      split: option.split)

lemma add_routes_exact:
  assumes "add_routes undef routes g = (None, g')"
  shows "g_exact_routes (gl_router g') u =
    (case g_exact_routes (gl_router g) u of
       Some ra \<Rightarrow> Some (fold AddTarget (configured routes u) ra)
     | None \<Rightarrow> if configured routes u = [] then None
               else Some (fold AddTarget (configured routes u) \<lparr>next_index = first_leftover undef routes u, targets = []\<rparr>))"
  using assms
proof (induction undef routes g rule: add_routes.induct)
  case (1 undef g)
  then show ?case by (simp add: configured_def split: option.split)
next
  case (2 undef r routes g)
  show ?case
  proof (cases "Path (route_match r)")
    case (Some p)
    with 2 show ?thesis
      by (cases "g_exact_routes (gl_router g) u") (auto simp: exact_routes_path configured_def Let_def)
  next
    case None
    with 2 show ?thesis
      by (auto simp: exact_routes_prefix configured_def Let_def split: option.splits)
  qed
qed

lemma add_routes_config: "gl_config (snd (add_routes undef routes g)) = gl_config g"
  by (induction undef routes g rule: add_routes.induct)
    (auto simp: Azugate_AddPathMatchRoute_def azugate_add_path_match_route_def Azugate_AddPrefixMatchRoute_def
      azugate_add_prefix_match_route_def Let_def split: option.split)

text \<open>Every route of the file has a path or a prefix.\<close>

definition all_matched :: "Route list \<Rightarrow> bool" where
  "all_matched routes = list_all (\<lambda>r. Path (route_match r) \<noteq> None \<or> Prefix (route_match r) \<noteq> None) routes"

lemma add_routes_error: "fst (add_routes undef routes g) = (if all_matched routes then None else Some no_match_error)"
  by (induction undef routes g rule: add_routes.induct) (auto simp: all_matched_def Let_def split: option.split)

definition pem_text :: "rsa_PublicKey \<Rightarrow> string" where
  "pem_text key = EncodeToMemory ''PUBLIC KEY'' (projr (MarshalPKIXPublicKey key))"

lemma pem_text_NUL: "NUL \<notin> set (pem_text key)"
proof -
  have "NUL \<notin> set std_alphabet" by (simp add: std_alphabet_def)
  then have "NUL \<notin> set (pem_lines (StdEncoding bytes))" for bytes
    using set_pem_lines [of "StdEncoding bytes"] StdEncoding_chars [of bytes] by auto
  then show ?thesis by (simp add: pem_text_def EncodeToMemory_def pem_begin_def pem_end_def)
qed

lemma NewAzugate_eq:
  "NewAzugate undef cfg key g = add_routes undef (Routes cfg)
     (g\<lparr>gl_config := LoadConfig \<lparr>port = ucast (Port cfg), jwt_public_key_pem = pem_text key\<rparr> (gl_config g)\<rparr>)"
  by (simp add: NewAzugate_def publicKeyToPEM_def pem_text_def MarshalPKIXPublicKey_def azugate_load_config_def
      c_string_CString [OF pem_text_NUL [unfolded pem_text_def MarshalPKIXPublicKey_def], simplified])

lemma NewAzugate_config:
  "NewAzugate undef cfg key g = (err, g') \<Longrightarrow>
   gl_config g' = LoadConfig \<lparr>port = ucast (Port cfg), jwt_public_key_pem = pem_text key\<rparr> (gl_config g)"
  using add_routes_config [of undef "Routes cfg"
      "g\<lparr>gl_config := LoadConfig \<lparr>port = ucast (Port cfg), jwt_public_key_pem = pem_text key\<rparr> (gl_config g)\<rparr>"]
  by (simp add: NewAzugate_eq)

lemma NewAzugate_exact:
  assumes "NewAzugate undef cfg key (initial_globals sigs) = (None, g)"
  shows "g_exact_routes (gl_router g) u =
    (if configured (Routes cfg) u = [] then None
     else Some \<lparr>next_index = first_leftover undef (Routes cfg) u, targets = firsts (configured (Routes cfg) u)\<rparr>)"
  using add_routes_exact [OF assms [unfolded NewAzugate_eq]]
  by (simp add: initial_globals_def empty_router_def fold_AddTarget [OF configured_http])

lemma configured_length: "length (configured routes u) \<le> length routes"
  by (simp add: configured_def)

lemma configured_lookup_UB:
  assumes "NewAzugate undef cfg key (initial_globals sigs) = (None, g)" "configured (Routes cfg) u \<noteq> []"
    and "length (firsts (configured (Routes cfg) u)) \<le> unat (first_leftover undef (Routes cfg) u)"
  shows "GetRouteTarget u (gl_router g) = UB"
  using NewAzugate_exact [OF assms(1), of u] assms(2,3) by (simp add: GetRouteTarget_def GetNextTarget_UB)

lemma configured_first_lookup:
  assumes "NewAzugate undef cfg key (initial_globals sigs) = (None, g)" "length (Routes cfg) < 2 ^ 64"
    and "unat (first_leftover undef (Routes cfg) u) < length (firsts (configured (Routes cfg) u))"
  shows "exact_ok u (gl_router g)"
    "exact_order u (gl_router g) = rotate (unat (first_leftover undef (Routes cfg) u)) (firsts (configured (Routes cfg) u))"
    "\<exists>r'. GetRouteTarget u (gl_router g) =
       Val (Some (firsts (configured (Routes cfg) u) ! unat (first_leftover undef (Routes cfg) u)), r')"
proof -
  let ?ts = "configured (Routes cfg) u" and ?r = "gl_router g" and ?k = "unat (first_leftover undef (Routes cfg) u)"
  have "length ?ts < 2 ^ 64" using configured_length [of "Routes cfg" u] assms(2) by linarith
  note action = firsts_ok [OF configured_http this assms(3)]
  have ne: "?ts \<noteq> []" using assms(3) by auto
  then show ok: "exact_ok u ?r" and order: "exact_order u ?r = rotate ?k (firsts ?ts)"
    using NewAzugate_exact [OF assms(1), of u] action by (auto simp: exact_ok_def exact_order_def serving_order_def)
  have "firsts ?ts \<noteq> []" using ne by simp
  then have "hd (rotate ?k (firsts ?ts)) = firsts ?ts ! ?k" using assms(3) by (simp add: hd_rotate_conv_nth)
  then show "\<exists>r'. GetRouteTarget u ?r = Val (Some (firsts ?ts ! ?k), r')"
    using exact.pop_rotate [OF ok] order ne by auto
qed

text \<open>A file with path routes only leaves the prefix routes alone.\<close>

lemma path_routes_only:
  "add_routes undef routes g = (None, g') \<Longrightarrow> list_all (\<lambda>r. Path (route_match r) \<noteq> None) routes \<Longrightarrow>
   g_prefix_routes (gl_router g') = g_prefix_routes (gl_router g)"
  by (induction undef routes g rule: add_routes.induct)
    (auto simp: Azugate_AddPathMatchRoute_def azugate_add_path_match_route_def AddPathMatchRoute_def Let_def split: option.splits)

section \<open>Theorems\<close>

text \<open>C12: The routes of the configuration file in rotation, from an uninitialised index. After the front end has
  loaded a file, let \<open>ts\<close> be the targets that the file gives for a path, in normal form and in the order in which they
  first occur, and \<open>k\<close> what the uninitialised \<^verbatim>\<open>next_index\<close> of the path's route happens to hold. If \<open>k\<close> is an index of
  \<open>ts\<close>, successive lookups of the path give each target once, from the one at \<open>k\<close> on and around, and then again. If it
  is not, the first lookup is undefined behaviour.\<close>

theorem configured_paths_in_rotation:
  assumes "NewAzugate undef cfg key (initial_globals sigs) = (None, g)"
    and "configured (Routes cfg) u \<noteq> []" "length (Routes cfg) < 2 ^ 64"
  shows "let ts = firsts (configured (Routes cfg) u); k = unat (first_leftover undef (Routes cfg) u) in
    if k < length ts
    then \<exists>r'. serve (GetRouteTarget u) (length ts) (gl_router g) = Val (map Some (rotate k ts), r') \<and> exact_order u r' = rotate k ts
    else GetRouteTarget u (gl_router g) = UB"
proof (cases "unat (first_leftover undef (Routes cfg) u) < length (firsts (configured (Routes cfg) u))")
  case True
  with exact.serve_round [OF configured_first_lookup(1) [OF assms(1,3) True]] configured_first_lookup(2) [OF assms(1,3) True] assms(2)
  show ?thesis by (auto simp: Let_def)
next
  case False
  with configured_lookup_UB [OF assms(1,2)] show ?thesis by (simp add: Let_def)
qed

text \<open>C31: A request for a path other than \<^verbatim>\<open>/\<close> that ends with a slash is answered 404: when the file has only path
  routes (without null bytes), the handler sends the response 404 to the client, nothing to the target, and calls
  the accept callback once, even if the file gives exactly that path, because the file's paths lose their trailing
  slashes and the paths of requests do not. (\<^verbatim>\<open>/\<close> itself is looked up as the empty string, and can be found.)\<close>

theorem trailing_slash_not_found:
  assumes "NewAzugate undef cfg key (initial_globals sigs) = (None, g)"
    and "list_all (\<lambda>r. \<exists>p. Path (route_match r) = Some p \<and> NUL \<notin> set p) (Routes cfg)"
    and "req_path (request (handler ex)) = p @ ''/''" "p \<noteq> []"
  shows "\<exists>ex'. route b net z fs mem is_ssl (gl_router g) ex = Val (Returned, ex', gl_router g) \<and>
    client ex' = snd (write_all (not_found_text b) (client ex)) \<and> upstream ex' = upstream ex \<and>
    accepts (handler ex') = accepts (handler ex) + 1"
proof -
  let ?u = "p @ ''/''"
  have "configured (Routes cfg) ?u = []"
    using assms(2) normalizeURL_trailing [of ?u]
    by (auto simp: configured_def filter_empty_conv list_all_iff) (metis carried_plain option.inject)
  then have "g_exact_routes (gl_router g) ?u = None" using NewAzugate_exact [OF assms(1)] by simp
  moreover have "list_all (\<lambda>r. Path (route_match r) \<noteq> None) (Routes cfg)" using assms(2) by (auto simp: list_all_iff)
  from path_routes_only [OF assms(1) [unfolded NewAzugate_eq] this] have "g_prefix_routes (gl_router g) = []"
    by (simp add: initial_globals_def empty_router_def)
  ultimately have "GetRouteTarget ?u (gl_router g) = Val (None, gl_router g)" by (simp add: GetRouteTarget_def)
  with assms(3,4) show ?thesis by (simp add: route_def Let_def accept_next_def async_accpet_cb_def)
qed

definition loads :: "machine \<Rightarrow> Config \<Rightarrow> bool" where
  "loads m cfg \<longleftrightarrow> (\<exists>exe bytes. Executable m = Inr exe \<and> ReadFile m (Join [Dir exe, ''config.yaml'']) = Inr bytes \<and>
     Unmarshal m bytes \<lparr>Port = 0, Routes = []\<rparr> = Inr cfg)"

lemma main_loaded:
  assumes "loads m cfg" "GeneratePrivateKey m = Inr key"
  shows "main_main m g =
    (if \<not> all_matched (Routes cfg) then Panic no_match_error
     else if \<not> can_bind m (ucast (Port cfg)) then Aborted
     else Serving (azugate_start (clock m) (snd (NewAzugate (leftover m) cfg key g))))"
proof -
  obtain exe where load: "Executable m = Inr exe" "Load (ReadFile m) (Unmarshal m) (Join [Dir exe, ''config.yaml'']) = Inr cfg"
    using assms(1) by (auto simp: loads_def Load_def)
  obtain err g' where new: "NewAzugate (leftover m) cfg key g = (err, g')" by fastforce
  then have "err = (if all_matched (Routes cfg) then None else Some no_match_error)"
    using add_routes_error [of "leftover m" "Routes cfg"] by (simp add: NewAzugate_eq) (metis fst_conv)
  moreover have "g_port (gl_config g') = ucast (Port cfg)" using NewAzugate_config [OF new] by (simp add: LoadConfig_def)
  ultimately show ?thesis using load assms(2) new by (simp add: main_main_def Azugate_Start_def)
qed

text \<open>The four ways in which \<^verbatim>\<open>main\<close> can go, by the file, the key and the port.\<close>

lemma main_cases:
  obtains (no_path) err where "Executable m = Inl err" "main_main m g = Panic err" "\<nexists>cfg. loads m cfg"
  | (no_file) exe err where "Executable m = Inr exe" "ReadFile m (Join [Dir exe, ''config.yaml'']) = Inl err"
      "main_main m g = Panic (''failed to read config file: '' @ err)" "\<nexists>cfg. loads m cfg"
  | (no_parse) exe bytes err where "Executable m = Inr exe" "ReadFile m (Join [Dir exe, ''config.yaml'']) = Inr bytes"
      "Unmarshal m bytes \<lparr>Port = 0, Routes = []\<rparr> = Inl err"
      "main_main m g = Panic (''failed to parse config file: '' @ err)" "\<nexists>cfg. loads m cfg"
  | (no_key) exe bytes cfg err where "Executable m = Inr exe" "ReadFile m (Join [Dir exe, ''config.yaml'']) = Inr bytes"
      "Unmarshal m bytes \<lparr>Port = 0, Routes = []\<rparr> = Inr cfg" "GeneratePrivateKey m = Inl err" "main_main m g = Logged err"
  | (loaded) exe bytes cfg key where "Executable m = Inr exe" "ReadFile m (Join [Dir exe, ''config.yaml'']) = Inr bytes"
      "Unmarshal m bytes \<lparr>Port = 0, Routes = []\<rparr> = Inr cfg" "GeneratePrivateKey m = Inr key"
proof (cases "Executable m")
  case (Inl err)
  then show ?thesis by (intro no_path) (simp_all add: main_main_def loads_def)
next
  case exe: (Inr exe)
  show ?thesis
  proof (cases "ReadFile m (Join [Dir exe, ''config.yaml''])")
    case (Inl err)
    with exe show ?thesis by (intro no_file) (simp_all add: main_main_def Load_def loads_def)
  next
    case found: (Inr bytes)
    show ?thesis
    proof (cases "Unmarshal m bytes \<lparr>Port = 0, Routes = []\<rparr>")
      case (Inl err)
      with exe found show ?thesis by (intro no_parse) (simp_all add: main_main_def Load_def loads_def)
    next
      case (Inr cfg)
      with exe found no_key loaded show ?thesis by (cases "GeneratePrivateKey m") (simp_all add: main_main_def Load_def)
    qed
  qed
qed

text \<open>C13: How the program ends, in full. It serves exactly when it finds its own path, the file beside it can be read and
  parsed, a key was generated, every route of the file has a path or a prefix, and the port, cut to 16 bits, can be
  bound; then it serves the gateway that the file describes. It is aborted exactly when only the port is missing. It
  logs an error and returns exactly when the file was loaded and no key could be generated. It panics exactly when
  its own path is not found, the file cannot be read or cannot be parsed, or, with a key, a route of the file has
  neither a path nor a prefix; with the message of each.\<close>

theorem main_outcome:
  "(main_main m g = Serving sv \<longleftrightarrow> (\<exists>cfg key. loads m cfg \<and> GeneratePrivateKey m = Inr key \<and> all_matched (Routes cfg) \<and>
      can_bind m (ucast (Port cfg)) \<and> sv = azugate_start (clock m) (snd (NewAzugate (leftover m) cfg key g)))) \<and>
   (main_main m g = Aborted \<longleftrightarrow> (\<exists>cfg key. loads m cfg \<and> GeneratePrivateKey m = Inr key \<and> all_matched (Routes cfg) \<and>
      \<not> can_bind m (ucast (Port cfg)))) \<and>
   (main_main m g = Logged e \<longleftrightarrow> (\<exists>cfg. loads m cfg) \<and> GeneratePrivateKey m = Inl e) \<and>
   (main_main m g = Panic e \<longleftrightarrow>
      Executable m = Inl e \<or>
      (\<exists>exe err. Executable m = Inr exe \<and> ReadFile m (Join [Dir exe, ''config.yaml'']) = Inl err \<and>
         e = ''failed to read config file: '' @ err) \<or>
      (\<exists>exe bytes err. Executable m = Inr exe \<and> ReadFile m (Join [Dir exe, ''config.yaml'']) = Inr bytes \<and>
         Unmarshal m bytes \<lparr>Port = 0, Routes = []\<rparr> = Inl err \<and> e = ''failed to parse config file: '' @ err) \<or>
      (\<exists>cfg key. loads m cfg \<and> GeneratePrivateKey m = Inr key \<and> \<not> all_matched (Routes cfg) \<and> e = no_match_error))"
proof (cases rule: main_cases [of m g])
  case (loaded exe bytes cfg key)
  then have "loads m c \<longleftrightarrow> c = cfg" for c by (auto simp: loads_def)
  with main_loaded [of m cfg key g] loaded show ?thesis by auto
qed (auto simp: loads_def)

text \<open>C36: What the C interface carries over: the public key arrives complete, as a PEM block that decodes to the key's DER
  form, since it has no terminator inside; the port arrives cut to 16 bits, so that it is the configured one exactly
  when that is from 0 to 65535 (a negative number is a large one when it is read without a sign).\<close>

theorem key_and_port_carried:
  assumes "NewAzugate undef cfg key g = (err, g')"
  shows "pem_decode ''PUBLIC KEY'' (g_jwt_public_key_pem (gl_config g')) = Some (projr (MarshalPKIXPublicKey key)) \<and>
    unat (g_port (gl_config g')) = unat (Port cfg) mod 2 ^ 16 \<and>
    (unat (g_port (gl_config g')) = unat (Port cfg) \<longleftrightarrow> Port cfg < 65536)"
proof -
  have "unat (ucast (Port cfg) :: u16) = unat (Port cfg) mod 2 ^ 16"
    by (simp add: unsigned_ucast_eq take_bit_eq_mod)
  moreover have "Port cfg < 65536 \<longleftrightarrow> unat (Port cfg) < 2 ^ 16" by (simp add: word_less_nat_alt)
  ultimately show ?thesis
    using NewAzugate_config [OF assms] by (auto simp: LoadConfig_def pem_text_def pem_decode_encode)
qed

section \<open>Witnesses\<close>

text \<open>A file with the root path and three entries for one path, two of which have the same target.\<close>

definition path_route :: "string \<Rightarrow> bool \<Rightarrow> string \<Rightarrow> Route" where
  "path_route p l t = \<lparr>route_match = \<lparr>Prefix = None, Path = Some p\<rparr>, route_action = \<lparr>Local = l, To = t\<rparr>\<rparr>"

definition sample_config :: Config where
  "sample_config = \<lparr>Port = 8080, Routes =
     [path_route ''/'' False ''/'', path_route ''/a/'' True ''/x.html'', path_route ''a'' False ''/y/'', path_route ''/a'' True ''x.html'']\<rparr>"

definition sample_key :: rsa_PublicKey where
  "sample_key = \<lparr>rsa_N = 3233, rsa_E = 17\<rparr>"

text \<open>What the memory holds: the second addition finds a 1, the third a number that is out of range.\<close>

definition sample_memory :: leftovers where
  "sample_memory i = (if i = 0 then 0 else if i = 1 then 1 else 4711, False)"

abbreviation sample_gateway :: globals where
  "sample_gateway \<equiv> snd (NewAzugate sample_memory sample_config sample_key (initial_globals (\<lambda>_. SIG_DFL)))"

lemma sample_loaded: "NewAzugate sample_memory sample_config sample_key (initial_globals (\<lambda>_. SIG_DFL)) = (None, sample_gateway)"
proof -
  have "fst (NewAzugate sample_memory sample_config sample_key (initial_globals (\<lambda>_. SIG_DFL))) = None"
    by (simp add: NewAzugate_eq add_routes_error all_matched_def sample_config_def path_route_def)
  then show ?thesis by (metis prod.collapse)
qed

lemma sample_configured:
  "configured (Routes sample_config) ''/a'' = [http_target ''/x.html'' True, http_target ''/y'' False, http_target ''/x.html'' True]"
  "configured (Routes sample_config) [] = [http_target [] False]"
  by code_simp+

text \<open>The entries for \<^verbatim>\<open>/a\<close> begin with the second one of the file, whose index was left at 1.\<close>

lemma sample_leftovers:
  "unat (first_leftover sample_memory (Routes sample_config) ''/a'') = 1"
  "first_leftover sample_memory (Routes sample_config) [] = 0"
  by code_simp+

theorem configured_paths_in_rotation_witness:
  "\<exists>r'. serve (GetRouteTarget ''/a'') 2 (gl_router sample_gateway) =
      Val ([Some (http_target ''/y'' False), Some (http_target ''/x.html'' True)], r')"
proof -
  have ts: "firsts (configured (Routes sample_config) ''/a'') = [http_target ''/x.html'' True, http_target ''/y'' False]"
    by (simp add: sample_configured firsts_def http_target_def)
  have "configured (Routes sample_config) ''/a'' \<noteq> []" "length (Routes sample_config) < 2 ^ 64"
    by (simp_all add: sample_configured) (simp add: sample_config_def)
  with configured_paths_in_rotation [OF sample_loaded this] show ?thesis
    by (auto simp: ts sample_leftovers numeral_2_eq_2 Let_def simp del: serve.simps)
qed

definition slash_exchange :: exchange where
  "slash_exchange = \<lparr>handler = some_memory\<lparr>request := \<lparr>req_method = ''GET'', req_path = ''/a/'', req_minor_version = 1, req_headers = []\<rparr>\<rparr>,
     client = open_socket, client_reads = [], upstream = open_socket, open_files = 0\<rparr>"

theorem trailing_slash_not_found_witness:
  "Path (route_match (Routes sample_config ! 1)) = Some ''/a/'' \<and>
   (\<exists>ex'. route list_beast good_network storing_zlib no_files quiet_memory False (gl_router sample_gateway) slash_exchange =
      Val (Returned, ex', gl_router sample_gateway) \<and> sent (client ex') = not_found_text list_beast \<and> sent (upstream ex') = [])"
proof -
  have "list_all (\<lambda>r. \<exists>p. Path (route_match r) = Some p \<and> NUL \<notin> set p) (Routes sample_config)"
    by (simp add: sample_config_def path_route_def)
  moreover have "req_path (request (handler slash_exchange)) = ''/a'' @ ''/''" by (simp add: slash_exchange_def)
  ultimately obtain ex' where
    "route list_beast good_network storing_zlib no_files quiet_memory False (gl_router sample_gateway) slash_exchange =
      Val (Returned, ex', gl_router sample_gateway)"
    "client ex' = snd (write_all (not_found_text list_beast) (client slash_exchange))" "upstream ex' = upstream slash_exchange"
    using trailing_slash_not_found [OF sample_loaded, of slash_exchange "''/a''" list_beast good_network storing_zlib no_files
        quiet_memory False] by auto
  then show ?thesis
    by (intro conjI exI [of _ ex']) (simp_all add: slash_exchange_def open_socket_def write_all_all sample_config_def path_route_def)
qed

definition sample_machine :: machine where
  "sample_machine = \<lparr>Executable = Inr ''/opt/azugate'',
     ReadFile = (\<lambda>p. if p = ''/opt/config.yaml'' then Inr ''port: 8080'' else Inl ''no such file''),
     Unmarshal = (\<lambda>bytes cfg. Inr sample_config), GeneratePrivateKey = Inr sample_key, can_bind = (\<lambda>p. p = 8080),
     leftover = sample_memory, clock = 0\<rparr>"

lemma sample_loads: "loads sample_machine sample_config"
proof -
  have "Join [Dir ''/opt/azugate'', ''config.yaml''] = ''/opt/config.yaml''" by code_simp
  then show ?thesis by (simp add: loads_def sample_machine_def)
qed

theorem main_outcome_witness:
  "main_main sample_machine (initial_globals (\<lambda>_. SIG_DFL)) = Serving (azugate_start 0 sample_gateway)"
proof -
  have "loads sample_machine sample_config \<and> GeneratePrivateKey sample_machine = Inr sample_key \<and>
      all_matched (Routes sample_config) \<and> can_bind sample_machine (ucast (Port sample_config))"
    by (simp add: sample_loads) (simp add: sample_machine_def all_matched_def sample_config_def path_route_def)
  then show ?thesis
    using conjunct1 [OF main_outcome [of sample_machine "initial_globals (\<lambda>_. SIG_DFL)" "azugate_start 0 sample_gateway"]]
    by (auto simp: sample_machine_def)
qed

theorem key_and_port_carried_witness:
  "pem_decode ''PUBLIC KEY'' (g_jwt_public_key_pem (gl_config sample_gateway)) = Some (projr (MarshalPKIXPublicKey sample_key)) \<and>
   unat (g_port (gl_config sample_gateway)) = 8080"
  using key_and_port_carried [OF sample_loaded] by (simp add: sample_config_def)
end
