(* ===== verification/OAuth.thy ===== *)
theory OAuth
  imports Go_Encoding
begin

text \<open>
  The client of an identity provider (\<^verbatim>\<open>internal/idp/oauth2/oauth.go\<close>). The library \<^verbatim>\<open>oauth2\<close> and the source of random
  bytes are parameters. The theorem says that the values the functions make up have the form that the
  standards ask for and lose none of the randomness.
\<close>

section \<open>The identity provider\<close>

text \<open>The library: the URL for a state and further parameters, the exchange of a code, and the fields of a token; a field
  that is not a string is \<open>None\<close>.\<close>

record 'token oauth2_Config =
  AuthCodeURL :: "string \<Rightarrow> (string \<times> string) list \<Rightarrow> string"
  Exchange :: "string \<Rightarrow> string + 'token"
  Extra :: "'token \<Rightarrow> string \<Rightarrow> string option"

record 'token IdentityProvider =
  Idp_Config :: "'token oauth2_Config"

definition NewIdentityProvider :: "'token oauth2_Config \<Rightarrow> 'token IdentityProvider" where
  "NewIdentityProvider config = \<lparr>Idp_Config = config\<rparr>"

text \<open>
  The random bytes that are still to come. \<^verbatim>\<open>rand.Read\<close> of \<^verbatim>\<open>crypto/rand\<close>, whose error the code ignores, never returns
  one in the version of Go that \<^verbatim>\<open>go.mod\<close> asks for: it fills the slice, or the process ends.
\<close>

type_synonym random = "nat \<Rightarrow> char"

definition genRandomBytes :: "nat \<Rightarrow> random \<Rightarrow> string \<times> random" where
  "genRandomBytes len rand = (map rand [0..<len], \<lambda>i. rand (len + i))"

definition GetAuthCodeURL :: "'token IdentityProvider \<Rightarrow> random \<Rightarrow> (string \<times> string \<times> string) \<times> random" where
  "GetAuthCodeURL p rand =
     (let (bytes16, rand) = genRandomBytes 16 rand;
          state = RawURLEncoding bytes16;
          (bytes32, rand) = genRandomBytes 32 rand;
          verifier = RawURLEncoding bytes32;
          challenge = RawURLEncoding (sha256 verifier);
          authURL = AuthCodeURL (Idp_Config p) state
            [(''code_challenge'', challenge), (''code_challenge_method'', ''S256'')]
      in ((authURL, state, verifier), rand))"

definition ExchangeToken :: "'token IdentityProvider \<Rightarrow> string \<Rightarrow> string + string" where
  "ExchangeToken p auth_code =
     (case Exchange (Idp_Config p) auth_code of
        Inl err \<Rightarrow> Inl err
      | Inr token \<Rightarrow>
          (case Extra (Idp_Config p) token ''access_token'' of
             None \<Rightarrow> Inl ''missing access token from authorization response''
           | Some accessToken \<Rightarrow> Inr accessToken))"

section \<open>Theorem\<close>

text \<open>The characters that RFC 7636 allows in a code verifier.\<close>

definition verifier_char :: "char \<Rightarrow> bool" where
  "verifier_char c \<longleftrightarrow> c \<in> set ''ABCDEFGHIJKLMNOPQRSTUVWXYZabcdefghijklmnopqrstuvwxyz0123456789-._~''"

definition code_verifier :: "string \<Rightarrow> bool" where
  "code_verifier v \<longleftrightarrow> 43 \<le> length v \<and> length v \<le> 128 \<and> list_all verifier_char v"

lemma RawURLEncoding_unreserved: "list_all verifier_char (RawURLEncoding bytes)"
proof -
  have "list_all verifier_char url_alphabet" by (simp add: url_alphabet_def verifier_char_def)
  then show ?thesis using url.encoded_chars [of bytes] by (auto simp: RawURLEncoding_def list_all_iff)
qed

lemma length_RawURLEncoding: "length (RawURLEncoding bytes) = (length bytes * 4 + 2) div 3"
  by (simp add: RawURLEncoding_def url.length_encode)

lemma map_shift: "map (\<lambda>i. f (m + i)) [0..<n] = map f [m..<m + n]"
  by (induction n) simp_all

text \<open>C37: Each authorization request has a fresh state and a code verifier as RFC 7636 requires: the verifier has 43
  unreserved characters, the URL carries its SHA-256 challenge, of the same length and form; the state and the
  verifier decode to 16 and 32 random bytes, which the next request does not use again.\<close>

theorem auth_request_pkce:
  "\<exists>authURL state verifier rand'. GetAuthCodeURL p rand = ((authURL, state, verifier), rand') \<and>
    code_verifier verifier \<and> code_verifier (RawURLEncoding (sha256 verifier)) \<and>
    authURL = AuthCodeURL (Idp_Config p) state
      [(''code_challenge'', RawURLEncoding (sha256 verifier)), (''code_challenge_method'', ''S256'')] \<and>
    length state = 22 \<and> raw_decode url_alphabet state = Some (map rand [0..<16]) \<and>
    raw_decode url_alphabet verifier = Some (map rand [16..<48]) \<and> rand' = (\<lambda>i. rand (48 + i))"
proof -
  have "(16 :: nat) + 32 = 48" by simp
  with map_shift [of rand 16 32] have shift: "map (\<lambda>i. rand (16 + i)) [0..<32] = map rand [16..<48]" by (simp only:)
  show ?thesis
    by (simp add: GetAuthCodeURL_def genRandomBytes_def Let_def code_verifier_def RawURLEncoding_unreserved
        length_RawURLEncoding length_sha256 shift) (simp add: RawURLEncoding_def url.decode_encode)
qed

text \<open>A token is returned exactly when the exchange succeeds and its answer has one.\<close>

lemma ExchangeToken_cases:
  "ExchangeToken p auth_code = Inr t \<longleftrightarrow>
    (\<exists>token. Exchange (Idp_Config p) auth_code = Inr token \<and> Extra (Idp_Config p) token ''access_token'' = Some t)"
  by (auto simp: ExchangeToken_def split: sum.splits option.splits)
end
