(* ===== verification/Spec2Isabelle.thy ===== *)
theory Spec2Isabelle
  imports Prelude Router Config Rate_Limiter Utils Pico Pico_Laws Chunked Crequest Http_Parser
    Compression Proxy_Read Proxy_Serve Proxy_Forward Proxy_Failures Router_Threads Config_Threads Server Worker Binding Exhaustion Gateway
    Go_Encoding Front_End OAuth
begin

text \<open>
  \<^bold>\<open>azugate\<close>, a reverse proxy in C++ (under \<^verbatim>\<open>src/core\<close>) with a Go front end. This development models both
  and proves what makes them correct, or shows where they are not.

  \<^bold>\<open>The program.\<close> \<^verbatim>\<open>cmd/azugate/main.go\<close> reads the configuration file (\<^verbatim>\<open>internal/config/config.go\<close>) and passes the
  port, the public key and the routes in normal form (\<^verbatim>\<open>core/binding/binding.go\<close>) to the C++ part, whose interface is
  \<^verbatim>\<open>binding/azugate.cc\<close>: it loads the configuration, adds routes and starts the server. \<^verbatim>\<open>Server\<close> (\<^verbatim>\<open>include/server.hpp\<close>) accepts connections; \<^verbatim>\<open>Filter\<close> (\<^verbatim>\<open>src/filter.cc\<close>) closes
  those from blacklisted addresses and \<^verbatim>\<open>Dispatch\<close> (\<^verbatim>\<open>src/dispatcher.cc\<close>) asks the rate limiter
  (\<^verbatim>\<open>src/rate_limitor.cc\<close>), does the TLS handshake and starts an \<^verbatim>\<open>HttpProxyHandler\<close>
  (\<^verbatim>\<open>include/services.hpp\<close>). The handler reads the request into a buffer of 8 KiB, parses it with
  \<^verbatim>\<open>third_party/picohttpparser.c\<close> after every read, takes from the headers what it needs, looks up a target
  in the route tables (\<^verbatim>\<open>src/router.cc\<close>) and answers 404, serves a local file, possibly compressed
  (\<^verbatim>\<open>src/compression.cc\<close>), with a header built by \<^verbatim>\<open>src/crequest.cc\<close>, or forwards the request and the
  response. \<^verbatim>\<open>include/worker.hpp\<close> checks the health of the configured hosts, and \<^verbatim>\<open>src/http_parser.cc\<close> is a
  second, older parser.

  \<^bold>\<open>Conventions.\<close> A \<^verbatim>\<open>size_t\<close> whose wrap-around matters is a 64-bit word (token counter, round-robin index,
  chunk sizes, body lengths); other sizes are natural numbers. State is passed explicitly, in a record with
  the members of the class. Undefined behaviour of C++ is the outcome \<open>UB\<close> (\<open>Prelude\<close>), so that its absence is
  a theorem; indeterminate values are arguments. What a library or the operating system answers (sockets,
  files, zlib, Boost.Beast, TLS) is an argument of the definitions, and hypotheses say what the code relies
  on: what the documentation of zlib says of \<^verbatim>\<open>deflate\<close>, in particular that a stream produces at most
  \<^verbatim>\<open>deflateBound\<close> of its input (\<open>deflate_contract\<close>; \<open>zlib_ok\<close> is the part of it that the simulation of output
  handlers needs), and that setting a field replaces the fields of that name (\<open>fields_laws\<close>). A write is a sequence of transfers of any size that may fail at any of them. What is read from
  memory that was not written or whose object was destroyed is an argument (\<open>memory\<close>, \<open>leftovers\<close>), and no property
  assumes a particular value of it; where a route's index has to be in range, a hypothesis on the table says so. Reading a destroyed string is itself undefined behaviour; where the chunk sizes
  of a compressed body are read so, the model goes on with arbitrary bytes (\<open>written_chunk\<close>). An assertion that fails ends the process, so the call does not return. The classes that
  extend \<^verbatim>\<open>HttpMessage\<close> are record extensions, and its setters work on all of them.

  \<^bold>\<open>The theories.\<close>
  \<^item> \<open>Prelude\<close>: words, outcomes, \<^verbatim>\<open>memcpy\<close>, the operations of \<^verbatim>\<open>std::string\<close>, number formatting,
    \<^verbatim>\<open>std::from_chars\<close>, the collections \<open>cpp_defs\<close> and \<open>inv_intro\<close>.
  \<^item> \<open>Router\<close> (\<^verbatim>\<open>router.h\<close>, \<^verbatim>\<open>router.cc\<close>): target lists as a round-robin pool (a locale, interpreted on
    \<^verbatim>\<open>AddTarget\<close> and \<^verbatim>\<open>GetNextTarget\<close>), the tables, \<^verbatim>\<open>GetRouteTarget\<close>. Fairness, lookups of exact routes, the
    invariant of all reachable tables, with any value in the uninitialised index of an exact route, and exactly
    when a lookup is undefined; the prefix tests are inverted, so that a configured prefix never matches.
  \<^item> \<open>Router_Threads\<close>: \<^verbatim>\<open>GetNextTarget\<close> one access at a time, on any number of threads. Two threads that look up one
    route race on its index, exactly then and only there; with indivisible accesses lookups alone stay in range,
    but overlapping ones can all return the same target, and one that overlaps an addition can read memory that
    was released.
  \<^item> \<open>Config\<close> (\<^verbatim>\<open>config.h\<close>, \<^verbatim>\<open>config.cc\<close>, \<^verbatim>\<open>log.cc\<close>): the constants, the globals and their accessors, the disposition
    of \<^verbatim>\<open>SIGPIPE\<close>, the settings of the logger; the blacklist after any calls.
  \<^item> \<open>Config_Threads\<close>: the accessors on several threads, as operations on the mutex and accesses. The mutex protects
    exactly three of the variables (the locale \<open>protected_variable\<close>, interpreted for each); the others can be
    accessed in conflict.
  \<^item> \<open>Rate_Limiter\<close>: the counter refines an abstract bucket, the rate bound, no starvation; in the step relation
    over atomic accesses a race of two requests opens it.
  \<^item> \<open>Pico\<close>, \<open>Pico_Laws\<close>, \<open>Chunked\<close> (\<^verbatim>\<open>picohttpparser.c\<close>): the parsers in the SSE4.2 and the portable build,
    which agree; parsing in pieces equals parsing at once (the locale \<open>incremental_parser\<close>, interpreted for
    requests, responses and header blocks); memory safety; round trips; the in-place chunk decoder refines an
    automaton that reads single bytes.
  \<^item> \<open>Utils\<close> (\<^verbatim>\<open>common.hpp\<close>, \<^verbatim>\<open>string_op.cc\<close>): the IPv4 pattern, URL parameters and encoding, hashes.
  \<^item> \<open>Crequest\<close> (\<^verbatim>\<open>crequest.h\<close>, \<^verbatim>\<open>crequest.cc\<close>): messages; a printed response is read back by the parser.
  \<^item> \<open>Http_Parser\<close> (\<^verbatim>\<open>http_parser.h\<close>, \<^verbatim>\<open>http_parser.cc\<close>): the byte parser; for a file whose bytes decide the
    outcome, the result does not depend on the buffer size.
  \<^item> \<open>Compression\<close> (\<^verbatim>\<open>compression.hpp\<close>, \<^verbatim>\<open>compression.cc\<close>, the body writers of \<^verbatim>\<open>services.hpp\<close>): the gzip loop
    ends for every output handler, and what it hands on decompresses to the whole file.
  \<^item> \<open>Proxy_Read\<close>: reading, parsing and the metadata of a request, however the network splits it; the check
    of a token (\<^verbatim>\<open>auth.cc\<close>), which no function calls.
  \<^item> \<open>Proxy_Serve\<close>: routing, local files, forwarding, WebSocket and gRPC-Web functions; what a client receives
    for a local file.
  \<^item> \<open>Proxy_Forward\<close>: what the target and the client receive of a forwarded request, the headers, the accept
    callbacks; a large first packet is undefined behaviour and a short content length blocks the worker.
  \<^item> \<open>Proxy_Failures\<close>: what has arrived when transfers fail or are short: of a forwarded request and its
    response always a prefix, of a compressed file chunks with gaps.
  \<^item> \<open>Server\<close>: filter, dispatcher and accept loop; the steps of a running server as the relation \<open>server_step\<close>:
    completions on a bounded number of workers, seconds of time, reconfiguration and new routes; the tick of the
    rate limiter's timer in three steps, which others may come between. Invariants
    of all runs through the locale \<open>step_invariant\<close>: accepts are never lost but accumulate, the state stays
    well formed, no connection from a blacklisted address is served, the handlers keep within the rate and what
    the refills give back.
  \<^item> \<open>Worker\<close> (\<^verbatim>\<open>worker.hpp\<close>): a health check, and the thread that repeats them as a stream of rounds: what
    a round reports, and that the rounds are undefined behaviour once \<^verbatim>\<open>StartHealthCheckWorker\<close> has returned, since
    the thread holds a reference to its parameter.
  \<^item> \<open>Binding\<close> (\<^verbatim>\<open>azugate.h\<close>, \<^verbatim>\<open>azugate.cc\<close>): the C interface, and the invariants of \<open>Server\<close> for every run of a
    gateway that was started through it, whatever is reconfigured meanwhile.
  \<^item> \<open>Exhaustion\<close>: as many clients as there are workers that announce a body and send none stop the gateway.
  \<^item> \<open>Gateway\<close>: a request through all components, from the accept to the end of its handler, or to the undefined
    lookup of its path.
  \<^item> \<open>Go_Encoding\<close>: what the Go part uses of its standard library: base64 (its laws in the locale
    \<open>base64_alphabet\<close>, interpreted for both alphabets), PEM, the DER form of a key, SHA-256.
  \<^item> \<open>Front_End\<close> (\<^verbatim>\<open>config.go\<close>, \<^verbatim>\<open>binding.go\<close>, \<^verbatim>\<open>main.go\<close>): the file, the calls of the C interface and the program. The
    routes of the file are served in its order, from the target that the uninitialised index selects; when the
    program serves and how it fails; what the C interface carries over; a request for a path with a trailing slash,
    other than \<^verbatim>\<open>/\<close>, is answered 404.
  \<^item> \<open>OAuth\<close> (\<^verbatim>\<open>oauth.go\<close>): the values of an authorization request; nothing in the sources calls it.

  This theory adds the theorem for one handler, a request that arrives in pieces, also pieces of the body that
  follow those of the header, and the theorem from the configuration file to the response.

  \<^bold>\<open>Loops.\<close> There is no fuel. Loops over input are recursive on the input; the body loop and the read loop
  are recursive on the list of results that the network gives, and when it is used up the function is still
  waiting (\<open>Wait\<close>, \<open>Running\<close>). The endless loop of the health checks is a stream, defined by corecursion. The inner loop of the compressor, which depends on zlib, is a
  \<^theory_text>\<open>partial_function\<close> with result \<open>None\<close> when it does not end, and \<open>gzip_compresses_file\<close> shows that it ends.

  \<^bold>\<open>Concurrency.\<close> The worker threads run completions at the same time. \<open>Rate_Limiter\<close> models the interleaving
  of the atomic accesses to the counter, \<open>Router_Threads\<close> that of the accesses to a route, which has no lock, and
  \<open>Config_Threads\<close> which accesses to the configuration conflict;
  accesses take effect in one order, so what C++ allows after a data race is not described, only that there is
  one (\<open>concurrent_lookups_race\<close>, \<open>mutex_protects_exactly\<close>). In \<open>Server\<close> a completion is one step, but for the ticks of the
  rate limiter: a call that serves a request has the answers of its surroundings at once, everything that its
  client ever sends among them, so a call that still reads after that (\<open>Running\<close>) stays in \<open>occupied\<close> for good.

  \<^bold>\<open>Not modelled.\<close> Memory that is allocated and released (\<^verbatim>\<open>deflateEnd\<close> in the compressor's destructor, \<^verbatim>\<open>C.free\<close> in
  the binding), the texts that are logged, the end of the process on a signal, and the gRPC schema
  (\<^verbatim>\<open>proto/config_service.proto\<close>), an interface that nothing in the sources implements. \<^verbatim>\<open>TcpProxyHandler\<close> and \<^verbatim>\<open>HttpRequest()\<close>
  are declared in the sources and not defined.
\<close>

section \<open>A request from the first byte to the response\<close>

text \<open>End to end. A request arrives in any pieces: the first ones hold the header and the beginning of the
  body, at most 8 KiB in all with at most 4 KiB of the body, the others hold the rest of the body. If its
  headers are usable, its content length is the length of the body, and its path has a remote route, then
  the handler reads it, routes it, and the target receives the rewritten header and exactly the body,
  while the client receives exactly the target's response; what the client sends next is left alone, and
  the accept callback is called once.\<close>

theorem request_served_end_to_end:
  assumes "length (header_buf undef) = kMaxHttpHeaderSize" "length (concat chunks) \<le> kMaxHttpHeaderSize"
    and "phr_parse_request sse kMaxHeadersNum 0 (concat chunks) = POk q rest"
    and "length rest \<le> kDefaultBufSize" "[] \<notin> set chunks" "[] \<notin> set rest_chunks"
    and "req_headers q \<noteq> []" "length (req_headers q) \<le> kMaxHeadersNum" "list_all usable_header (req_headers q)"
    and "unat (updated content_length_of (last_value kHeaderFieldContentLength (req_headers q)) 0) =
      length (rest @ concat rest_chunks)"
    and "GetRouteTarget (if req_path q = ''/'' then [] else req_path q) r = Val (Some t, r')" "is_remote t"
    and "stringToVerb (req_method q) = Some v" "resolve_ok net ''baidu.com'' (dec 80)" "connect_ok net" "tls_ok net"
    and "read_response net = Some response"
  shows "\<exists>h unread ex'. read_loop sse (map ReadBytes chunks) (new_handler undef source) =
      Val (h, Extract, map ReadBytes unread) \<and>
    serve_request cfg b net z fs mem is_ssl r
      \<lparr>handler = h, client = open_socket, client_reads = map BodyData (unread @ rest_chunks) @ later,
       upstream = open_socket, open_files = fds\<rparr> = Val (Returned, ex', r') \<and>
    sent (upstream ex') = request_text b (target_request b v (if http_url t = [] then ''/'' else http_url t)
      (req_headers q) ''baidu.com'') @ rest @ concat rest_chunks \<and>
    sent (client ex') = response \<and> client_reads ex' = later \<and> accepts (handler ex') = 1"
proof -
  obtain h left unread where h: "read_loop sse (map ReadBytes chunks) (new_handler undef source) =
      Val (h, Extract, map ReadBytes unread)" "request h = q" "rest = left @ concat unread"
    "extra_body_len h = length left" "take (extra_body_len h) (drop (total_parsed h) (header_buf h)) = left"
    "total_parsed h + extra_body_len h \<le> kMaxHttpHeaderSize" "accepts h = 0" "handler_ok h"
    "request_content_length h = 0" "set unread \<subseteq> set chunks"
    by (rule read_pieces [OF assms(1-3), of source])
  have left: "length left \<le> kDefaultBufSize" "length (left @ concat (unread @ rest_chunks)) = length (rest @ concat rest_chunks)"
    "[] \<notin> set (unread @ rest_chunks)" using assms(4-6) h(3,10) by auto
  obtain ex' where "serve_request cfg b net z fs mem is_ssl r
      \<lparr>handler = h, client = open_socket, client_reads = map BodyData (unread @ rest_chunks) @ later,
       upstream = open_socket, open_files = fds\<rparr> = Val (Returned, ex', r')"
    and "sent (upstream ex') = request_text b (target_request b v (if http_url t = [] then ''/'' else http_url t)
      (req_headers q) ''baidu.com'') @ left @ concat (unread @ rest_chunks)"
    and "sent (client ex') = response" "client_reads ex' = later" "accepts (handler ex') = 1"
    using serve_request_forwards [OF h(2,4,5,6,8,9,7) assms(7-9) _ left(1,3) assms(11-17), of cfg b z fs mem is_ssl later fds]
      left(2) assms(10) by metis
  with h(1,3) show ?thesis by (intro exI [of _ h] exI [of _ unread] exI [of _ ex']) simp
qed

text \<open>A request that announces five bytes and comes in four pieces, the last one after the header was read.\<close>

definition four_pieces :: "string list" where
  "four_pieces = [''PUT / HTTP/1.1'' @ [CR, LF] @ ''Conte'', ''nt-Length: 5'' @ [CR, LF, CR], [LF] @ ''ab'', ''c'']"

theorem request_served_end_to_end_witness:
  "\<exists>h unread ex'. read_loop True (map ReadBytes four_pieces) (new_handler some_memory (new_connection False)) =
      Val (h, Extract, map ReadBytes unread) \<and>
    serve_request initial_config list_beast good_network storing_zlib no_files quiet_memory False (one_route [] False)
      \<lparr>handler = h, client = open_socket, client_reads = map BodyData (unread @ [''de'']) @ [BodyEof],
       upstream = open_socket, open_files = 0\<rparr> = Val (Returned, ex', one_route [] False) \<and>
    sent (upstream ex') = request_text list_beast (target_request list_beast Put ''/a.html''
      (req_headers put_request) ''baidu.com'') @ ''abc'' @ ''de'' \<and>
    sent (client ex') = ''pong'' \<and> client_reads ex' = [BodyEof] \<and> accepts (handler ex') = 1"
proof -
  have parsed: "phr_parse_request True kMaxHeadersNum 0 (concat four_pieces) = POk put_request ''abc''" by code_simp
  have size: "length (concat four_pieces) \<le> kMaxHttpHeaderSize" by code_simp
  have len: "unat (updated content_length_of (last_value kHeaderFieldContentLength (req_headers put_request)) 0) =
      length (''abc'' @ concat [''de''])" by (simp add: put_request_content_length)
  have url: "http_url (http_target ''/a.html'' False) = ''/a.html''" by (simp add: http_target_def)
  have "\<exists>h unread ex'. read_loop True (map ReadBytes four_pieces) (new_handler some_memory (new_connection False)) =
      Val (h, Extract, map ReadBytes unread) \<and>
    serve_request initial_config list_beast good_network storing_zlib no_files quiet_memory False (one_route [] False)
      \<lparr>handler = h, client = open_socket, client_reads = map BodyData (unread @ [''de'']) @ [BodyEof],
       upstream = open_socket, open_files = 0\<rparr> = Val (Returned, ex', one_route [] False) \<and>
    sent (upstream ex') = request_text list_beast (target_request list_beast Put
      (if http_url (http_target ''/a.html'' False) = [] then ''/'' else http_url (http_target ''/a.html'' False))
      (req_headers put_request) ''baidu.com'') @ ''abc'' @ concat [''de''] \<and>
    sent (client ex') = ''pong'' \<and> client_reads ex' = [BodyEof] \<and> accepts (handler ex') = 1"
    by (rule request_served_end_to_end [OF some_memory_size size parsed _ _ _ _ _ put_request_usable len])
      (simp_all add: kDefaultBufSize_def kMaxHeadersNum_def four_pieces_def put_request_def one_route_lookup
        http_target_remote stringToVerb_def good_network_def read_response_def)
  then show ?thesis unfolding url by simp
qed

section \<open>From the configuration file to the response\<close>

lemma started_gateway:
  assumes "NewAzugate undef cfg key (initial_globals sigs) = (err, g)"
  shows "free_worker (azugate_start now g)" "pending_accepts (azugate_start now g) = 1" "serving (azugate_start now g) = []"
    "finished_conns (azugate_start now g) = []" "sv_router (azugate_start now g) = gl_router g"
    "lets_through t addr (azugate_start now g)"
  using NewAzugate_config [OF assms]
  by (simp_all add: azugate_start_def Run_def accept_def new_server_def Let_def initial_globals_def initial_config_def
      LoadConfig_def free_worker_def busy_workers_def lets_through_def GetIpBlackList_def GetHttps_def)

text \<open>C1: From the configuration file to the response, whatever the uninitialised index holds. When the program finds a
  file in which every route has a match, generates a key and can bind the port, it serves. Then let the first
  connection, from whatever address, send a well-formed request in pieces for a path that has routes in the file, all
  of them remote; let \<open>ts\<close> be the targets that the file gives for the path, in normal form and in the order in which
  they first occur, and \<open>k\<close> what the uninitialised \<^verbatim>\<open>next_index\<close> of the path's route happens to hold. If \<open>k\<close> is an
  index of \<open>ts\<close>, the request is accepted, read, routed to the target at \<open>k\<close> and forwarded: the upstream server
  receives exactly the rewritten header, with the path of that target, and the body, and the client exactly the
  response. If it is not, the request is accepted, and the read that completes its header is undefined behaviour. The
  upstream server is always port 80 of \<^verbatim>\<open>baidu.com\<close>, which the code puts in place of every configured address.\<close>

theorem configured_request_served:
  fixes env :: "('f, 'z) surroundings"
  assumes "Executable m = Inr exe" "Load (ReadFile m) (Unmarshal m) (Join [Dir exe, ''config.yaml'']) = Inr cfg"
    and "GeneratePrivateKey m = Inr key" "all_matched (Routes cfg)" "can_bind m (ucast (Port cfg))"
    and "length (Routes cfg) < 2 ^ 64"
    and "ts = firsts (configured (Routes cfg) (if req_path q = ''/'' then [] else req_path q))" "ts \<noteq> []" "list_all is_remote ts"
    and "k = unat (first_leftover (leftover m) (Routes cfg) (if req_path q = ''/'' then [] else req_path q))"
    and "length (header_buf undef) = kMaxHttpHeaderSize" "length (concat pieces @ piece) \<le> kMaxHttpHeaderSize"
    and "phr_parse_request (env_sse env) kMaxHeadersNum 0 (concat pieces) = PPartial"
    and "phr_parse_request (env_sse env) kMaxHeadersNum 0 (concat pieces @ piece) = POk q rest"
    and "req_headers q \<noteq> []" "length (req_headers q) \<le> kMaxHeadersNum" "list_all usable_header (req_headers q)"
    and "unat (updated content_length_of (last_value kHeaderFieldContentLength (req_headers q)) 0) = length (rest @ concat chunks)"
    and "length rest \<le> kDefaultBufSize" "[] \<notin> set chunks" "env_reads env = map BodyData chunks @ later"
    and "stringToVerb (req_method q) = Some v" "resolve_ok (env_network env) ''baidu.com'' (dec 80)"
    and "connect_ok (env_network env)" "tls_ok (env_network env)" "read_response (env_network env) = Some response"
    and "env_client env = open_socket" "env_upstream env = open_socket"
  shows "\<exists>sv. main_main m (initial_globals sigs) = Serving sv \<and>
    (if k < length ts
     then \<exists>sv'. server_run (AcceptDone t undef b (AcceptedFrom addr) sock # reads env 0 (pieces @ [piece])) sv sv' \<and> serving sv' = [] \<and>
       finished_conns sv' = [\<lparr>fin_sock = Close (Some sock), fin_client = response,
         fin_upstream = request_text (env_beast env) (target_request (env_beast env) v
           (if http_url (ts ! k) = [] then ''/'' else http_url (ts ! k)) (req_headers q) ''baidu.com'') @ rest @ concat chunks\<rparr>]
     else \<exists>sv1. server_run (AcceptDone t undef b (AcceptedFrom addr) sock # reads env 0 pieces) sv sv1 \<and>
       free_worker sv1 \<and> 0 < length (serving sv1) \<and> fits_header_buf (ReadBytes piece) (conn_handler (serving sv1 ! 0)) \<and>
       handler_event env 0 (ReadBytes piece) sv1 = UB)"
proof -
  let ?u = "if req_path q = ''/'' then [] else req_path q"
  obtain err g where new: "NewAzugate (leftover m) cfg key (initial_globals sigs) = (err, g)" by fastforce
  then have "err = None" using add_routes_error [of "leftover m" "Routes cfg"] assms(4) by (simp add: NewAzugate_eq) (metis fst_conv)
  note loaded = new [unfolded this]
  let ?sv = "azugate_start (clock m) g"
  note start = started_gateway [OF new, where now = "clock m"]
  have serves: "main_main m (initial_globals sigs) = Serving ?sv"
    using assms(1-5) new NewAzugate_config [OF new] \<open>err = None\<close> by (simp add: main_main_def Azugate_Start_def LoadConfig_def)
  show ?thesis
  proof (cases "k < length ts")
    case True
    with configured_first_lookup(3) [OF loaded assms(6), of ?u] assms(7,10) start(5) obtain r' where
      found: "GetRouteTarget ?u (sv_router ?sv) = Val (Some (ts ! k), r')" by auto
    moreover have "is_remote (ts ! k)" using True assms(9) by (simp add: list_all_length)
    ultimately have "\<exists>sv'. server_run (AcceptDone t undef b (AcceptedFrom addr) sock # reads env (length (serving ?sv)) (pieces @ [piece])) ?sv sv' \<and>
      serving sv' = serving ?sv \<and> sv_router sv' = r' \<and> pending_accepts sv' = pending_accepts ?sv + 2 \<and>
      finished_conns sv' = finished_conns ?sv @ [\<lparr>fin_sock = Close (Some sock), fin_client = response,
        fin_upstream = request_text (env_beast env) (target_request (env_beast env) v
          (if http_url (ts ! k) = [] then ''/'' else http_url (ts ! k)) (req_headers q) ''baidu.com'') @ rest @ concat chunks\<rparr>]"
      using start(1,2,6) assms(11-) by (intro request_through_gateway) simp_all
    with serves start(3,4) True show ?thesis by auto
  next
    case False
    have "configured (Routes cfg) ?u \<noteq> []" using assms(7,8) by auto
    then have "GetRouteTarget ?u (sv_router ?sv) = UB"
      using configured_lookup_UB [OF loaded, of ?u] False assms(7,10) start(5) by simp
    from request_undefined_in_gateway [OF start(1) _ start(6) assms(11-17) this, where t = t and addr = addr and b = b and sock = sock]
    show ?thesis using start(2,3) serves False by simp
  qed
qed

theorem configured_request_served_witness:
  "\<exists>sv sv'. main_main sample_machine (initial_globals (\<lambda>_. SIG_DFL)) = Serving sv \<and>
    server_run (AcceptDone plain_tls some_memory False (AcceptedFrom ''10.0.0.9'') \<lparr>sock_open = True, sock_shutdown = False\<rparr> #
      reads talking_surroundings 0 (put_pieces @ [[LF] @ ''ab''])) sv sv' \<and>
    map fin_client (finished_conns sv') = [''pong''] \<and>
    map fin_upstream (finished_conns sv') = [request_text list_beast (target_request list_beast Put ''/''
      (req_headers put_request) ''baidu.com'') @ ''abcde'']"
proof -
  have m: "Executable sample_machine = Inr ''/opt/azugate''" "GeneratePrivateKey sample_machine = Inr sample_key"
    "all_matched (Routes sample_config)" "can_bind sample_machine (ucast (Port sample_config))"
    "length (Routes sample_config) < 2 ^ 64"
    by (simp_all add: sample_machine_def all_matched_def sample_config_def path_route_def)
  have q: "[http_target [] False] =
      firsts (configured (Routes sample_config) (if req_path put_request = ''/'' then [] else req_path put_request))"
    "0 = unat (first_leftover (leftover sample_machine) (Routes sample_config)
      (if req_path put_request = ''/'' then [] else req_path put_request))"
    "[http_target [] False] \<noteq> []" "list_all is_remote [http_target [] False]"
    by (simp_all add: put_request_def sample_configured firsts_def sample_machine_def sample_leftovers http_target_def)
  have exe: "Load (ReadFile sample_machine) (Unmarshal sample_machine) (Join [Dir ''/opt/azugate'', ''config.yaml'']) = Inr sample_config"
    using sample_loads m(1) by (auto simp: loads_def Load_def)
  have parsed: "phr_parse_request True kMaxHeadersNum 0 (concat put_pieces) = PPartial"
    "phr_parse_request True kMaxHeadersNum 0 (concat put_pieces @ [LF] @ ''ab'') = POk put_request ''ab''"
    "length (concat put_pieces @ [LF] @ ''ab'') \<le> kMaxHttpHeaderSize" by code_simp+
  have env: "env_sse talking_surroundings = True" "env_network talking_surroundings = good_network"
    "env_reads talking_surroundings = map BodyData [''c'', ''de''] @ [BodyEof]" "env_beast talking_surroundings = list_beast"
    "env_client talking_surroundings = open_socket" "env_upstream talking_surroundings = open_socket"
    by (simp_all add: talking_surroundings_def silent_surroundings_def)
  from configured_request_served [OF m(1) exe m(2-5) q(1,3,4,2) some_memory_size, of put_pieces "[LF] @ ''ab''" talking_surroundings "''ab''"
      "[''c'', ''de'']" "[BodyEof]" Put "''pong''" "\<lambda>_. SIG_DFL" plain_tls False "''10.0.0.9''"
      "\<lparr>sock_open = True, sock_shutdown = False\<rparr>"]
    parsed env put_request_usable put_request_content_length
  obtain sv sv' where "main_main sample_machine (initial_globals (\<lambda>_. SIG_DFL)) = Serving sv"
    "server_run (AcceptDone plain_tls some_memory False (AcceptedFrom ''10.0.0.9'') \<lparr>sock_open = True, sock_shutdown = False\<rparr> #
      reads talking_surroundings 0 (put_pieces @ [[LF] @ ''ab''])) sv sv'"
    "finished_conns sv' = [\<lparr>fin_sock = Close (Some \<lparr>sock_open = True, sock_shutdown = False\<rparr>), fin_client = ''pong'',
      fin_upstream = request_text list_beast (target_request list_beast Put ''/'' (req_headers put_request) ''baidu.com'') @ ''abcde''\<rparr>]"
    by (auto simp: put_request_def kMaxHeadersNum_def kDefaultBufSize_def stringToVerb_def good_network_def read_response_def http_target_def)
  then show ?thesis by (intro exI [of _ sv] exI [of _ sv']) simp
qed
end
